(* ===== verification/Go_Strings.thy ===== *)
theory Go_Strings
  imports Prelude
begin

text \<open>
  The part of Go's \<open>strings\<close> package the proxy uses. A Go string is a byte sequence and is
  modelled as \<open>string\<close>, the list of its bytes.
\<close>

section \<open>strings.HasPrefix, strings.TrimPrefix, strings.TrimSuffix\<close>

definition HasPrefix :: "string \<Rightarrow> string \<Rightarrow> bool" where
  "HasPrefix s p \<longleftrightarrow> take (length p) s = p"

definition HasSuffix :: "string \<Rightarrow> string \<Rightarrow> bool" where
  "HasSuffix s p \<longleftrightarrow> length p \<le> length s \<and> drop (length s - length p) s = p"

definition TrimPrefix :: "string \<Rightarrow> string \<Rightarrow> string" where
  "TrimPrefix s p = (if HasPrefix s p then drop (length p) s else s)"

definition TrimSuffix :: "string \<Rightarrow> string \<Rightarrow> string" where
  "TrimSuffix s p = (if HasSuffix s p then take (length s - length p) s else s)"

declare HasPrefix_def [go_simps] HasSuffix_def [go_simps]
  TrimPrefix_def [go_simps] TrimSuffix_def [go_simps]

lemma HasPrefix_iff_prefix: "HasPrefix s p \<longleftrightarrow> prefix p s"
  by (simp add: HasPrefix_def take_eq_iff_prefix)

lemma HasPrefix_append [simp]: "HasPrefix (p @ t) p"
  by (simp add: HasPrefix_def)

lemma HasPrefixE:
  assumes "HasPrefix s p"
  obtains t where "s = p @ t"
  using assms by (metis HasPrefix_iff_prefix prefix_def)

lemma HasPrefix_single: "HasPrefix s [c] \<longleftrightarrow> s \<noteq> [] \<and> hd s = c"
  by (cases s) (auto simp: HasPrefix_def)

lemma HasSuffix_append [simp]: "HasSuffix (t @ p) p"
  by (simp add: HasSuffix_def)

lemma HasSuffix_single: "HasSuffix s [c] \<longleftrightarrow> s \<noteq> [] \<and> last s = c"
proof (cases s rule: rev_cases)
  case Nil
  then show ?thesis by (simp add: HasSuffix_def)
next
  case (snoc t d)
  then show ?thesis by (auto simp: HasSuffix_def)
qed

lemma TrimSuffix_single: "TrimSuffix s [c] = (if s \<noteq> [] \<and> last s = c then butlast s else s)"
  by (auto simp: TrimSuffix_def HasSuffix_single butlast_conv_take)

lemma TrimPrefix_append [simp]: "TrimPrefix (p @ t) p = t"
  by (simp add: TrimPrefix_def)

section \<open>strings.TrimSpace, strings.ToLower, strings.ReplaceAll\<close>

text \<open>
  \<open>TrimSpace\<close> removes Unicode white space, given here by its UTF-8 encodings. A first byte of
  an encoding is never a continuation byte, so matching bytes at either end is matching runes.
\<close>

definition ascii_spaces :: string where
  "ascii_spaces = [CHR 0x09, CHR 0x0A, CHR 0x0B, CHR 0x0C, CHR 0x0D, CHR 0x20]"

definition wide_spaces :: "string list" where
  "wide_spaces =
     [[CHR 0xC2, CHR 0x85], [CHR 0xC2, CHR 0xA0], [CHR 0xE1, CHR 0x9A, CHR 0x80],
      [CHR 0xE2, CHR 0x80, CHR 0x80], [CHR 0xE2, CHR 0x80, CHR 0x81], [CHR 0xE2, CHR 0x80, CHR 0x82],
      [CHR 0xE2, CHR 0x80, CHR 0x83], [CHR 0xE2, CHR 0x80, CHR 0x84], [CHR 0xE2, CHR 0x80, CHR 0x85],
      [CHR 0xE2, CHR 0x80, CHR 0x86], [CHR 0xE2, CHR 0x80, CHR 0x87], [CHR 0xE2, CHR 0x80, CHR 0x88],
      [CHR 0xE2, CHR 0x80, CHR 0x89], [CHR 0xE2, CHR 0x80, CHR 0x8A], [CHR 0xE2, CHR 0x80, CHR 0xA8],
      [CHR 0xE2, CHR 0x80, CHR 0xA9], [CHR 0xE2, CHR 0x80, CHR 0xAF], [CHR 0xE2, CHR 0x81, CHR 0x9F],
      [CHR 0xE3, CHR 0x80, CHR 0x80]]"

fun leading_space :: "string \<Rightarrow> nat" where
  "leading_space [] = 0"
| "leading_space (c # s) =
     (if c \<in> set ascii_spaces then 1
      else case find (HasPrefix (c # s)) wide_spaces of None \<Rightarrow> 0 | Some r \<Rightarrow> length r)"

definition trailing_space :: "string \<Rightarrow> nat" where
  "trailing_space s =
     (if s = [] then 0
      else if last s \<in> set ascii_spaces then 1
      else case find (HasSuffix s) wide_spaces of None \<Rightarrow> 0 | Some r \<Rightarrow> length r)"

function TrimLeftSpace :: "string \<Rightarrow> string" where
  "TrimLeftSpace s =
     (if leading_space s = 0 \<or> s = [] then s else TrimLeftSpace (drop (leading_space s) s))"
  by pat_completeness auto
termination
  by (relation "measure length") auto

function TrimRightSpace :: "string \<Rightarrow> string" where
  "TrimRightSpace s =
     (if trailing_space s = 0 \<or> s = [] then s
      else TrimRightSpace (take (length s - trailing_space s) s))"
  by pat_completeness auto
termination
  by (relation "measure length") auto

declare TrimLeftSpace.simps [simp del] TrimRightSpace.simps [simp del]

definition TrimSpace :: "string \<Rightarrow> string" where
  "TrimSpace s = TrimRightSpace (TrimLeftSpace s)"

text \<open>
  \<open>ToLower\<close> on ASCII letters and on the two non-ASCII runes whose lower case is ASCII (U+0130
  and U+212A). Every other non-ASCII rune has a non-ASCII lower case; its bytes are kept, which
  no caller here can tell apart, as all of them only accept ASCII from there on.
\<close>

definition ascii_lower :: "char \<Rightarrow> char" where
  "ascii_lower c =
     (if 65 \<le> (of_char c :: nat) \<and> (of_char c :: nat) \<le> 90 then char_of ((of_char c :: nat) + 32) else c)"

fun ToLower :: "string \<Rightarrow> string" where
  "ToLower [] = []"
| "ToLower (c # cs) =
     (if HasPrefix (c # cs) [CHR 0xC4, CHR 0xB0] then CHR ''i'' # ToLower (drop 1 cs)
      else if HasPrefix (c # cs) [CHR 0xE2, CHR 0x84, CHR 0xAA] then CHR ''k'' # ToLower (drop 2 cs)
      else ascii_lower c # ToLower cs)"

definition RemoveAll :: "string \<Rightarrow> char \<Rightarrow> string" where
  "RemoveAll s c = filter (\<lambda>x. x \<noteq> c) s"

definition is_ascii :: "char \<Rightarrow> bool" where
  "is_ascii c \<longleftrightarrow> (of_char c :: nat) < 128"

lemma leading_space_plain:
  assumes "is_ascii c" and "c \<notin> set ascii_spaces"
  shows "leading_space (c # s) = 0"
proof -
  have "list_all (\<lambda>r. r \<noteq> [] \<and> \<not> is_ascii (hd r)) wide_spaces"
    by (simp add: wide_spaces_def is_ascii_def)
  moreover have "HasPrefix (c # s) r \<Longrightarrow> r \<noteq> [] \<Longrightarrow> hd r = c" for r
    by (cases r) (simp_all add: HasPrefix_def)
  ultimately have "find (HasPrefix (c # s)) wide_spaces = None"
    using assms(1) unfolding find_None_iff list_all_iff by blast
  then show ?thesis using assms(2) by simp
qed

lemma trailing_space_plain:
  assumes "is_ascii c" and "c \<notin> set ascii_spaces"
  shows "trailing_space (s @ [c]) = 0"
proof -
  have "list_all (\<lambda>r. r \<noteq> [] \<and> \<not> is_ascii (last r)) wide_spaces"
    by (simp add: wide_spaces_def is_ascii_def)
  moreover have "HasSuffix (s @ [c]) r \<Longrightarrow> r \<noteq> [] \<Longrightarrow> last r = c" for r
    by (metis HasSuffix_def append_take_drop_id last_appendR last_snoc)
  ultimately have "find (HasSuffix (s @ [c])) wide_spaces = None"
    using assms(1) unfolding find_None_iff list_all_iff by blast
  then show ?thesis using assms(2) by (simp add: trailing_space_def)
qed

lemma TrimLeftSpace_spaces: "set ws \<subseteq> set ascii_spaces \<Longrightarrow> TrimLeftSpace (ws @ s) = TrimLeftSpace s"
  by (induction ws) (auto simp: TrimLeftSpace.simps [of "_ # _"])

lemma TrimLeftSpace_plain: "is_ascii c \<Longrightarrow> c \<notin> set ascii_spaces \<Longrightarrow> TrimLeftSpace (c # s) = c # s"
  by (simp add: TrimLeftSpace.simps [of "c # s"] leading_space_plain del: leading_space.simps)

lemma TrimRightSpace_spaces: "set ws \<subseteq> set ascii_spaces \<Longrightarrow> TrimRightSpace (s @ ws) = TrimRightSpace s"
proof (induction ws rule: rev_induct)
  case (snoc w ws)
  then have "trailing_space ((s @ ws) @ [w]) = 1" by (simp add: trailing_space_def)
  then have "TrimRightSpace ((s @ ws) @ [w]) = TrimRightSpace (s @ ws)"
    by (subst TrimRightSpace.simps) simp
  with snoc show ?case by simp
qed simp

lemma TrimRightSpace_plain: "is_ascii c \<Longrightarrow> c \<notin> set ascii_spaces \<Longrightarrow> TrimRightSpace (s @ [c]) = s @ [c]"
  by (subst TrimRightSpace.simps) (simp add: trailing_space_plain)

text \<open>White space around a text that starts and ends with visible ASCII is what is removed.\<close>

definition visible :: "char \<Rightarrow> bool" where
  "visible c \<longleftrightarrow> is_ascii c \<and> c \<notin> set ascii_spaces"

lemma TrimSpace_around:
  assumes "set u \<subseteq> set ascii_spaces" and "set v \<subseteq> set ascii_spaces"
    and "s \<noteq> []" and "visible (hd s)" and "visible (last s)"
  shows "TrimSpace (u @ s @ v) = s"
proof -
  have "TrimLeftSpace (u @ s @ v) = s @ v"
    using assms by (cases s) (simp_all add: TrimLeftSpace_spaces TrimLeftSpace_plain visible_def)
  moreover have "TrimRightSpace s = s"
    using assms TrimRightSpace_plain [of "last s" "butlast s"] by (simp add: visible_def)
  ultimately show ?thesis using assms by (simp add: TrimSpace_def TrimRightSpace_spaces)
qed

lemma TrimSpace_visible: "s \<noteq> [] \<Longrightarrow> list_all visible s \<Longrightarrow> TrimSpace s = s"
  using TrimSpace_around [of "[]" "[]" s] by (simp add: list_all_iff)

lemma TrimSpace_blank: "set u \<subseteq> set ascii_spaces \<Longrightarrow> TrimSpace u = []"
  using TrimLeftSpace_spaces [of u "[]"]
  by (simp add: TrimSpace_def TrimLeftSpace.simps [of "[]"] TrimRightSpace.simps [of "[]"])

lemma ToLower_ascii: "list_all is_ascii s \<Longrightarrow> ToLower s = map ascii_lower s"
  by (induction s) (auto simp: HasPrefix_def is_ascii_def)

end
