(* ===== verification/Go_Numbers.thy ===== *)
theory Go_Numbers
  imports Go_Strings
begin

text \<open>
  Numbers as text: \<open>big.Int.Text\<close> and \<open>big.Int.SetString\<close> in base 16, as the revocation
  list uses them, and decimal text for \<open>%d\<close>.
\<close>

section \<open>Digits\<close>

definition digit_char :: "nat \<Rightarrow> char" where
  "digit_char d = char_of (if d < 10 then 48 + d else 87 + d)"

definition hex_val :: "char \<Rightarrow> nat option" where
  "hex_val c =
     (let n = (of_char c :: nat)
      in if 48 \<le> n \<and> n \<le> 57 then Some (n - 48)
         else if 97 \<le> n \<and> n \<le> 102 then Some (n - 87)
         else if 65 \<le> n \<and> n \<le> 70 then Some (n - 55)
         else None)"

fun radix_text :: "nat \<Rightarrow> nat \<Rightarrow> string" where
  "radix_text b n =
     (if b < 2 \<or> n < b then [digit_char n] else radix_text b (n div b) @ [digit_char (n mod b)])"

declare radix_text.simps [simp del]

fun hex_parse :: "nat \<Rightarrow> string \<Rightarrow> nat option" where
  "hex_parse acc [] = Some acc"
| "hex_parse acc (c # cs) =
     (case hex_val c of None \<Rightarrow> None | Some d \<Rightarrow> hex_parse (16 * acc + d) cs)"

section \<open>big.Int\<close>

definition SetString16 :: "string \<Rightarrow> int option" where
  "SetString16 s =
     (let neg = HasPrefix s ''-'';
          ds = (if HasPrefix s ''-'' \<or> HasPrefix s ''+'' then tl s else s)
      in if ds = [] then None
         else map_option (\<lambda>n. if neg then - int n else int n) (hex_parse 0 ds))"

definition Text16 :: "int \<Rightarrow> string" where
  "Text16 i = (if i < 0 then CHR ''-'' # radix_text 16 (nat (- i)) else radix_text 16 (nat i))"

definition dec_text :: "int \<Rightarrow> string" where
  "dec_text i = (if i < 0 then CHR ''-'' # radix_text 10 (nat (- i)) else radix_text 10 (nat i))"

section \<open>Text and parse are inverse\<close>

definition hex_lower :: string where
  "hex_lower = ''0123456789abcdef''"

lemma hex_digits_table:
  "list_all (\<lambda>d. digit_char d \<in> set hex_lower \<and> hex_val (digit_char d) = Some d) [0..<16]"
  by code_simp

lemma digit_char_lower: "d < 16 \<Longrightarrow> digit_char d \<in> set hex_lower"
  and hex_val_digit: "d < 16 \<Longrightarrow> hex_val (digit_char d) = Some d"
  using hex_digits_table by (simp_all add: list_all_iff)

lemma hex_parse_append:
  "hex_parse acc (xs @ ys) = Option.bind (hex_parse acc xs) (\<lambda>a. hex_parse a ys)"
  by (induction acc xs rule: hex_parse.induct) (auto split: option.splits)

lemma hex_parse_text: "hex_parse 0 (radix_text 16 n) = Some n"
proof (induction "16 :: nat" n rule: radix_text.induct)
  case (1 n)
  show ?case
  proof (cases "n < 16")
    case True
    then show ?thesis by (simp add: radix_text.simps hex_val_digit)
  next
    case False
    then have "hex_parse 0 (radix_text 16 (n div 16)) = Some (n div 16)" using 1 by simp
    with False show ?thesis
      by (subst radix_text.simps) (simp add: hex_parse_append hex_val_digit)
  qed
qed

lemma radix_text_lower: "set (radix_text 16 n) \<subseteq> set hex_lower"
proof (induction "16 :: nat" n rule: radix_text.induct)
  case (1 n)
  then show ?case by (subst radix_text.simps) (auto simp: digit_char_lower)
qed

lemma radix_text_not_Nil [simp]: "radix_text b n \<noteq> []"
  by (subst radix_text.simps) simp

lemma radix_text_length: "0 < k \<Longrightarrow> n < 16 ^ k \<Longrightarrow> length (radix_text 16 n) \<le> k"
proof (induction k arbitrary: n)
  case (Suc k)
  show ?case
  proof (cases "n < 16")
    case True
    then show ?thesis by (simp add: radix_text.simps [of 16 n])
  next
    case False
    then have "0 < k" using Suc.prems by (cases k) simp_all
    moreover have "n div 16 < 16 ^ k" using Suc.prems by (simp add: less_mult_imp_div_less mult.commute)
    ultimately have "length (radix_text 16 (n div 16)) \<le> k" by (rule Suc.IH)
    then show ?thesis using False by (subst radix_text.simps) simp
  qed
qed simp

lemma hd_radix_text: "hd (radix_text 16 n) \<in> set hex_lower"
  using radix_text_lower [of n] by (metis hd_in_set radix_text_not_Nil subsetD)

lemma hex_lower_no_sign: "CHR ''-'' \<notin> set hex_lower" "CHR ''+'' \<notin> set hex_lower"
  by (simp_all add: hex_lower_def)

lemma SetString16_Text16: "SetString16 (Text16 i) = Some i"
proof -
  have "hd (radix_text 16 n) \<noteq> CHR ''-''" "hd (radix_text 16 n) \<noteq> CHR ''+''" for n
    using hd_radix_text [of n] hex_lower_no_sign by metis+
  then show ?thesis
    by (auto simp: SetString16_def Text16_def HasPrefix_single hex_parse_text Let_def)
qed

lemma Text16_inj: "Text16 i = Text16 j \<longleftrightarrow> i = j"
  using SetString16_Text16 by (metis option.inject)

lemma Text16_chars: "set (Text16 i) \<subseteq> insert (CHR ''-'') (set hex_lower)"
  using radix_text_lower by (auto simp: Text16_def)

lemma Text16_not_Nil [simp]: "Text16 i \<noteq> []"
  by (simp add: Text16_def)

text \<open>Upper and lower case digits have the same value.\<close>

lemma ascii_lower_hex: "hex_val c = Some d \<Longrightarrow> hex_val (ascii_lower c) = Some d"
  by (auto simp: hex_val_def ascii_lower_def Let_def split: if_splits)

lemma hex_parse_lower:
  "hex_parse acc s = Some n \<Longrightarrow> hex_parse acc (map ascii_lower s) = Some n"
  by (induction acc s rule: hex_parse.induct) (auto split: option.splits simp: ascii_lower_hex)

end
