(* ===== verification/Go_Quote.thy ===== *)
theory Go_Quote
  imports Go_Numbers
begin

text \<open>
  \<open>strconv.Quote\<close>, which \<^verbatim>\<open>sanitizeForLog\<close> and every \<open>%q\<close> of the log lines rest on:
  UTF-8 decoding, the escapes, and the two facts the proxy wants of it, that no control
  character survives and that the quoted text ends where its closing quote is. Which runes
  above U+00FF are printable is the parameter \<open>wide\<close> (a Unicode table of Go's library).
\<close>

section \<open>UTF-8\<close>

definition byte_at :: "string \<Rightarrow> nat \<Rightarrow> nat" where
  "byte_at s i = (if i < length s then of_char (s ! i) else 0)"

definition cont_byte :: "string \<Rightarrow> nat \<Rightarrow> bool" where
  "cont_byte s i \<longleftrightarrow> 128 \<le> byte_at s i \<and> byte_at s i \<le> 191"

definition RuneError :: nat where
  "RuneError = 65533"

text \<open>The well-formed sequences of two, three and four bytes (no overlong form, no surrogate).\<close>

definition two_bytes :: "string \<Rightarrow> bool" where
  "two_bytes s \<longleftrightarrow> 194 \<le> byte_at s 0 \<and> byte_at s 0 \<le> 223 \<and> cont_byte s 1"

definition three_bytes :: "string \<Rightarrow> bool" where
  "three_bytes s \<longleftrightarrow> 224 \<le> byte_at s 0 \<and> byte_at s 0 \<le> 239 \<and> cont_byte s 1 \<and> cont_byte s 2 \<and>
     (byte_at s 0 = 224 \<longrightarrow> 160 \<le> byte_at s 1) \<and> (byte_at s 0 = 237 \<longrightarrow> byte_at s 1 \<le> 159)"

definition four_bytes :: "string \<Rightarrow> bool" where
  "four_bytes s \<longleftrightarrow> 240 \<le> byte_at s 0 \<and> byte_at s 0 \<le> 244 \<and>
     cont_byte s 1 \<and> cont_byte s 2 \<and> cont_byte s 3 \<and>
     (byte_at s 0 = 240 \<longrightarrow> 144 \<le> byte_at s 1) \<and> (byte_at s 0 = 244 \<longrightarrow> byte_at s 1 \<le> 143)"

text \<open>\<open>utf8.DecodeRuneInString\<close>: the rune and its width; an ill-formed byte is RuneError of width 1.\<close>

definition decode_rune :: "string \<Rightarrow> nat \<times> nat" where
  "decode_rune s =
     (let b0 = byte_at s 0; b1 = byte_at s 1; b2 = byte_at s 2; b3 = byte_at s 3
      in if s = [] then (RuneError, 0)
         else if b0 < 128 then (b0, 1)
         else if two_bytes s then ((b0 - 192) * 64 + (b1 - 128), 2)
         else if three_bytes s then ((b0 - 224) * 4096 + (b1 - 128) * 64 + (b2 - 128), 3)
         else if four_bytes s then
           ((b0 - 240) * 262144 + (b1 - 128) * 4096 + (b2 - 128) * 64 + (b3 - 128), 4)
         else (RuneError, 1))"

section \<open>strconv.Quote\<close>

definition IsPrint :: "(nat \<Rightarrow> bool) \<Rightarrow> nat \<Rightarrow> bool" where
  "IsPrint wide r \<longleftrightarrow>
     (if r \<le> 255 then (32 \<le> r \<and> r < 127) \<or> (161 \<le> r \<and> r \<noteq> 173) else wide r)"

fun hex_pad :: "nat \<Rightarrow> nat \<Rightarrow> string" where
  "hex_pad 0 n = []"
| "hex_pad (Suc k) n = hex_pad k (n div 16) @ [digit_char (n mod 16)]"

definition escaped_rune :: "(nat \<Rightarrow> bool) \<Rightarrow> nat \<Rightarrow> string \<Rightarrow> string" where
  "escaped_rune wide r bytes =
     (if r = 34 \<or> r = 92 then [CHR 0x5C, char_of r]
      else if IsPrint wide r then bytes
      else if r = 7 then [CHR 0x5C, CHR ''a'']
      else if r = 8 then [CHR 0x5C, CHR ''b'']
      else if r = 12 then [CHR 0x5C, CHR ''f'']
      else if r = 10 then [CHR 0x5C, CHR ''n'']
      else if r = 13 then [CHR 0x5C, CHR ''r'']
      else if r = 9 then [CHR 0x5C, CHR ''t'']
      else if r = 11 then [CHR 0x5C, CHR ''v'']
      else if r < 32 \<or> r = 127 then [CHR 0x5C, CHR ''x''] @ hex_pad 2 r
      else if r < 65536 then [CHR 0x5C, CHR ''u''] @ hex_pad 4 r
      else [CHR 0x5C, CHR ''U''] @ hex_pad 8 r)"

lemma wide_runes:
  "two_bytes s \<Longrightarrow> 128 \<le> (byte_at s 0 - 192) * 64 + (byte_at s 1 - 128)"
  "three_bytes s \<Longrightarrow> 128 \<le> (byte_at s 0 - 224) * 4096 + (byte_at s 1 - 128) * 64 + (byte_at s 2 - 128)"
  "four_bytes s \<Longrightarrow>
   128 \<le> (byte_at s 0 - 240) * 262144 + (byte_at s 1 - 128) * 4096 + (byte_at s 2 - 128) * 64 + (byte_at s 3 - 128)"
  by (cases "byte_at s 0 = 224"; cases "byte_at s 0 = 240";
      auto simp: two_bytes_def three_bytes_def four_bytes_def)+

lemma wide_conts:
  "two_bytes s \<Longrightarrow> 0 < i \<Longrightarrow> i < 2 \<Longrightarrow> cont_byte s i"
  "three_bytes s \<Longrightarrow> 0 < i \<Longrightarrow> i < 3 \<Longrightarrow> cont_byte s i"
  "four_bytes s \<Longrightarrow> 0 < i \<Longrightarrow> i < 4 \<Longrightarrow> cont_byte s i"
proof -
  show "two_bytes s \<Longrightarrow> 0 < i \<Longrightarrow> i < 2 \<Longrightarrow> cont_byte s i"
  proof -
    assume "two_bytes s" "0 < i" "i < 2"
    then have "i = 1" by arith
    with \<open>two_bytes s\<close> show ?thesis by (simp add: two_bytes_def)
  qed
  show "three_bytes s \<Longrightarrow> 0 < i \<Longrightarrow> i < 3 \<Longrightarrow> cont_byte s i"
  proof -
    assume "three_bytes s" "0 < i" "i < 3"
    then have "i = 1 \<or> i = 2" by arith
    with \<open>three_bytes s\<close> show ?thesis by (auto simp: three_bytes_def)
  qed
  show "four_bytes s \<Longrightarrow> 0 < i \<Longrightarrow> i < 4 \<Longrightarrow> cont_byte s i"
  proof -
    assume "four_bytes s" "0 < i" "i < 4"
    then have "i = 1 \<or> i = 2 \<or> i = 3" by arith
    with \<open>four_bytes s\<close> show ?thesis by (auto simp: four_bytes_def)
  qed
qed

lemma decode_rune_cases:
  obtains "decode_rune s = (RuneError, 0)" "s = []"
  | "decode_rune s = (byte_at s 0, 1)" "s \<noteq> []" "byte_at s 0 < 128"
  | "decode_rune s = (RuneError, 1)" "s \<noteq> []"
  | r w where "decode_rune s = (r, w)" "s \<noteq> []" "128 \<le> r" "1 < w" "w \<le> 4" "128 \<le> byte_at s 0"
      "\<And>i. 0 < i \<Longrightarrow> i < w \<Longrightarrow> cont_byte s i"
proof -
  consider "s = []" | "s \<noteq> []" "byte_at s 0 < 128"
    | "s \<noteq> []" "\<not> byte_at s 0 < 128" "two_bytes s"
    | "s \<noteq> []" "\<not> byte_at s 0 < 128" "\<not> two_bytes s" "three_bytes s"
    | "s \<noteq> []" "\<not> byte_at s 0 < 128" "\<not> two_bytes s" "\<not> three_bytes s" "four_bytes s"
    | "s \<noteq> []" "\<not> byte_at s 0 < 128" "\<not> two_bytes s" "\<not> three_bytes s" "\<not> four_bytes s" by blast
  then show thesis
  proof cases
    case 3
    show thesis
      by (rule that(4) [of "(byte_at s 0 - 192) * 64 + (byte_at s 1 - 128)" 2])
        (use 3 wide_runes(1) wide_conts(1) in \<open>simp_all add: decode_rune_def Let_def\<close>)
  next
    case 4
    show thesis
      by (rule that(4) [of "(byte_at s 0 - 224) * 4096 + (byte_at s 1 - 128) * 64 + (byte_at s 2 - 128)" 3])
        (use 4 wide_runes(2) wide_conts(2) in \<open>simp_all add: decode_rune_def Let_def\<close>)
  next
    case 5
    show thesis
      by (rule that(4) [of "(byte_at s 0 - 240) * 262144 + (byte_at s 1 - 128) * 4096 +
            (byte_at s 2 - 128) * 64 + (byte_at s 3 - 128)" 4])
        (use 5 wide_runes(3) wide_conts(3) in \<open>simp_all add: decode_rune_def Let_def\<close>)
  qed (use that(1-3) in \<open>simp_all add: decode_rune_def Let_def\<close>)
qed

lemma decode_rune_width: "s \<noteq> [] \<Longrightarrow> 0 < snd (decode_rune s) \<and> snd (decode_rune s) \<le> 4"
  by (cases s rule: decode_rune_cases) auto

function quote_body :: "(nat \<Rightarrow> bool) \<Rightarrow> string \<Rightarrow> string" where
  "quote_body wide s =
     (if s = [] then []
      else
        let (r, w) = decode_rune s
        in (if w = 1 \<and> r = RuneError then [CHR 0x5C, CHR ''x''] @ hex_pad 2 (byte_at s 0)
            else escaped_rune wide r (take w s)) @ quote_body wide (drop w s))"
  by pat_completeness auto
termination
proof (relation "measure (\<lambda>(wide, s). length s)")
  fix wide :: "nat \<Rightarrow> bool" and s x xa y
  assume "s \<noteq> []" "x = decode_rune s" "(xa, y) = x"
  then have "0 < y" using decode_rune_width [of s] by (metis snd_conv)
  then show "((wide, drop y s), (wide, s)) \<in> measure (\<lambda>(wide, s). length s)"
    using \<open>s \<noteq> []\<close> by auto
qed simp

declare quote_body.simps [simp del]

definition Quote :: "(nat \<Rightarrow> bool) \<Rightarrow> string \<Rightarrow> string" where
  "Quote wide s = CHR 0x22 # quote_body wide s @ [CHR 0x22]"

text \<open>\<open>%q\<close> of a slice of strings.\<close>

fun quote_items :: "(nat \<Rightarrow> bool) \<Rightarrow> string list \<Rightarrow> string" where
  "quote_items wide [] = []"
| "quote_items wide [s] = Quote wide s"
| "quote_items wide (s # ss) = Quote wide s @ CHR '' '' # quote_items wide ss"

definition QuoteSlice :: "(nat \<Rightarrow> bool) \<Rightarrow> string list \<Rightarrow> string" where
  "QuoteSlice wide ss = ''['' @ quote_items wide ss @ '']''"

section \<open>No control character survives\<close>

definition control :: "char \<Rightarrow> bool" where
  "control c \<longleftrightarrow> (of_char c :: nat) < 32 \<or> (of_char c :: nat) = 127"

definition log_safe :: "string \<Rightarrow> bool" where
  "log_safe s \<longleftrightarrow> list_all (\<lambda>c. \<not> control c) s"

text \<open>
  One token for a reader of the line: from behind the opening quote, backslash pairs are
  skipped and the first bare quote ends the token.
\<close>

fun token_rest :: "string \<Rightarrow> string option" where
  "token_rest [] = None"
| "token_rest (c # s) =
     (if c = CHR 0x22 then Some s
      else if c = CHR 0x5C then token_rest (drop 1 s)
      else token_rest s)"

text \<open>What a piece of a quoted body is: it is skipped whole and holds no control character.\<close>

definition token_piece :: "string \<Rightarrow> bool" where
  "token_piece p \<longleftrightarrow> log_safe p \<and> (\<forall>t. token_rest (p @ t) = token_rest t)"

definition plain_char :: "char \<Rightarrow> bool" where
  "plain_char c \<longleftrightarrow> \<not> control c \<and> c \<noteq> CHR 0x22 \<and> c \<noteq> CHR 0x5C"

lemma log_safe_append [simp]: "log_safe (a @ b) \<longleftrightarrow> log_safe a \<and> log_safe b"
  by (simp add: log_safe_def)

lemma log_safe_Cons [simp]: "log_safe (c # s) \<longleftrightarrow> \<not> control c \<and> log_safe s"
  by (simp add: log_safe_def)

lemma log_safe_Nil [simp]: "log_safe []"
  by (simp add: log_safe_def)

lemma token_piece_append: "token_piece a \<Longrightarrow> token_piece b \<Longrightarrow> token_piece (a @ b)"
  by (simp add: token_piece_def)

lemma token_piece_Nil: "token_piece []"
  by (simp add: token_piece_def)

lemma token_piece_plain: "list_all plain_char p \<Longrightarrow> token_piece p"
  by (induction p) (auto simp: token_piece_def plain_char_def)

lemma token_piece_escape:
  assumes "\<not> control c" and "list_all plain_char p"
  shows "token_piece ([CHR 0x5C, c] @ p)"
  using token_piece_plain [OF assms(2)] assms(1) by (simp add: token_piece_def control_def)

lemma digit_char_plain: "d < 16 \<Longrightarrow> plain_char (digit_char d)"
proof -
  have "list_all plain_char hex_lower" by (simp add: hex_lower_def plain_char_def control_def)
  then show "d < 16 \<Longrightarrow> plain_char (digit_char d)" using digit_char_lower by (auto simp: list_all_iff)
qed

lemma hex_pad_plain: "list_all plain_char (hex_pad k n)"
  by (induction k n rule: hex_pad.induct) (auto simp: digit_char_plain)

lemma escaped_rune_ascii:
  assumes "r < 128" and "bytes = [char_of r]"
  shows "token_piece (escaped_rune wide r bytes)"
proof -
  have hex: "list_all plain_char (hex_pad 2 r)" by (rule hex_pad_plain)
  have esc: "\<not> control (CHR ''x'')" "\<not> control (CHR ''a'')" "\<not> control (CHR ''b'')" "\<not> control (CHR ''f'')"
    "\<not> control (CHR ''n'')" "\<not> control (CHR ''r'')" "\<not> control (CHR ''t'')" "\<not> control (CHR ''v'')"
    by (simp_all add: control_def)
  consider "r = 34 \<or> r = 92" | "r \<noteq> 34" "r \<noteq> 92" "32 \<le> r" "r < 127" | "r < 32 \<or> r = 127"
    using assms(1) by linarith
  then show ?thesis
  proof cases
    case 1
    then have "\<not> control (char_of r)" by (auto simp: control_def)
    then show ?thesis using 1 token_piece_escape [of "char_of r" "[]"] by (simp add: escaped_rune_def)
  next
    case 2
    have "escaped_rune wide r bytes = [char_of r]" using 2 assms by (simp add: escaped_rune_def IsPrint_def)
    moreover have "plain_char (char_of r)"
    proof -
      have "of_char (char_of r :: char) = r" using assms(1) by (simp add: take_bit_eq_mod)
      moreover have "of_char (CHR 0x22) = (34 :: nat)" "of_char (CHR 0x5C) = (92 :: nat)" by simp_all
      ultimately show ?thesis using 2 unfolding plain_char_def control_def by (metis not_less order_less_irrefl)
    qed
    ultimately show ?thesis by (simp add: token_piece_plain)
  next
    case 3
    then have "\<not> IsPrint wide r" "r \<noteq> 34" "r \<noteq> 92" by (auto simp: IsPrint_def)
    then have "\<exists>c p. escaped_rune wide r bytes = [CHR 0x5C, c] @ p \<and> \<not> control c \<and> list_all plain_char p"
      using 3 hex esc by (simp add: escaped_rune_def)
    then show ?thesis using token_piece_escape by metis
  qed
qed

lemma escaped_rune_wide:
  assumes "128 \<le> r" and "list_all plain_char bytes"
  shows "token_piece (escaped_rune wide r bytes)"
proof -
  have "\<not> control (CHR ''u'')" "\<not> control (CHR ''U'')" by (simp_all add: control_def)
  moreover have "escaped_rune wide r bytes =
      (if IsPrint wide r then bytes
       else if r < 65536 then [CHR 0x5C, CHR ''u''] @ hex_pad 4 r else [CHR 0x5C, CHR ''U''] @ hex_pad 8 r)"
    using assms(1) by (simp add: escaped_rune_def)
  ultimately show ?thesis
    using assms(2) token_piece_escape [OF _ hex_pad_plain] token_piece_plain by simp
qed

lemma high_byte_plain: "i < length s \<Longrightarrow> 128 \<le> byte_at s i \<Longrightarrow> plain_char (s ! i)"
  by (auto simp: byte_at_def plain_char_def control_def)

lemma take_wide_plain:
  assumes "128 \<le> byte_at s 0" and "\<And>i. 0 < i \<Longrightarrow> i < w \<Longrightarrow> cont_byte s i"
  shows "list_all plain_char (take w s)"
proof -
  have "plain_char (s ! i)" if "i < w" "i < length s" for i
    using that assms by (cases "i = 0") (auto intro: high_byte_plain simp: cont_byte_def)
  then show ?thesis by (auto simp: list_all_length)
qed

lemma quote_body_piece: "token_piece (quote_body wide s)"
proof (induction wide s rule: quote_body.induct)
  case (1 wide s)
  show ?case
  proof (cases "s = []")
    case True
    then show ?thesis by (simp add: quote_body.simps token_piece_Nil)
  next
    case ne: False
    obtain r w where d: "decode_rune s = (r, w)" by fastforce
    let ?p = "if w = 1 \<and> r = RuneError then [CHR 0x5C, CHR ''x''] @ hex_pad 2 (byte_at s 0)
      else escaped_rune wide r (take w s)"
    have "token_piece ?p"
    proof (cases s rule: decode_rune_cases)
      case 2
      then have "take w s = [char_of r]" using d ne by (cases s) (auto simp: byte_at_def)
      then show ?thesis using 2 d escaped_rune_ascii by (auto simp: RuneError_def)
    next
      case 3
      then show ?thesis
        using d token_piece_escape [OF _ hex_pad_plain, of "CHR ''x''" 2 "byte_at s 0"] by (simp add: control_def)
    next
      case (4 r' w')
      then show ?thesis using d escaped_rune_wide [OF 4(3) take_wide_plain [OF 4(6,7)]] by simp
    qed (use ne in simp)
    moreover have "token_piece (quote_body wide (drop w s))" using 1 [OF ne] d by simp
    ultimately show ?thesis using ne d
      by (subst quote_body.simps) (simp add: token_piece_append)
  qed
qed

lemma Quote_log_safe: "log_safe (Quote wide s)"
  using quote_body_piece [of wide s] by (simp add: Quote_def token_piece_def control_def)

lemma Quote_one_token: "token_rest (tl (Quote wide s) @ rest) = Some rest"
  using quote_body_piece [of wide s] by (simp add: Quote_def token_piece_def)

lemma QuoteSlice_log_safe: "log_safe (QuoteSlice wide ss)"
proof -
  have "log_safe (quote_items wide ss)"
    by (induction wide ss rule: quote_items.induct) (simp_all add: Quote_log_safe control_def)
  then show ?thesis by (simp add: QuoteSlice_def control_def)
qed

end
