(* ===== verification/Go_Int.thy ===== *)
theory Go_Int
  imports Prelude "HOL-Library.Word" "HOL-Library.Signed_Division"
begin

text \<open>
  Go's 64-bit signed integers, kept at their width: \<open>int64\<close> and \<open>time.Duration\<close> are
  \<open>64 word\<close>, read with \<open>sint\<close> and compared with the signed orders; \<open>+\<close>, \<open>-\<close> and shifts
  wrap. The lemmas move a computation to unbounded \<open>int\<close> where it stays in range.
\<close>

type_synonym int64 = "64 word"
type_synonym duration = int64

definition duration_of :: "int \<Rightarrow> duration" where
  "duration_of n = word_of_int n"

definition in_int64 :: "int \<Rightarrow> bool" where
  "in_int64 n \<longleftrightarrow> - (2 ^ 63) \<le> n \<and> n < 2 ^ 63"

lemma sint_of_int_wrap: "sint (word_of_int n :: int64) = signed_take_bit 63 n"
  by (simp add: sint_sbintrunc')

lemma sint_of_int_range: "in_int64 n \<Longrightarrow> sint (word_of_int n :: int64) = n"
  by (simp add: sint_of_int_wrap in_int64_def signed_take_bit_int_eq_self)

lemma in_int64_sint [simp]: "in_int64 (sint (w :: int64))"
  using sint_greater_eq [of w] sint_less [of w] by (simp add: in_int64_def)

lemma sint_add: "in_int64 (sint a + sint b) \<Longrightarrow> sint (a + b :: int64) = sint a + sint b"
  by (simp add: sint_word_add signed_take_bit_int_eq_self in_int64_def)

lemma sint_diff: "in_int64 (sint a - sint b) \<Longrightarrow> sint (a - b :: int64) = sint a - sint b"
  by (simp add: sint_word_diff signed_take_bit_int_eq_self in_int64_def)

text \<open>
  A left shift whose true value fits in 64 unsigned bits: the signed reading is that value, or
  it is negative when the value passes the signed range.
\<close>

lemma push_bit_of_sint: "push_bit n (w :: int64) = word_of_int (sint w * 2 ^ n)"
proof -
  have "push_bit n w = push_bit n (word_of_int (sint w))" by simp
  also have "\<dots> = word_of_int (push_bit n (sint w))" by (simp only: push_bit_of_int)
  finally show ?thesis by (simp add: push_bit_eq_mult)
qed

lemma sint_shift_range:
  assumes "0 \<le> sint w" and "sint w * 2 ^ n < 2 ^ 63"
  shows "sint (push_bit n (w :: int64)) = sint w * 2 ^ n"
proof -
  have "0 \<le> sint w * 2 ^ n" using assms(1) by simp
  then have "in_int64 (sint w * 2 ^ n)" using assms(2) unfolding in_int64_def by linarith
  then show ?thesis by (simp only: push_bit_of_sint sint_of_int_range)
qed

lemma sint_shift_overflow:
  assumes "2 ^ 63 \<le> sint w * 2 ^ n" and "sint w * 2 ^ n < 2 ^ 64"
  shows "sint (push_bit n (w :: int64)) < 0"
proof -
  let ?v = "sint w * 2 ^ n"
  have "(word_of_int ?v :: int64) = word_of_int (?v - 2 ^ 64)"
    by (simp add: word_of_int_eq_iff take_bit_eq_mod)
  moreover have "in_int64 (?v - 2 ^ 64)" using assms by (simp add: in_int64_def)
  ultimately have "sint (push_bit n w) = ?v - 2 ^ 64"
    by (simp only: push_bit_of_sint sint_of_int_range)
  then show ?thesis using assms(2) by linarith
qed

end
