(* ===== verification/Go_Duration.thy ===== *)
theory Go_Duration
  imports Go_Int Go_Numbers Go_Strings
begin

text \<open>
  \<open>time.ParseDuration\<close>, which the configuration reads every duration with. The accumulator is
  Go's \<open>uint64\<close>, written as a \<open>nat\<close> with the one wrap-around that can happen (\<open>d += v\<close>)
  made explicit. The nanoseconds of a decimal fraction are computed in floating point by Go; they
  are the parameter \<open>frac\<close> (digits, number of digits, unit).
\<close>

section \<open>Model\<close>

datatype duration_error =
    InvalidDuration string
  | MissingUnit string
  | UnknownUnit string string

definition dec_digit :: "char \<Rightarrow> bool" where
  "dec_digit c \<longleftrightarrow> 48 \<le> (of_char c :: nat) \<and> (of_char c :: nat) \<le> 57"

definition digit_of :: "char \<Rightarrow> nat" where
  "digit_of c = of_char c - 48"

text \<open>\<open>leadingInt\<close>: \<open>None\<close> on overflow past \<open>1<<63\<close>.\<close>

fun leadingInt :: "nat \<Rightarrow> string \<Rightarrow> (nat \<times> string) option" where
  "leadingInt x [] = Some (x, [])"
| "leadingInt x (c # s) =
     (if \<not> dec_digit c then Some (x, c # s)
      else if 2 ^ 63 div 10 < x then None
      else if 2 ^ 63 < x * 10 + digit_of c then None
      else leadingInt (x * 10 + digit_of c) s)"

text \<open>\<open>leadingFraction\<close>: digits past the precision are dropped; the number of digits is the scale.\<close>

fun leadingFraction :: "nat \<Rightarrow> nat \<Rightarrow> bool \<Rightarrow> string \<Rightarrow> nat \<times> nat \<times> string" where
  "leadingFraction x k overflow [] = (x, k, [])"
| "leadingFraction x k overflow (c # s) =
     (if \<not> dec_digit c then (x, k, c # s)
      else if overflow \<or> (2 ^ 63 - 1) div 10 < x \<or> 2 ^ 63 < x * 10 + digit_of c
      then leadingFraction x k True s
      else leadingFraction (x * 10 + digit_of c) (k + 1) False s)"

definition unitMap :: "(string \<times> nat) list" where
  "unitMap =
     [(''ns'', 1), (''us'', 1000), ([CHR 0xC2, CHR 0xB5, CHR ''s''], 1000),
      ([CHR 0xCE, CHR 0xBC, CHR ''s''], 1000), (''ms'', 1000000), (''s'', 1000000000),
      (''m'', 60000000000), (''h'', 3600000000000)]"

definition unit_char :: "char \<Rightarrow> bool" where
  "unit_char c \<longleftrightarrow> c \<noteq> CHR ''.'' \<and> \<not> dec_digit c"

text \<open>One number with its unit: the nanoseconds and the rest.\<close>

definition duration_item ::
  "(nat \<Rightarrow> nat \<Rightarrow> nat \<Rightarrow> nat) \<Rightarrow> string \<Rightarrow> string \<Rightarrow> (duration_error, nat \<times> string) result"
where
  "duration_item frac orig s =
     (if s = [] \<or> \<not> (hd s = CHR ''.'' \<or> dec_digit (hd s)) then Inl (InvalidDuration orig)
      else
        case leadingInt 0 s of
          None \<Rightarrow> Inl (InvalidDuration orig)
        | Some (v, s1) \<Rightarrow>
            (let pre = length s1 \<noteq> length s;
                 (f, k, s2, post) =
                   (if s1 \<noteq> [] \<and> hd s1 = CHR ''.''
                    then (case leadingFraction 0 0 False (tl s1) of
                            (f, k, s2) \<Rightarrow> (f, k, s2, length s2 \<noteq> length (tl s1)))
                    else (0, 0, s1, False));
                 u = takeWhile unit_char s2; rest = dropWhile unit_char s2
             in if \<not> pre \<and> \<not> post then Inl (InvalidDuration orig)
                else if u = [] then Inl (MissingUnit orig)
                else
                  case map_of unitMap u of
                    None \<Rightarrow> Inl (UnknownUnit u orig)
                  | Some unit \<Rightarrow>
                      if 2 ^ 63 div unit < v then Inl (InvalidDuration orig)
                      else
                        (let n = v * unit + (if 0 < f then frac f k unit else 0)
                         in if 0 < f \<and> 2 ^ 63 < n then Inl (InvalidDuration orig)
                            else Inr (n, rest))))"

lemma leadingInt_rest: "leadingInt x s = Some (v, s') \<Longrightarrow> length s' \<le> length s"
  by (induction x s rule: leadingInt.induct) (auto split: if_splits)

lemma leadingFraction_rest: "leadingFraction x k ov s = (f, k', s') \<Longrightarrow> length s' \<le> length s"
  by (induction x k ov s rule: leadingFraction.induct) (auto split: if_splits)

lemma duration_item_rest:
  assumes "duration_item frac orig s = Inr (n, rest)"
  shows "length rest < length s"
proof -
  have unit: "length (dropWhile unit_char t) < length t" if "takeWhile unit_char t \<noteq> []" for t
    using that by (cases t) (auto simp: dropWhile_length_le le_imp_less_Suc split: if_splits)
  show ?thesis
    using assms unit
    by (auto simp: duration_item_def Let_def split_beta split: if_splits option.splits
        dest!: leadingInt_rest intro: less_le_trans order.trans)
      (metis (no_types, opaque_lifting) leadingFraction_rest diff_le_self le_trans length_tl
        less_le_trans prod.collapse)+
qed

text \<open>The loop of \<open>ParseDuration\<close>; \<open>d\<close> is the sum so far.\<close>

function duration_loop ::
  "(nat \<Rightarrow> nat \<Rightarrow> nat \<Rightarrow> nat) \<Rightarrow> string \<Rightarrow> nat \<Rightarrow> string \<Rightarrow> (duration_error, nat) result"
where
  "duration_loop frac orig d s =
     (if s = [] then Inr d
      else
        case duration_item frac orig s of
          Inl e \<Rightarrow> Inl e
        | Inr (v, rest) \<Rightarrow>
            (let d' = (d + v) mod 2 ^ 64
             in if 2 ^ 63 < d' then Inl (InvalidDuration orig) else duration_loop frac orig d' rest))"
  by pat_completeness auto
termination
  by (relation "measure (\<lambda>(frac, orig, d, s). length s)") (auto dest: duration_item_rest)

declare duration_loop.simps [simp del]

definition ParseDuration :: "(nat \<Rightarrow> nat \<Rightarrow> nat \<Rightarrow> nat) \<Rightarrow> string \<Rightarrow> (duration_error, duration) result" where
  "ParseDuration frac orig =
     (let signed = orig \<noteq> [] \<and> (hd orig = CHR ''-'' \<or> hd orig = CHR ''+'');
          neg = (orig \<noteq> [] \<and> hd orig = CHR ''-'');
          s = (if signed then tl orig else orig)
      in if s = ''0'' then Inr 0
         else if s = [] then Inl (InvalidDuration orig)
         else
           case duration_loop frac orig 0 s of
             Inl e \<Rightarrow> Inl e
           | Inr d \<Rightarrow>
               if neg then Inr (- word_of_nat d)
               else if 2 ^ 63 - 1 < d then Inl (InvalidDuration orig)
               else Inr (word_of_nat d))"

section \<open>Whole numbers with a unit\<close>

lemma digit_char_dec: "d < 10 \<Longrightarrow> dec_digit (digit_char d) \<and> digit_of (digit_char d) = d"
  by (simp add: dec_digit_def digit_of_def digit_char_def)

lemma leadingInt_append:
  "list_all dec_digit a \<Longrightarrow>
   leadingInt x (a @ b) = (case leadingInt x a of None \<Rightarrow> None | Some (v, r) \<Rightarrow> leadingInt v b)"
  by (induction x a rule: leadingInt.induct) auto

lemma radix_text_digits: "list_all dec_digit (radix_text 10 n)"
proof (induction "10 :: nat" n rule: radix_text.induct)
  case (1 n)
  then show ?case by (subst radix_text.simps) (simp add: digit_char_dec)
qed

lemma leadingInt_text: "leadingInt 0 (radix_text 10 n) = (if n \<le> 2 ^ 63 then Some (n, []) else None)"
proof (induction "10 :: nat" n rule: radix_text.induct)
  case (1 n)
  show ?case
  proof (cases "n < 10")
    case True
    then show ?thesis by (simp add: radix_text.simps digit_char_dec)
  next
    case False
    let ?q = "n div 10" and ?r = "n mod 10"
    have n: "n = ?q * 10 + ?r" by simp
    have "radix_text 10 n = radix_text 10 ?q @ [digit_char ?r]"
      using False by (subst radix_text.simps) simp
    then have "leadingInt 0 (radix_text 10 n) =
        (if ?q \<le> 2 ^ 63 then leadingInt ?q [digit_char ?r] else None)"
      using 1 False by (simp add: leadingInt_append radix_text_digits)
    also have "\<dots> = (if n \<le> 2 ^ 63 then Some (n, []) else None)"
      using n digit_char_dec [of ?r] by auto
    finally show ?thesis .
  qed
qed

lemma leadingInt_number:
  "\<not> dec_digit c \<Longrightarrow>
   leadingInt 0 (radix_text 10 n @ c # s) = (if n \<le> 2 ^ 63 then Some (n, c # s) else None)"
  by (simp add: leadingInt_append radix_text_digits leadingInt_text)

lemma unitMap_facts:
  "list_all (\<lambda>(u, U). u \<noteq> [] \<and> list_all unit_char u \<and> 0 < U \<and> U \<le> 3600000000000 \<and> map_of unitMap u = Some U) unitMap"
  by (simp add: unitMap_def unit_char_def dec_digit_def)

lemma radix_text_nonempty: "radix_text 10 n \<noteq> []"
  by (subst radix_text.simps) simp

lemma duration_item_whole:
  assumes "(u, U) \<in> set unitMap"
  shows "duration_item frac orig (radix_text 10 n @ u) =
    (if n * U \<le> 2 ^ 63 then Inr (n * U, []) else Inl (InvalidDuration orig))"
proof -
  have u: "u \<noteq> []" "list_all unit_char u" "0 < U" "map_of unitMap u = Some U"
    using assms unitMap_facts by (auto simp: list_all_iff)
  then obtain c t where c: "u = c # t" "\<not> dec_digit c" "c \<noteq> CHR ''.''"
    by (cases u) (auto simp: unit_char_def)
  have first: "dec_digit (hd (radix_text 10 n))"
    using radix_text_digits [of n] radix_text_nonempty [of n] by (cases "radix_text 10 n") auto
  have unit: "takeWhile unit_char u = u" "dropWhile unit_char u = []"
    using u(2) by (auto simp: list_all_iff)
  have le: "n * U \<le> 2 ^ 63 \<longleftrightarrow> n \<le> 2 ^ 63 div U" using u(3) by (simp add: less_eq_div_iff_mult_less_eq)
  have small: "n \<le> 2 ^ 63 div U \<Longrightarrow> n \<le> 2 ^ 63" by (meson div_le_dividend le_trans)
  show ?thesis
    unfolding duration_item_def
    using first radix_text_nonempty [of n] leadingInt_number [OF c(2), of n t] unit u(1,4) c le small
    by (auto simp: Let_def)
qed

section \<open>Exactness\<close>

text \<open>
  A whole number with a unit is read exactly: for each unit of the table, the number's text
  followed by the unit gives that many units as nanoseconds when they fit a \<open>Duration\<close>, and an
  error otherwise; no number is silently wrapped, truncated or negative.
\<close>

theorem whole_durations_exact:
  assumes "(u, U) \<in> set unitMap"
  shows "ParseDuration frac (radix_text 10 n @ u) =
    (if n * U < 2 ^ 63 then Inr (duration_of (int (n * U)))
     else Inl (InvalidDuration (radix_text 10 n @ u)))"
proof -
  let ?s = "radix_text 10 n @ u"
  have u: "u \<noteq> []" using assms unitMap_facts by (auto simp: list_all_iff)
  have hd: "dec_digit (hd (radix_text 10 n))"
    using radix_text_digits [of n] radix_text_nonempty [of n] by (cases "radix_text 10 n") auto
  then have unsigned: "hd ?s \<noteq> CHR ''-'' \<and> hd ?s \<noteq> CHR ''+''"
    using radix_text_nonempty [of n] by (auto simp: dec_digit_def)
  have "?s \<noteq> ''0''" using u radix_text_nonempty [of n] by (cases "radix_text 10 n") auto
  then have "ParseDuration frac ?s = (case duration_loop frac ?s 0 ?s of Inl e \<Rightarrow> Inl e
      | Inr d \<Rightarrow> if 2 ^ 63 - 1 < d then Inl (InvalidDuration ?s) else Inr (word_of_nat d))"
    using unsigned u unfolding ParseDuration_def Let_def by (simp split: sum.split)
  also have "duration_loop frac ?s 0 ?s =
      (if n * U \<le> 2 ^ 63 then Inr (n * U) else Inl (InvalidDuration ?s))"
    using u by (subst duration_loop.simps)
      (simp add: duration_item_whole [OF assms] duration_loop.simps [of _ _ _ "[]"])
  finally show ?thesis by (auto simp: duration_of_def)
qed

theorem whole_durations_exact_witness:
  "ParseDuration frac (radix_text 10 30 @ ''s'') = Inr (duration_of 30000000000)"
  using whole_durations_exact [of "''s''" 1000000000 frac 30] by (simp add: unitMap_def)

end
