(* ===== verification/Go_JSON.thy ===== *)
theory Go_JSON
  imports Go_Quote Go_Duration
begin

text \<open>
  The part of \<open>encoding/json\<close> the configuration uses: from bytes to tokens, from tokens to a
  value with the parse stack of Go's scanner, and the matching of object keys with field names.
  A text with any syntax error is \<open>None\<close>.
\<close>

section \<open>Values\<close>

datatype json =
    JNull
  | JBool bool
  | JNum string
  | JStr string
  | JArr "json list"
  | JObj "(string \<times> json) list"

section \<open>String literals\<close>

definition encode_rune :: "nat \<Rightarrow> string" where
  "encode_rune r =
     (if r < 128 then [char_of r]
      else if r < 2048 then [char_of (192 + r div 64), char_of (128 + r mod 64)]
      else if r < 65536 then
        [char_of (224 + r div 4096), char_of (128 + r div 64 mod 64), char_of (128 + r mod 64)]
      else
        [char_of (240 + r div 262144), char_of (128 + r div 4096 mod 64),
         char_of (128 + r div 64 mod 64), char_of (128 + r mod 64)])"

text \<open>The bytes up to the closing quote; \<open>esc\<close> is set behind a backslash.\<close>

fun raw_string :: "bool \<Rightarrow> string \<Rightarrow> (string \<times> string) option" where
  "raw_string esc [] = None"
| "raw_string esc (c # s) =
     (if (of_char c :: nat) < 32 then None
      else if esc then map_option (apfst (Cons c)) (raw_string False s)
      else if c = CHR 0x22 then Some ([], s)
      else map_option (apfst (Cons c)) (raw_string (c = CHR 0x5C) s))"

definition hex4 :: "string \<Rightarrow> nat option" where
  "hex4 s = (if length s < 4 then None else hex_parse 0 (take 4 s))"

definition simple_escape :: "char \<Rightarrow> char option" where
  "simple_escape e =
     (if e = CHR 0x22 \<or> e = CHR 0x5C \<or> e = CHR ''/'' then Some e
      else if e = CHR ''b'' then Some (CHR 0x08)
      else if e = CHR ''f'' then Some (CHR 0x0C)
      else if e = CHR ''n'' then Some (CHR 0x0A)
      else if e = CHR ''r'' then Some (CHR 0x0D)
      else if e = CHR ''t'' then Some (CHR 0x09)
      else None)"

text \<open>The second half of a surrogate pair, in the six bytes that follow.\<close>

definition pair_rune :: "nat \<Rightarrow> string \<Rightarrow> nat option" where
  "pair_rune r1 s =
     (if take 2 s \<noteq> [CHR 0x5C, CHR ''u''] then None
      else
        case hex4 (drop 2 s) of
          None \<Rightarrow> None
        | Some r2 \<Rightarrow>
            if r1 < 0xDC00 \<and> 0xDC00 \<le> r2 \<and> r2 < 0xE000
            then Some ((r1 - 0xD800) * 1024 + (r2 - 0xDC00) + 0x10000) else None)"

lemma decode_rune_pos: "(r, n) = decode_rune s \<Longrightarrow> s \<noteq> [] \<Longrightarrow> 0 < n"
  using decode_rune_width [of s] by (cases "decode_rune s") auto

function unquote :: "string \<Rightarrow> string option" where
  "unquote s =
     (if s = [] then Some []
      else if hd s = CHR 0x5C then
        (case tl s of
           [] \<Rightarrow> None
         | e # t \<Rightarrow>
             if e = CHR ''u'' then
               (case hex4 t of
                  None \<Rightarrow> None
                | Some r \<Rightarrow>
                    if 0xD800 \<le> r \<and> r < 0xE000 then
                      (case pair_rune r (drop 4 t) of
                         Some rr \<Rightarrow> map_option (append (encode_rune rr)) (unquote (drop 10 t))
                       | None \<Rightarrow> map_option (append (encode_rune RuneError)) (unquote (drop 4 t)))
                    else map_option (append (encode_rune r)) (unquote (drop 4 t)))
             else
               (case simple_escape e of
                  None \<Rightarrow> None
                | Some c \<Rightarrow> map_option (Cons c) (unquote t)))
      else
        (case decode_rune s of (r, n) \<Rightarrow> map_option (append (encode_rune r)) (unquote (drop n s))))"
  by pat_completeness auto
termination
  by (relation "measure length") (auto simp: neq_Nil_conv dest: decode_rune_pos)

declare unquote.simps [simp del]

section \<open>Tokens\<close>

datatype token =
    TPunct char
  | TString string
  | TNumber string
  | TLiteral json

definition json_space :: "char \<Rightarrow> bool" where
  "json_space c \<longleftrightarrow> c = CHR '' '' \<or> c = CHR 0x09 \<or> c = CHR 0x0D \<or> c = CHR 0x0A"

text \<open>An optional part of a number: nothing when it does not start there, \<open>None\<close> when cut short.\<close>

definition num_fraction :: "string \<Rightarrow> (string \<times> string) option" where
  "num_fraction s =
     (if s = [] \<or> hd s \<noteq> CHR ''.'' then Some ([], s)
      else if takeWhile dec_digit (tl s) = [] then None
      else Some (CHR ''.'' # takeWhile dec_digit (tl s), dropWhile dec_digit (tl s)))"

definition num_exponent :: "string \<Rightarrow> (string \<times> string) option" where
  "num_exponent s =
     (if s = [] \<or> (hd s \<noteq> CHR ''e'' \<and> hd s \<noteq> CHR ''E'') then Some ([], s)
      else
        (let t = tl s;
             sign = (if t \<noteq> [] \<and> (hd t = CHR ''+'' \<or> hd t = CHR ''-'') then [hd t] else []);
             u = drop (length sign) t
         in if takeWhile dec_digit u = [] then None
            else Some (hd s # sign @ takeWhile dec_digit u, dropWhile dec_digit u)))"

definition num_integer :: "string \<Rightarrow> (string \<times> string) option" where
  "num_integer s =
     (if s = [] \<or> \<not> dec_digit (hd s) then None
      else if hd s = CHR ''0'' then Some (''0'', tl s)
      else Some (takeWhile dec_digit s, dropWhile dec_digit s))"

definition lex_number :: "string \<Rightarrow> (string \<times> string) option" where
  "lex_number s =
     (let sign = (if s \<noteq> [] \<and> hd s = CHR ''-'' then ''-'' else [])
      in case num_integer (drop (length sign) s) of
           None \<Rightarrow> None
         | Some (i, s1) \<Rightarrow>
             (case num_fraction s1 of
                None \<Rightarrow> None
              | Some (f, s2) \<Rightarrow>
                  (case num_exponent s2 of
                     None \<Rightarrow> None
                   | Some (e, s3) \<Rightarrow> Some (sign @ i @ f @ e, s3))))"

text \<open>The next token of a text that does not start with white space.\<close>

definition next_token :: "string \<Rightarrow> (token \<times> string) option" where
  "next_token s =
     (if hd s \<in> set ''{}[]:,'' then Some (TPunct (hd s), tl s)
      else if hd s = CHR 0x22 then
        (case raw_string False (tl s) of
           None \<Rightarrow> None
         | Some (raw, rest) \<Rightarrow>
             (case unquote raw of None \<Rightarrow> None | Some str \<Rightarrow> Some (TString str, rest)))
      else if HasPrefix s ''null'' then Some (TLiteral JNull, drop 4 s)
      else if HasPrefix s ''true'' then Some (TLiteral (JBool True), drop 4 s)
      else if HasPrefix s ''false'' then Some (TLiteral (JBool False), drop 5 s)
      else
        (case lex_number s of None \<Rightarrow> None | Some (lit, rest) \<Rightarrow> Some (TNumber lit, rest)))"

lemma raw_string_rest: "raw_string esc s = Some (raw, rest) \<Longrightarrow> length rest < length s"
  by (induction esc s arbitrary: raw rule: raw_string.induct) (auto split: if_splits)

lemma num_integer_rest: "num_integer s = Some (i, rest) \<Longrightarrow> length rest < length s"
  by (auto simp: num_integer_def split: if_splits intro: dropWhile_length_less)

lemma num_fraction_rest: "num_fraction s = Some (f, rest) \<Longrightarrow> length rest \<le> length s"
  by (cases s) (auto simp: num_fraction_def split: if_splits intro: le_SucI dropWhile_length_le)

lemma num_exponent_rest: "num_exponent s = Some (f, rest) \<Longrightarrow> length rest \<le> length s"
  by (auto simp: num_exponent_def Let_def split: if_splits)
    (auto intro: order.trans [OF dropWhile_length_le])

lemma lex_number_rest: "lex_number s = Some (lit, rest) \<Longrightarrow> length rest < length s"
  by (fastforce simp: lex_number_def Let_def split: option.splits if_splits
      dest: num_integer_rest num_fraction_rest num_exponent_rest)

lemma next_token_rest: "s \<noteq> [] \<Longrightarrow> next_token s = Some (t, rest) \<Longrightarrow> length rest < length s"
  by (auto simp: next_token_def neq_Nil_conv split: if_splits option.splits
      dest!: raw_string_rest lex_number_rest)

function lex :: "string \<Rightarrow> token list option" where
  "lex s =
     (if dropWhile json_space s = [] then Some []
      else
        (case next_token (dropWhile json_space s) of
           None \<Rightarrow> None
         | Some (t, rest) \<Rightarrow> map_option (Cons t) (lex rest)))"
  by pat_completeness auto
termination
  by (relation "measure length")
    (auto simp del: dropWhile_eq_Nil_conv dest!: next_token_rest intro: less_le_trans [OF _ dropWhile_length_le])

declare lex.simps [simp del]

section \<open>The parser\<close>

text \<open>The open containers, innermost first, and what the machine waits for.\<close>

datatype frame = InArr "json list" | InObj "(string \<times> json) list" string

datatype mode =
    WantValue
  | WantValueOrEnd                               \<comment> \<open>behind \<open>[\<close>\<close>
  | WantKeyOrEnd                                 \<comment> \<open>behind \<open>{\<close>\<close>
  | WantKey "(string \<times> json) list"
  | WantColon "(string \<times> json) list" string
  | Have json

definition maxNestingDepth :: nat where
  "maxNestingDepth = 10000"

definition open_value :: "token \<Rightarrow> frame list \<Rightarrow> (mode \<times> frame list) option" where
  "open_value t fs =
     (case t of
        TString s \<Rightarrow> Some (Have (JStr s), fs)
      | TNumber n \<Rightarrow> Some (Have (JNum n), fs)
      | TLiteral v \<Rightarrow> Some (Have v, fs)
      | TPunct c \<Rightarrow>
          if maxNestingDepth \<le> length fs then None
          else if c = CHR ''['' then Some (WantValueOrEnd, fs)
          else if c = CHR ''{'' then Some (WantKeyOrEnd, fs)
          else None)"

text \<open>
  The mode \<open>WantValueOrEnd\<close> stands for an open, still empty array that is not yet on the
  stack; likewise \<open>WantKeyOrEnd\<close> and \<open>WantKey\<close> for the innermost object.
\<close>

definition json_step :: "token \<Rightarrow> mode \<Rightarrow> frame list \<Rightarrow> (mode \<times> frame list) option" where
  "json_step t m fs =
     (case m of
        WantValue \<Rightarrow> open_value t fs
      | WantValueOrEnd \<Rightarrow>
          if t = TPunct CHR '']'' then Some (Have (JArr []), fs) else open_value t (InArr [] # fs)
      | WantKeyOrEnd \<Rightarrow>
          if t = TPunct CHR ''}'' then Some (Have (JObj []), fs)
          else (case t of TString k \<Rightarrow> Some (WantColon [] k, fs) | _ \<Rightarrow> None)
      | WantKey kvs \<Rightarrow> (case t of TString k \<Rightarrow> Some (WantColon kvs k, fs) | _ \<Rightarrow> None)
      | WantColon kvs k \<Rightarrow> if t = TPunct CHR '':'' then Some (WantValue, InObj kvs k # fs) else None
      | Have v \<Rightarrow>
          (case fs of
             [] \<Rightarrow> None
           | InArr vs # rest \<Rightarrow>
               if t = TPunct CHR '','' then Some (WantValue, InArr (vs @ [v]) # rest)
               else if t = TPunct CHR '']'' then Some (Have (JArr (vs @ [v])), rest)
               else None
           | InObj kvs k # rest \<Rightarrow>
               if t = TPunct CHR '','' then Some (WantKey (kvs @ [(k, v)]), rest)
               else if t = TPunct CHR ''}'' then Some (Have (JObj (kvs @ [(k, v)])), rest)
               else None))"

fun json_run :: "token list \<Rightarrow> mode \<Rightarrow> frame list \<Rightarrow> json option" where
  "json_run [] m fs = (case m of Have v \<Rightarrow> if fs = [] then Some v else None | _ \<Rightarrow> None)"
| "json_run (t # ts) m fs =
     (case json_step t m fs of None \<Rightarrow> None | Some (m', fs') \<Rightarrow> json_run ts m' fs')"

definition json_parse :: "string \<Rightarrow> json option" where
  "json_parse s = (case lex s of None \<Rightarrow> None | Some ts \<Rightarrow> json_run ts WantValue [])"

section \<open>Keys and integers\<close>

text \<open>
  \<open>foldName\<close>: ASCII letters fold to upper case; the long s and the Kelvin sign are the only
  other runes that fold to an ASCII letter. Other runes never match a field of the program.
\<close>

definition fold_rune :: "nat \<Rightarrow> nat" where
  "fold_rune r =
     (if 97 \<le> r \<and> r \<le> 122 then r - 32
      else if r = 0x17F then 83
      else if r = 0x212A then 75
      else r)"

function foldName :: "string \<Rightarrow> nat list" where
  "foldName s =
     (if s = [] then []
      else (case decode_rune s of (r, n) \<Rightarrow> fold_rune r # foldName (drop n s)))"
  by pat_completeness auto
termination
  by (relation "measure length") (auto dest: decode_rune_pos)

declare foldName.simps [simp del]

text \<open>The field a key names: by its exact name, else the first that folds to the same.\<close>

definition field_for :: "string list \<Rightarrow> string \<Rightarrow> string option" where
  "field_for names key =
     (if List.member names key then Some key else find (\<lambda>n. foldName n = foldName key) names)"

text \<open>\<open>strconv.ParseInt(lit, 10, 64)\<close> on a JSON number: a fraction or an exponent is refused.\<close>

definition ParseInt :: "string \<Rightarrow> int option" where
  "ParseInt lit =
     (let neg = lit \<noteq> [] \<and> hd lit = CHR ''-''; ds = (if neg then tl lit else lit)
      in if ds = [] \<or> \<not> list_all dec_digit ds then None
         else
           (let n = foldl (\<lambda>a c. a * 10 + int (digit_of c)) 0 ds; v = (if neg then - n else n)
            in if in_int64 v then Some v else None))"

section \<open>Plain texts\<close>

lemma unquote_Nil [simp]: "unquote [] = Some []"
  by (subst unquote.simps) simp

lemma unquote_plain:
  "c \<noteq> CHR 0x5C \<Longrightarrow> (of_char c :: nat) < 128 \<Longrightarrow> unquote (c # s) = map_option (Cons c) (unquote s)"
  by (subst unquote.simps, cases "unquote s") (simp_all add: decode_rune_def byte_at_def encode_rune_def)

text \<open>What evaluates the reader on a concrete ASCII text.\<close>

lemmas json_eval =
  lex.simps next_token_def HasPrefix_def json_space_def unquote_plain lex_number_def num_integer_def
  num_fraction_def num_exponent_def dec_digit_def json_step_def open_value_def maxNestingDepth_def

end
