(* ===== verification/Config.thy ===== *)
theory Config
  imports Go_JSON
begin

text \<open>
  \<^verbatim>\<open>config.go\<close>: the tunables, read from a JSON file over the built-in defaults and validated.
  Errors keep what the code prints of them as constructor arguments.
\<close>

section \<open>Data\<close>

record Config =
  BackoffMin :: duration
  BackoffMax :: duration
  KeepAliveInterval :: duration
  StreamOpenTimeout :: duration
  ReadHeaderTimeout :: duration
  IdleTimeout :: duration
  TunnelPath :: string
  MaxConcurrentStreams :: int
  MaxRequestBytes :: int
  MaxHeaderBytes :: int
  TunnelCN :: string
  AllowedPathPrefixes :: "string list"
  MaxStreamDuration :: duration
  MaxStreamsPerCert :: int

definition Second :: int where
  "Second = 1000000000"

definition DefaultConfig :: Config where
  "DefaultConfig =
     \<lparr>BackoffMin = duration_of Second, BackoffMax = duration_of (30 * Second),
      KeepAliveInterval = duration_of (30 * Second), StreamOpenTimeout = duration_of (120 * Second),
      ReadHeaderTimeout = duration_of (10 * Second), IdleTimeout = duration_of (120 * Second),
      TunnelPath = ''/_tunnel'', MaxConcurrentStreams = 256, MaxRequestBytes = push_bit 20 32,
      MaxHeaderBytes = push_bit 20 1, TunnelCN = [], AllowedPathPrefixes = [],
      MaxStreamDuration = 0, MaxStreamsPerCert = 0\<rparr>"

record configJSON =
  raw_BackoffMin :: "string option"
  raw_BackoffMax :: "string option"
  raw_KeepAliveInterval :: "string option"
  raw_StreamOpenTimeout :: "string option"
  raw_ReadHeaderTimeout :: "string option"
  raw_IdleTimeout :: "string option"
  raw_TunnelPath :: "string option"
  raw_MaxConcurrentStreams :: "int option"
  raw_MaxRequestBytes :: "int option"
  raw_MaxHeaderBytes :: "int option"
  raw_TunnelCN :: "string option"
  raw_AllowedPathPrefixes :: "string list option"
  raw_MaxStreamDuration :: "string option"
  raw_MaxStreamsPerCert :: "int option"

definition empty_raw :: configJSON where
  "empty_raw =
     \<lparr>raw_BackoffMin = None, raw_BackoffMax = None, raw_KeepAliveInterval = None,
      raw_StreamOpenTimeout = None, raw_ReadHeaderTimeout = None, raw_IdleTimeout = None,
      raw_TunnelPath = None, raw_MaxConcurrentStreams = None, raw_MaxRequestBytes = None,
      raw_MaxHeaderBytes = None, raw_TunnelCN = None, raw_AllowedPathPrefixes = None,
      raw_MaxStreamDuration = None, raw_MaxStreamsPerCert = None\<rparr>"

section \<open>Decoding into configJSON\<close>

datatype json_error =
    SyntaxError
  | UnknownField string
  | UnmarshalTypeError string     \<comment> \<open>the field, empty for the whole value\<close>

text \<open>
  A pointer field: \<open>null\<close> sets it to nil, a value of its type to that value, another is an
  error. A \<open>null\<close> inside the array leaves the element as it was, the empty string unless the
  key came before.
\<close>

definition str_ptr :: "string \<Rightarrow> json \<Rightarrow> (json_error, string option) result" where
  "str_ptr name v =
     (case v of JNull \<Rightarrow> Inr None | JStr s \<Rightarrow> Inr (Some s) | _ \<Rightarrow> Inl (UnmarshalTypeError name))"

definition int_ptr :: "string \<Rightarrow> json \<Rightarrow> (json_error, int option) result" where
  "int_ptr name v =
     (case v of
        JNull \<Rightarrow> Inr None
      | JNum lit \<Rightarrow>
          (case ParseInt lit of None \<Rightarrow> Inl (UnmarshalTypeError name) | Some i \<Rightarrow> Inr (Some i))
      | _ \<Rightarrow> Inl (UnmarshalTypeError name))"

fun str_elems :: "string \<Rightarrow> string list \<Rightarrow> json list \<Rightarrow> (json_error, string list) result" where
  "str_elems name old [] = Inr []"
| "str_elems name old (v # vs) =
     (case v of
        JStr s \<Rightarrow> and_then (str_elems name (tl old) vs) (\<lambda>ss. Inr (s # ss))
      | JNull \<Rightarrow>
          and_then (str_elems name (tl old) vs) (\<lambda>ss. Inr ((if old = [] then [] else hd old) # ss))
      | _ \<Rightarrow> Inl (UnmarshalTypeError name))"

definition strs_ptr :: "string \<Rightarrow> string list option \<Rightarrow> json \<Rightarrow> (json_error, string list option) result" where
  "strs_ptr name old v =
     (case v of
        JNull \<Rightarrow> Inr None
      | JArr vs \<Rightarrow>
          and_then (str_elems name (case old of None \<Rightarrow> [] | Some ss \<Rightarrow> ss) vs) (\<lambda>ss. Inr (Some ss))
      | _ \<Rightarrow> Inl (UnmarshalTypeError name))"

definition config_keys :: "string list" where
  "config_keys =
     [''backoff-min'', ''backoff-max'', ''keepalive-interval'', ''stream-open-timeout'',
      ''read-header-timeout'', ''idle-timeout'', ''tunnel-path'', ''max-concurrent-streams'',
      ''max-request-bytes'', ''max-header-bytes'', ''tunnel-cn'', ''allowed-path-prefixes'',
      ''max-stream-duration'', ''max-streams-per-cert'']"

definition set_field :: "string \<Rightarrow> json \<Rightarrow> configJSON \<Rightarrow> (json_error, configJSON) result" where
  "set_field name v raw =
     (if name = ''backoff-min'' then and_then (str_ptr name v) (\<lambda>x. Inr (raw\<lparr>raw_BackoffMin := x\<rparr>))
      else if name = ''backoff-max'' then and_then (str_ptr name v) (\<lambda>x. Inr (raw\<lparr>raw_BackoffMax := x\<rparr>))
      else if name = ''keepalive-interval'' then
        and_then (str_ptr name v) (\<lambda>x. Inr (raw\<lparr>raw_KeepAliveInterval := x\<rparr>))
      else if name = ''stream-open-timeout'' then
        and_then (str_ptr name v) (\<lambda>x. Inr (raw\<lparr>raw_StreamOpenTimeout := x\<rparr>))
      else if name = ''read-header-timeout'' then
        and_then (str_ptr name v) (\<lambda>x. Inr (raw\<lparr>raw_ReadHeaderTimeout := x\<rparr>))
      else if name = ''idle-timeout'' then and_then (str_ptr name v) (\<lambda>x. Inr (raw\<lparr>raw_IdleTimeout := x\<rparr>))
      else if name = ''tunnel-path'' then and_then (str_ptr name v) (\<lambda>x. Inr (raw\<lparr>raw_TunnelPath := x\<rparr>))
      else if name = ''max-concurrent-streams'' then
        and_then (int_ptr name v) (\<lambda>x. Inr (raw\<lparr>raw_MaxConcurrentStreams := x\<rparr>))
      else if name = ''max-request-bytes'' then
        and_then (int_ptr name v) (\<lambda>x. Inr (raw\<lparr>raw_MaxRequestBytes := x\<rparr>))
      else if name = ''max-header-bytes'' then
        and_then (int_ptr name v) (\<lambda>x. Inr (raw\<lparr>raw_MaxHeaderBytes := x\<rparr>))
      else if name = ''tunnel-cn'' then and_then (str_ptr name v) (\<lambda>x. Inr (raw\<lparr>raw_TunnelCN := x\<rparr>))
      else if name = ''allowed-path-prefixes'' then
        and_then (strs_ptr name (raw_AllowedPathPrefixes raw) v)
          (\<lambda>x. Inr (raw\<lparr>raw_AllowedPathPrefixes := x\<rparr>))
      else if name = ''max-stream-duration'' then
        and_then (str_ptr name v) (\<lambda>x. Inr (raw\<lparr>raw_MaxStreamDuration := x\<rparr>))
      else and_then (int_ptr name v) (\<lambda>x. Inr (raw\<lparr>raw_MaxStreamsPerCert := x\<rparr>)))"

text \<open>
  \<open>Decode\<close> with \<open>DisallowUnknownFields\<close>: the first error is what it returns; it decodes on
  behind one, which no caller sees.
\<close>

fun decode_members :: "(string \<times> json) list \<Rightarrow> configJSON \<Rightarrow> (json_error, configJSON) result" where
  "decode_members [] raw = Inr raw"
| "decode_members ((key, v) # kvs) raw =
     (case field_for config_keys key of
        None \<Rightarrow> Inl (UnknownField key)
      | Some name \<Rightarrow> and_then (set_field name v raw) (decode_members kvs))"

definition Decode :: "json \<Rightarrow> (json_error, configJSON) result" where
  "Decode v =
     (case v of
        JNull \<Rightarrow> Inr empty_raw
      | JObj kvs \<Rightarrow> decode_members kvs empty_raw
      | _ \<Rightarrow> Inl (UnmarshalTypeError []))"

section \<open>UnmarshalJSON\<close>

text \<open>A row of the table: the name, the text, and the field it points to (read and write).\<close>

record durationField =
  df_name :: string
  df_text :: "string option"
  df_get :: "Config \<Rightarrow> duration"
  df_set :: "duration \<Rightarrow> Config \<Rightarrow> Config"

definition durationFields :: "configJSON \<Rightarrow> durationField list" where
  "durationFields raw =
     [\<lparr>df_name = ''backoff-min'', df_text = raw_BackoffMin raw, df_get = BackoffMin,
       df_set = (\<lambda>d c. c\<lparr>BackoffMin := d\<rparr>)\<rparr>,
      \<lparr>df_name = ''backoff-max'', df_text = raw_BackoffMax raw, df_get = BackoffMax,
       df_set = (\<lambda>d c. c\<lparr>BackoffMax := d\<rparr>)\<rparr>,
      \<lparr>df_name = ''keepalive-interval'', df_text = raw_KeepAliveInterval raw, df_get = KeepAliveInterval,
       df_set = (\<lambda>d c. c\<lparr>KeepAliveInterval := d\<rparr>)\<rparr>,
      \<lparr>df_name = ''stream-open-timeout'', df_text = raw_StreamOpenTimeout raw, df_get = StreamOpenTimeout,
       df_set = (\<lambda>d c. c\<lparr>StreamOpenTimeout := d\<rparr>)\<rparr>,
      \<lparr>df_name = ''read-header-timeout'', df_text = raw_ReadHeaderTimeout raw, df_get = ReadHeaderTimeout,
       df_set = (\<lambda>d c. c\<lparr>ReadHeaderTimeout := d\<rparr>)\<rparr>,
      \<lparr>df_name = ''idle-timeout'', df_text = raw_IdleTimeout raw, df_get = IdleTimeout,
       df_set = (\<lambda>d c. c\<lparr>IdleTimeout := d\<rparr>)\<rparr>]"

datatype parse_error =
    JSONError json_error
  | DurationError string duration_error

type_synonym float_part = "nat \<Rightarrow> nat \<Rightarrow> nat \<Rightarrow> nat"

fun set_durations :: "float_part \<Rightarrow> durationField list \<Rightarrow> Config \<Rightarrow> (parse_error, Config) result" where
  "set_durations frac [] c = Inr c"
| "set_durations frac (f # rows) c =
     (case df_text f of
        None \<Rightarrow> set_durations frac rows c
      | Some text \<Rightarrow>
          (case ParseDuration frac text of
             Inl err \<Rightarrow> Inl (DurationError (df_name f) err)
           | Inr d \<Rightarrow> set_durations frac rows (df_set f d c)))"

definition or_keep :: "'a option \<Rightarrow> 'a \<Rightarrow> 'a" where
  "or_keep p old = (case p of None \<Rightarrow> old | Some x \<Rightarrow> x)"

definition set_stream_duration ::
  "float_part \<Rightarrow> configJSON \<Rightarrow> Config \<Rightarrow> (parse_error, Config) result"
where
  "set_stream_duration frac raw c =
     (case raw_MaxStreamDuration raw of
        None \<Rightarrow> Inr c
      | Some text \<Rightarrow>
          (case ParseDuration frac text of
             Inl err \<Rightarrow> Inl (DurationError ''max-stream-duration'' err)
           | Inr d \<Rightarrow> Inr (c\<lparr>MaxStreamDuration := d\<rparr>)))"

definition layer :: "float_part \<Rightarrow> configJSON \<Rightarrow> Config \<Rightarrow> (parse_error, Config) result" where
  "layer frac raw c =
     and_then (set_durations frac (durationFields raw) c) (\<lambda>c1.
     and_then (set_stream_duration frac raw
       (c1\<lparr>TunnelPath := or_keep (raw_TunnelPath raw) (TunnelPath c1),
           MaxConcurrentStreams := or_keep (raw_MaxConcurrentStreams raw) (MaxConcurrentStreams c1),
           MaxRequestBytes := or_keep (raw_MaxRequestBytes raw) (MaxRequestBytes c1),
           MaxHeaderBytes := or_keep (raw_MaxHeaderBytes raw) (MaxHeaderBytes c1),
           TunnelCN := or_keep (raw_TunnelCN raw) (TunnelCN c1),
           AllowedPathPrefixes := or_keep (raw_AllowedPathPrefixes raw) (AllowedPathPrefixes c1)\<rparr>)) (\<lambda>c2.
     Inr (c2\<lparr>MaxStreamsPerCert := or_keep (raw_MaxStreamsPerCert raw) (MaxStreamsPerCert c2)\<rparr>)))"

definition UnmarshalJSON :: "float_part \<Rightarrow> string \<Rightarrow> Config \<Rightarrow> (parse_error, Config) result" where
  "UnmarshalJSON frac b c =
     (case json_parse b of
        None \<Rightarrow> Inl (JSONError SyntaxError)
      | Some v \<Rightarrow> (case Decode v of Inl err \<Rightarrow> Inl (JSONError err) | Inr raw \<Rightarrow> layer frac raw c))"

section \<open>validate\<close>

datatype validate_error =
    NotPositive string int
  | InvertedBackoff duration duration
  | BadTunnelPath string
  | Negative string int
  | BadPrefix string

definition first_error :: "('a \<Rightarrow> 'e option) \<Rightarrow> 'a list \<Rightarrow> 'e option" where
  "first_error check xs = (case List.map_filter check xs of [] \<Rightarrow> None | e # es \<Rightarrow> Some e)"

definition positive_limits :: "Config \<Rightarrow> (string \<times> int) list" where
  "positive_limits c =
     [(''max-concurrent-streams'', MaxConcurrentStreams c), (''max-request-bytes'', MaxRequestBytes c),
      (''max-header-bytes'', MaxHeaderBytes c)]"

definition validate :: "Config \<Rightarrow> validate_error option" where
  "validate c =
     (case first_error
         (\<lambda>f. if df_get f c \<le>s 0 then Some (NotPositive (df_name f) (sint (df_get f c))) else None)
         (durationFields empty_raw) of
        Some e \<Rightarrow> Some e
      | None \<Rightarrow>
          if BackoffMax c <s BackoffMin c then Some (InvertedBackoff (BackoffMin c) (BackoffMax c))
          else if \<not> HasPrefix (TunnelPath c) ''/'' then Some (BadTunnelPath (TunnelPath c))
          else
            (case first_error (\<lambda>(name, v). if v \<le> 0 then Some (NotPositive name v) else None)
                (positive_limits c) of
               Some e \<Rightarrow> Some e
             | None \<Rightarrow>
                 if MaxStreamDuration c <s 0
                 then Some (Negative ''max-stream-duration'' (sint (MaxStreamDuration c)))
                 else if MaxStreamsPerCert c < 0
                 then Some (Negative ''max-streams-per-cert'' (MaxStreamsPerCert c))
                 else first_error (\<lambda>p. if \<not> HasPrefix p ''/'' then Some (BadPrefix p) else None)
                        (AllowedPathPrefixes c)))"

datatype config_error =
    ReadConfig string
  | ParseConfig string parse_error
  | BadConfig string validate_error

definition LoadConfig ::
  "float_part \<Rightarrow> (string \<Rightarrow> (string, string) result) \<Rightarrow> string \<Rightarrow> (config_error, Config) result"
where
  "LoadConfig frac ReadFile path =
     (if path = [] then Inr DefaultConfig
      else
        case ReadFile path of
          Inl err \<Rightarrow> Inl (ReadConfig err)
        | Inr b \<Rightarrow>
            (case UnmarshalJSON frac b DefaultConfig of
               Inl err \<Rightarrow> Inl (ParseConfig path err)
             | Inr c \<Rightarrow>
                 (case validate c of Some err \<Rightarrow> Inl (BadConfig path err) | None \<Rightarrow> Inr c)))"

section \<open>The table of durations\<close>

text \<open>Each row writes the field it reads, and no other row's.\<close>

fun separate_rows :: "durationField list \<Rightarrow> bool" where
  "separate_rows [] = True"
| "separate_rows (f # rows) =
     ((\<forall>d c. df_get f (df_set f d c) = d) \<and>
      (\<forall>f'\<in>set rows. \<forall>d c. df_get f (df_set f' d c) = df_get f c \<and> df_get f' (df_set f d c) = df_get f' c) \<and>
      separate_rows rows)"

definition row_done :: "float_part \<Rightarrow> durationField \<Rightarrow> Config \<Rightarrow> Config \<Rightarrow> bool" where
  "row_done frac f c c' \<longleftrightarrow>
     (case df_text f of
        None \<Rightarrow> df_get f c' = df_get f c
      | Some t \<Rightarrow> ParseDuration frac t = Inr (df_get f c'))"

lemma set_durations_keep:
  "set_durations frac rows c = Inr c' \<Longrightarrow> \<forall>f\<in>set rows. \<forall>d c. g (df_set f d c) = g c \<Longrightarrow> g c' = g c"
  by (induction frac rows c rule: set_durations.induct) (auto split: option.splits sum.splits)

lemma set_durations_done:
  "separate_rows rows \<Longrightarrow> set_durations frac rows c = Inr c' \<Longrightarrow> \<forall>f\<in>set rows. row_done frac f c c'"
proof (induction frac rows c rule: set_durations.induct)
  case (2 frac f rows c)
  have sep: "separate_rows rows" "df_get f (df_set f d x) = d" for d x using "2.prems"(1) by simp_all
  have mine: "df_get f c' = df_get f c1" if "set_durations frac rows c1 = Inr c'" for c1
    using set_durations_keep [OF that, of "df_get f"] "2.prems"(1) by simp
  show ?case
  proof (cases "df_text f")
    case None
    then have run: "set_durations frac rows c = Inr c'" using "2.prems"(2) by simp
    then show ?thesis using "2.IH"(1) [OF None sep(1) run] mine [OF run] None by (simp add: row_done_def)
  next
    case (Some t)
    then obtain d where d: "ParseDuration frac t = Inr d" and run: "set_durations frac rows (df_set f d c) = Inr c'"
      using "2.prems"(2) by (auto split: sum.splits)
    have "\<forall>f'\<in>set rows. row_done frac f' (df_set f d c) c'"
      by (rule "2.IH"(2) [OF Some d sep(1) run])
    then have "\<forall>f'\<in>set rows. row_done frac f' c c'"
      using "2.prems"(1) by (simp add: row_done_def cong: option.case_cong)
    then show ?thesis using mine [OF run] Some d sep(2) by (simp add: row_done_def)
  qed
qed simp

lemma durationFields_separate: "separate_rows (durationFields raw)"
  by (simp add: durationFields_def)

lemma durationFields_only:
  "\<forall>f\<in>set (durationFields raw). \<forall>d c. TunnelPath (df_set f d c) = TunnelPath c \<and>
     MaxConcurrentStreams (df_set f d c) = MaxConcurrentStreams c \<and> MaxRequestBytes (df_set f d c) = MaxRequestBytes c \<and>
     MaxHeaderBytes (df_set f d c) = MaxHeaderBytes c \<and> TunnelCN (df_set f d c) = TunnelCN c \<and>
     AllowedPathPrefixes (df_set f d c) = AllowedPathPrefixes c \<and> MaxStreamDuration (df_set f d c) = MaxStreamDuration c \<and>
     MaxStreamsPerCert (df_set f d c) = MaxStreamsPerCert c"
  by (simp add: durationFields_def)

section \<open>What validate admits\<close>

definition config_ok :: "Config \<Rightarrow> bool" where
  "config_ok c \<longleftrightarrow>
     0 < sint (BackoffMin c) \<and> sint (BackoffMin c) \<le> sint (BackoffMax c) \<and> 0 < sint (KeepAliveInterval c) \<and>
     0 < sint (StreamOpenTimeout c) \<and> 0 < sint (ReadHeaderTimeout c) \<and> 0 < sint (IdleTimeout c) \<and>
     HasPrefix (TunnelPath c) ''/'' \<and> 0 < MaxConcurrentStreams c \<and> 0 < MaxRequestBytes c \<and>
     0 < MaxHeaderBytes c \<and> 0 \<le> sint (MaxStreamDuration c) \<and> 0 \<le> MaxStreamsPerCert c \<and>
     list_all (\<lambda>p. HasPrefix p ''/'') (AllowedPathPrefixes c)"

lemma first_error_None: "first_error check xs = None \<longleftrightarrow> list_all (\<lambda>x. check x = None) xs"
proof -
  have "List.map_filter check xs = [] \<longleftrightarrow> list_all (\<lambda>x. check x = None) xs"
    by (induction xs) (auto simp: List.map_filter_simps split: option.splits)
  then show ?thesis by (cases "List.map_filter check xs") (simp_all add: first_error_def)
qed

lemma validate_None: "validate c = None \<longleftrightarrow> config_ok c"
proof -
  have durations: "first_error
       (\<lambda>f. if df_get f c \<le>s 0 then Some (NotPositive (df_name f) (sint (df_get f c))) else None)
       (durationFields empty_raw) = None \<longleftrightarrow>
     0 < sint (BackoffMin c) \<and> 0 < sint (BackoffMax c) \<and> 0 < sint (KeepAliveInterval c) \<and>
     0 < sint (StreamOpenTimeout c) \<and> 0 < sint (ReadHeaderTimeout c) \<and> 0 < sint (IdleTimeout c)"
    unfolding first_error_None by (auto simp: durationFields_def word_sle_eq)
  have limits: "first_error (\<lambda>(name, v). if v \<le> 0 then Some (NotPositive name v) else None) (positive_limits c) = None
      \<longleftrightarrow> 0 < MaxConcurrentStreams c \<and> 0 < MaxRequestBytes c \<and> 0 < MaxHeaderBytes c"
    unfolding first_error_None by (auto simp: positive_limits_def)
  have prefixes: "first_error (\<lambda>p. if \<not> HasPrefix p ''/'' then Some (BadPrefix p) else None) (AllowedPathPrefixes c) = None
      \<longleftrightarrow> list_all (\<lambda>p. HasPrefix p ''/'') (AllowedPathPrefixes c)"
    unfolding first_error_None by (simp add: list_all_iff)
  show ?thesis
    using durations limits prefixes
    by (auto simp: validate_def config_ok_def word_sless_alt split: option.split)
qed

lemma default_ok: "config_ok DefaultConfig"
  by (simp add: config_ok_def DefaultConfig_def Second_def duration_of_def sint_of_int_range in_int64_def HasPrefix_def)

section \<open>Properties\<close>

text \<open>
  C31. Every configuration the program runs with, the default or one from a file, satisfies all
  bounds: positive durations and limits, an ordered backoff range, a rooted tunnel path and
  rooted allowlist entries. \<open>validate\<close> accepts exactly the configurations that do.
\<close>

theorem loaded_config_is_valid:
  "(case LoadConfig frac ReadFile p of Inl err \<Rightarrow> p \<noteq> [] | Inr c \<Rightarrow> config_ok c) \<and>
   (validate c' = None \<longleftrightarrow> config_ok c')"
  using default_ok validate_None by (simp add: LoadConfig_def split: sum.splits option.splits)

text \<open>
  Keys are layered over what the configuration held: each of the seven durations keeps its
  value when its key is absent, else is what its own text parses to, and each other field keeps
  its value or takes the one given; no key lands in another field.
\<close>

theorem keys_layer_over_the_config:
  "case layer frac raw c of
     Inl err \<Rightarrow> (\<exists>name e. err = DurationError name e)
   | Inr c' \<Rightarrow>
       list_all (\<lambda>(text, get). case text of None \<Rightarrow> get c' = get c | Some t \<Rightarrow> ParseDuration frac t = Inr (get c'))
         [(raw_BackoffMin raw, BackoffMin), (raw_BackoffMax raw, BackoffMax),
          (raw_KeepAliveInterval raw, KeepAliveInterval), (raw_StreamOpenTimeout raw, StreamOpenTimeout),
          (raw_ReadHeaderTimeout raw, ReadHeaderTimeout), (raw_IdleTimeout raw, IdleTimeout),
          (raw_MaxStreamDuration raw, MaxStreamDuration)] \<and>
       TunnelPath c' = or_keep (raw_TunnelPath raw) (TunnelPath c) \<and>
       MaxConcurrentStreams c' = or_keep (raw_MaxConcurrentStreams raw) (MaxConcurrentStreams c) \<and>
       MaxRequestBytes c' = or_keep (raw_MaxRequestBytes raw) (MaxRequestBytes c) \<and>
       MaxHeaderBytes c' = or_keep (raw_MaxHeaderBytes raw) (MaxHeaderBytes c) \<and>
       TunnelCN c' = or_keep (raw_TunnelCN raw) (TunnelCN c) \<and>
       AllowedPathPrefixes c' = or_keep (raw_AllowedPathPrefixes raw) (AllowedPathPrefixes c) \<and>
       MaxStreamsPerCert c' = or_keep (raw_MaxStreamsPerCert raw) (MaxStreamsPerCert c)"
proof (cases "set_durations frac (durationFields raw) c")
  case (Inl err)
  have "\<exists>name e. err = DurationError name e" if "set_durations frac rows c = Inl err" for rows
    using that by (induction frac rows c rule: set_durations.induct) (auto split: option.splits sum.splits)
  then show ?thesis using Inl by (simp add: layer_def)
next
  case (Inr c1)
  have rows: "\<forall>f\<in>set (durationFields raw). row_done frac f c c1"
    by (rule set_durations_done [OF durationFields_separate Inr])
  have same: "TunnelPath c1 = TunnelPath c" "MaxConcurrentStreams c1 = MaxConcurrentStreams c"
    "MaxRequestBytes c1 = MaxRequestBytes c" "MaxHeaderBytes c1 = MaxHeaderBytes c" "TunnelCN c1 = TunnelCN c"
    "AllowedPathPrefixes c1 = AllowedPathPrefixes c" "MaxStreamDuration c1 = MaxStreamDuration c"
    "MaxStreamsPerCert c1 = MaxStreamsPerCert c"
    using durationFields_only [of raw] by (simp_all add: set_durations_keep [OF Inr])
  have rows': "case raw_BackoffMin raw of None \<Rightarrow> BackoffMin c1 = BackoffMin c | Some t \<Rightarrow> ParseDuration frac t = Inr (BackoffMin c1)"
    "case raw_BackoffMax raw of None \<Rightarrow> BackoffMax c1 = BackoffMax c | Some t \<Rightarrow> ParseDuration frac t = Inr (BackoffMax c1)"
    "case raw_KeepAliveInterval raw of None \<Rightarrow> KeepAliveInterval c1 = KeepAliveInterval c | Some t \<Rightarrow> ParseDuration frac t = Inr (KeepAliveInterval c1)"
    "case raw_StreamOpenTimeout raw of None \<Rightarrow> StreamOpenTimeout c1 = StreamOpenTimeout c | Some t \<Rightarrow> ParseDuration frac t = Inr (StreamOpenTimeout c1)"
    "case raw_ReadHeaderTimeout raw of None \<Rightarrow> ReadHeaderTimeout c1 = ReadHeaderTimeout c | Some t \<Rightarrow> ParseDuration frac t = Inr (ReadHeaderTimeout c1)"
    "case raw_IdleTimeout raw of None \<Rightarrow> IdleTimeout c1 = IdleTimeout c | Some t \<Rightarrow> ParseDuration frac t = Inr (IdleTimeout c1)"
    using rows by (simp_all add: durationFields_def row_done_def cong: option.case_cong)
  show ?thesis
  proof (cases "raw_MaxStreamDuration raw")
    case None
    then show ?thesis using rows' same
      by (simp add: layer_def Inr set_stream_duration_def cong: option.case_cong)
  next
    case (Some t)
    then show ?thesis using rows' same
      by (cases "ParseDuration frac t")
        (simp_all add: layer_def Inr set_stream_duration_def cong: option.case_cong)
  qed
qed

lemma decode_members_known:
  "decode_members kvs raw = Inr raw' \<Longrightarrow> list_all (\<lambda>(k, v). field_for config_keys k \<noteq> None) kvs"
  by (induction kvs raw rule: decode_members.induct) (auto simp: and_then_Inr split: option.splits)

lemma layer_empty: "layer frac empty_raw c = Inr c"
  by (simp add: layer_def set_stream_duration_def durationFields_def empty_raw_def or_keep_def)

text \<open>
  Reading a file never drops a key silently: a text that is not JSON is a syntax error, a
  value that is not an object is a type error (\<open>null\<close> changes nothing), and when an object is
  read, each of its keys names a field of the configuration, exactly or up to letter case.
\<close>

theorem no_key_is_dropped:
  "case json_parse b of
     None \<Rightarrow> UnmarshalJSON frac b c = Inl (JSONError SyntaxError)
   | Some JNull \<Rightarrow> UnmarshalJSON frac b c = Inr c
   | Some (JObj kvs) \<Rightarrow>
       (case UnmarshalJSON frac b c of
          Inl err \<Rightarrow> True
        | Inr c' \<Rightarrow> list_all (\<lambda>(k, v). case field_for config_keys k of None \<Rightarrow> False
            | Some name \<Rightarrow> name \<in> set config_keys \<and> foldName name = foldName k) kvs)
   | Some _ \<Rightarrow> UnmarshalJSON frac b c = Inl (JSONError (UnmarshalTypeError []))"
proof (cases "json_parse b")
  case (Some v)
  have found: "case field_for config_keys k of None \<Rightarrow> False
      | Some name \<Rightarrow> name \<in> set config_keys \<and> foldName name = foldName k"
    if "field_for config_keys k \<noteq> None" for k
  proof (cases "k \<in> set config_keys")
    case False
    with that obtain n where n: "find (\<lambda>n. foldName n = foldName k) config_keys = Some n"
      by (auto simp: field_for_def)
    then have "n \<in> set config_keys \<and> foldName n = foldName k" by (auto simp: find_Some_iff)
    with n False show ?thesis by (simp add: field_for_def)
  qed (simp add: field_for_def)
  show ?thesis
  proof (cases v)
    case (JObj kvs)
    have "list_all (\<lambda>(k, v). case field_for config_keys k of None \<Rightarrow> False
        | Some name \<Rightarrow> name \<in> set config_keys \<and> foldName name = foldName k) kvs"
      if "decode_members kvs empty_raw = Inr raw" for raw
      by (rule list.pred_mono_strong [OF decode_members_known [OF that]]) (clarify, rule found, simp)
    then show ?thesis using Some JObj
      by (cases "decode_members kvs empty_raw") (simp_all add: UnmarshalJSON_def Decode_def split: sum.split)
  qed (use Some in \<open>simp_all add: UnmarshalJSON_def Decode_def layer_empty\<close>)
qed (simp add: UnmarshalJSON_def)

end
