(* ===== verification/Path_Guard.thy ===== *)
theory Path_Guard
  imports Go_Strings
begin

text \<open>
  The two path checks of \<^verbatim>\<open>remote.go\<close> that both halves of the proxy run in front of
  opencode: \<^verbatim>\<open>pathIsNormalized\<close> (the path is a fixed point of Go's \<open>path.Clean\<close>) and
  \<^verbatim>\<open>pathAllowed\<close> (the allowlist). \<open>path.Clean\<close> is modelled as its byte loop; a segment
  level specification of a path and of how a server resolves it is given beside it.
\<close>

section \<open>path.Clean\<close>

text \<open>
  The loop's output buffer is kept in reverse, so that its last byte is the head. \<open>dd\<close> is the
  buffer length at which \<open>..\<close> stops going back.
\<close>

fun clean_backtrack :: "nat \<Rightarrow> string \<Rightarrow> string" where
  "clean_backtrack dd [] = []"
| "clean_backtrack dd (c # out) =
     (if dd < length out \<and> c \<noteq> CHR ''/'' then clean_backtrack dd out else out)"

definition clean_elem :: "bool \<Rightarrow> string \<Rightarrow> string \<Rightarrow> string" where
  "clean_elem rooted e out =
     rev e @ (if rooted \<and> length out \<noteq> 1 \<or> \<not> rooted \<and> out \<noteq> [] then CHR ''/'' # out else out)"

function clean_loop :: "bool \<Rightarrow> string \<Rightarrow> string \<Rightarrow> nat \<Rightarrow> string" where
  "clean_loop rooted [] out dd = out"
| "clean_loop rooted (c # cs) out dd =
     (if c = CHR ''/'' then clean_loop rooted cs out dd
      else if c = CHR ''.'' \<and> (cs = [] \<or> hd cs = CHR ''/'') then clean_loop rooted cs out dd
      else if c = CHR ''.'' \<and> hd cs = CHR ''.'' \<and> (tl cs = [] \<or> hd (tl cs) = CHR ''/'') then
        (if dd < length out then clean_loop rooted (tl cs) (clean_backtrack dd out) dd
         else if \<not> rooted then
           (let out' = ''..'' @ (if out \<noteq> [] then CHR ''/'' # out else out)
            in clean_loop rooted (tl cs) out' (length out'))
         else clean_loop rooted (tl cs) out dd)
      else clean_loop rooted (dropWhile (\<lambda>x. x \<noteq> CHR ''/'') (c # cs))
             (clean_elem rooted (takeWhile (\<lambda>x. x \<noteq> CHR ''/'') (c # cs)) out) dd)"
  by pat_completeness auto
termination
  by (relation "measure (\<lambda>(rooted, cs, out, dd). length cs)")
    (auto simp: dropWhile_length_le le_imp_less_Suc)

definition Clean :: "string \<Rightarrow> string" where
  "Clean p =
     (if p = [] then ''.''
      else
        let rooted = (hd p = CHR ''/'');
            out = (if rooted then clean_loop True (tl p) ''/'' 1 else clean_loop False p [] 0)
        in if out = [] then ''.'' else rev out)"

section \<open>The guards\<close>

definition pathIsNormalized :: "string \<Rightarrow> bool" where
  "pathIsNormalized p \<longleftrightarrow> p \<noteq> [] \<and> Clean p = p"

definition pathAllowed :: "string list \<Rightarrow> string \<Rightarrow> bool" where
  "pathAllowed allowed path =
     (if allowed = [] then True
      else list_ex (\<lambda>p. path = p \<or> HasPrefix path (TrimSuffix p ''/'' @ ''/'')) allowed)"

section \<open>Specification: segments and resolution\<close>

text \<open>
  A path read as the list of its non-empty segments, and the stack machine by which a server
  (or a file system) resolves them: \<open>.\<close> stays, \<open>..\<close> goes up.
\<close>

function segments :: "string \<Rightarrow> string list" where
  "segments [] = []"
| "segments (c # cs) =
     (if c = CHR ''/'' then segments cs
      else takeWhile (\<lambda>x. x \<noteq> CHR ''/'') (c # cs) #
           segments (dropWhile (\<lambda>x. x \<noteq> CHR ''/'') (c # cs)))"
  by pat_completeness auto
termination
  by (relation "measure length") (auto simp: dropWhile_length_le le_imp_less_Suc)

definition push_seg :: "bool \<Rightarrow> string list \<Rightarrow> string \<Rightarrow> string list" where
  "push_seg rooted st s =
     (if s = ''.'' then st
      else if s = ''..'' then
        (case st of [] \<Rightarrow> if rooted then [] else [''..'']
         | t # ts \<Rightarrow> if t = ''..'' then ''..'' # st else ts)
      else s # st)"

definition resolve :: "bool \<Rightarrow> string \<Rightarrow> string list" where
  "resolve rooted p = rev (foldl (push_seg rooted) [] (segments p))"

fun join_slash :: "string list \<Rightarrow> string" where
  "join_slash [] = []"
| "join_slash [s] = s"
| "join_slash (s # ss) = s @ CHR ''/'' # join_slash ss"

definition clean_seg :: "string \<Rightarrow> bool" where
  "clean_seg s \<longleftrightarrow> s \<noteq> [] \<and> CHR ''/'' \<notin> set s"

definition plain_seg :: "string \<Rightarrow> bool" where
  "plain_seg s \<longleftrightarrow> clean_seg s \<and> s \<noteq> ''.'' \<and> s \<noteq> ''..''"

definition Clean_spec :: "string \<Rightarrow> string" where
  "Clean_spec p =
     (if p \<noteq> [] \<and> hd p = CHR ''/'' then CHR ''/'' # join_slash (resolve True p)
      else if resolve False p = [] then ''.'' else join_slash (resolve False p))"

subsection \<open>Facts about segments\<close>

lemma segments_clean: "s \<in> set (segments p) \<Longrightarrow> clean_seg s"
  by (induction p rule: segments.induct)
    (auto simp: clean_seg_def split: if_splits dest: set_takeWhileD)

lemma segments_append_slash: "clean_seg s \<Longrightarrow> segments (s @ CHR ''/'' # t) = s # segments t"
  by (cases s) (auto simp: clean_seg_def takeWhile_append dropWhile_append)

lemma segments_single: "clean_seg s \<Longrightarrow> segments s = [s]"
proof (cases s)
  case (Cons a list)
  assume "clean_seg s"
  then have "\<forall>x\<in>set list. x \<noteq> CHR ''/''" and "a \<noteq> CHR ''/''"
    using Cons by (auto simp: clean_seg_def)
  then have t: "takeWhile (\<lambda>x. x \<noteq> CHR ''/'') list = list"
    and d: "dropWhile (\<lambda>x. x \<noteq> CHR ''/'') list = []"
    by (simp_all add: takeWhile_eq_all_conv)
  have "segments (dropWhile (\<lambda>x. x \<noteq> CHR ''/'') list) = []"
    by (simp only: d segments.simps)
  with Cons t \<open>a \<noteq> CHR ''/''\<close> show ?thesis by simp
qed (simp add: clean_seg_def)

lemma segments_join: "\<forall>s\<in>set ss. clean_seg s \<Longrightarrow> segments (join_slash ss) = ss"
  by (induction ss rule: join_slash.induct) (auto simp: segments_append_slash segments_single)

lemma join_slash_append:
  "ss \<noteq> [] \<Longrightarrow> join_slash (ss @ [s]) = join_slash ss @ CHR ''/'' # s"
  by (induction ss rule: join_slash.induct) auto

lemma join_slash_Nil_iff: "\<forall>s\<in>set ss. clean_seg s \<Longrightarrow> join_slash ss = [] \<longleftrightarrow> ss = []"
  by (cases ss rule: join_slash.cases) (auto simp: clean_seg_def)

lemma segments_rooted [simp]: "segments (CHR ''/'' # p) = segments p"
  by simp

lemma push_seg_dot: "push_seg rooted st ''.'' = st"
  by (simp add: push_seg_def)

lemma push_seg_clean:
  assumes "\<forall>s\<in>set st. clean_seg s" and "clean_seg s'"
  shows "\<forall>s\<in>set (push_seg rooted st s'). clean_seg s"
proof -
  have "clean_seg ''..''" by (simp add: clean_seg_def)
  with assms show ?thesis by (cases st) (simp_all add: push_seg_def)
qed

lemma push_seg_plain:
  assumes "\<forall>s\<in>set st. plain_seg s" and "clean_seg s'"
  shows "\<forall>s\<in>set (push_seg True st s'). plain_seg s"
proof -
  have "\<not> plain_seg ''..''" by (simp add: plain_seg_def)
  with assms show ?thesis by (cases st) (auto simp add: push_seg_def plain_seg_def)
qed

lemma foldl_push_clean:
  "\<forall>s\<in>set st. clean_seg s \<Longrightarrow> \<forall>s\<in>set ss. clean_seg s \<Longrightarrow>
   \<forall>s\<in>set (foldl (push_seg rooted) st ss). clean_seg s"
proof (induction ss arbitrary: st)
  case (Cons a ss)
  from Cons.prems have "\<forall>s\<in>set (push_seg rooted st a). clean_seg s"
    by (intro push_seg_clean) auto
  with Cons show ?case by simp
qed simp

lemma foldl_push_plain:
  "\<forall>s\<in>set st. plain_seg s \<Longrightarrow> \<forall>s\<in>set ss. clean_seg s \<Longrightarrow>
   \<forall>s\<in>set (foldl (push_seg True) st ss). plain_seg s"
proof (induction ss arbitrary: st)
  case (Cons a ss)
  from Cons.prems have "\<forall>s\<in>set (push_seg True st a). plain_seg s"
    by (intro push_seg_plain) auto
  with Cons show ?case by simp
qed simp

lemma foldl_push_id:
  "\<forall>s\<in>set ss. plain_seg s \<Longrightarrow> foldl (push_seg rooted) st ss = rev ss @ st"
  by (induction ss arbitrary: st) (auto simp: push_seg_def plain_seg_def)

lemma resolve_clean: "s \<in> set (resolve rooted p) \<Longrightarrow> clean_seg s"
  using foldl_push_clean [of "[]" "segments p" rooted]
  by (auto simp: resolve_def segments_clean)

lemma resolve_plain: "s \<in> set (resolve True p) \<Longrightarrow> plain_seg s"
  using foldl_push_plain [of "[]" "segments p"]
  by (auto simp: resolve_def segments_clean)

lemma resolve_id: "\<forall>s\<in>set (segments p). plain_seg s \<Longrightarrow> resolve rooted p = segments p"
  by (simp add: resolve_def foldl_push_id)

section \<open>The byte loop computes the specification\<close>

text \<open>The buffer that the segment stack \<open>st\<close> (top first) stands for, reversed as in the loop.\<close>

fun rbuf :: "bool \<Rightarrow> string list \<Rightarrow> string" where
  "rbuf rooted [] = (if rooted then ''/'' else [])"
| "rbuf rooted (s # st) =
     rev s @ (if st = [] then (if rooted then ''/'' else []) else CHR ''/'' # rbuf rooted st)"

definition clean_inv :: "bool \<Rightarrow> string list \<Rightarrow> nat \<Rightarrow> bool" where
  "clean_inv rooted st dd \<longleftrightarrow>
     (\<forall>s\<in>set st. clean_seg s) \<and> (rooted \<longrightarrow> ''..'' \<notin> set st) \<and>
     dd = length (rbuf rooted (dropWhile (\<lambda>s. s \<noteq> ''..'') st))"

lemma rbuf_length_gt: "st \<noteq> [] \<Longrightarrow> \<forall>s\<in>set st. clean_seg s \<Longrightarrow> of_bool rooted < length (rbuf rooted st)"
  by (cases st) (auto simp: clean_seg_def)

lemma rbuf_empty_iff: "\<forall>s\<in>set st. clean_seg s \<Longrightarrow> rbuf False st = [] \<longleftrightarrow> st = []"
  using rbuf_length_gt [of st False] by (cases st) auto

lemma rbuf_push: "\<forall>s\<in>set st. clean_seg s \<Longrightarrow> clean_elem rooted s (rbuf rooted st) = rbuf rooted (s # st)"
  using rbuf_length_gt [of st rooted] rbuf_empty_iff [of st]
  by (cases "st = []"; cases rooted) (auto simp: clean_elem_def)

lemma rbuf_dropWhile_le: "length (rbuf rooted (dropWhile P st)) \<le> length (rbuf rooted st)"
  by (induction st) (auto intro: le_trans)

lemma backtrack_to_slash:
  "CHR ''/'' \<notin> set xs \<Longrightarrow> dd \<le> length out \<Longrightarrow> clean_backtrack dd (xs @ CHR ''/'' # out) = out"
  by (induction xs) auto

lemma backtrack_to_mark:
  "CHR ''/'' \<notin> set xs \<Longrightarrow> xs \<noteq> [] \<Longrightarrow> clean_backtrack (length out) (xs @ out) = out"
proof (induction xs)
  case (Cons x xs)
  then show ?case by (cases xs) auto
qed simp

lemma backtrack_pop:
  assumes "clean_inv rooted (s # st) dd" and "s \<noteq> ''..''"
  shows "clean_backtrack dd (rbuf rooted (s # st)) = rbuf rooted st"
proof (cases "st = []")
  case True
  with assms have "dd = length (rbuf rooted [])" and "clean_seg s"
    by (simp_all add: clean_inv_def)
  then show ?thesis
    using True backtrack_to_mark [of "rev s" "rbuf rooted []"] by (simp add: clean_seg_def)
next
  case False
  from assms have "dd \<le> length (rbuf rooted st)" and "clean_seg s"
    by (simp_all add: clean_inv_def rbuf_dropWhile_le)
  then show ?thesis
    using False backtrack_to_slash [of "rev s" dd "rbuf rooted st"] by (simp add: clean_seg_def)
qed

text \<open>One path element of the loop is one step of the stack machine.\<close>

lemma clean_inv_push:
  "clean_inv rooted st dd \<Longrightarrow> plain_seg s \<Longrightarrow> clean_inv rooted (s # st) dd"
  by (auto simp: clean_inv_def plain_seg_def)

lemma clean_inv_pop:
  "clean_inv rooted (s # st) dd \<Longrightarrow> s \<noteq> ''..'' \<Longrightarrow> clean_inv rooted st dd"
  by (auto simp: clean_inv_def)

lemma clean_inv_dotdot:
  "clean_inv False st dd \<Longrightarrow> clean_inv False (''..'' # st) (length (rbuf False (''..'' # st)))"
  by (simp add: clean_inv_def clean_seg_def)

lemma clean_inv_below:
  assumes "clean_inv rooted st dd"
  shows "dd < length (rbuf rooted st) \<longleftrightarrow> (\<exists>s st'. st = s # st' \<and> s \<noteq> ''..'')"
proof (cases st)
  case (Cons s st')
  have "length (rbuf rooted (dropWhile (\<lambda>s. s \<noteq> ''..'') st')) \<le> length (rbuf rooted st')"
    by (rule rbuf_dropWhile_le)
  moreover have "length (rbuf rooted st') < length (rbuf rooted (s # st'))"
    using assms Cons by (cases st') (auto simp: clean_inv_def clean_seg_def)
  ultimately show ?thesis using assms Cons by (auto simp: clean_inv_def)
qed (use assms in \<open>simp add: clean_inv_def\<close>)

lemma first_segment_dot:
  "c \<noteq> CHR ''/'' \<Longrightarrow> takeWhile (\<lambda>x. x \<noteq> CHR ''/'') (c # cs) = ''.'' \<longleftrightarrow>
   c = CHR ''.'' \<and> (cs = [] \<or> hd cs = CHR ''/'')"
  by (cases cs) auto

lemma first_segment_dotdot:
  "c \<noteq> CHR ''/'' \<Longrightarrow> takeWhile (\<lambda>x. x \<noteq> CHR ''/'') (c # cs) = ''..'' \<longleftrightarrow>
   c = CHR ''.'' \<and> cs \<noteq> [] \<and> hd cs = CHR ''.'' \<and> (tl cs = [] \<or> hd (tl cs) = CHR ''/'')"
  by (cases cs; cases "tl cs") auto

lemma segments_drop_rest:
  "cs = [] \<or> hd cs = CHR ''/'' \<Longrightarrow> segments (dropWhile (\<lambda>x. x \<noteq> CHR ''/'') cs) = segments cs"
  by (cases cs) auto

lemma dropWhile_rest:
  "cs = [] \<or> hd cs = CHR ''/'' \<Longrightarrow> dropWhile (\<lambda>x. x \<noteq> CHR ''/'') cs = cs"
  by (cases cs) auto

lemma clean_loop_dotdot:
  assumes "clean_inv rooted st dd"
  shows "\<exists>st' dd'. clean_inv rooted st' dd' \<and> push_seg rooted st ''..'' = st' \<and>
    (if dd < length (rbuf rooted st) then clean_loop rooted cs (clean_backtrack dd (rbuf rooted st)) dd
     else if \<not> rooted then
       (let out' = ''..'' @ (if rbuf rooted st \<noteq> [] then CHR ''/'' # rbuf rooted st else rbuf rooted st)
        in clean_loop rooted cs out' (length out'))
     else clean_loop rooted cs (rbuf rooted st) dd) = clean_loop rooted cs (rbuf rooted st') dd'"
proof (cases "dd < length (rbuf rooted st)")
  case True
  then obtain s st' where st: "st = s # st'" "s \<noteq> ''..''"
    using clean_inv_below [OF assms] by blast
  have "clean_inv rooted st' dd" using clean_inv_pop assms st by blast
  moreover have "clean_backtrack dd (rbuf rooted st) = rbuf rooted st'"
    using backtrack_pop assms st by blast
  moreover have "push_seg rooted st ''..'' = st'" using st by (simp add: push_seg_def)
  ultimately show ?thesis using True by (intro exI [of _ st'] exI [of _ dd]) simp
next
  case False
  then have top: "\<And>s st'. st = s # st' \<Longrightarrow> s = ''..''"
    using clean_inv_below [OF assms] by blast
  show ?thesis
  proof (cases rooted)
    case True
    have "st = []"
    proof (cases st)
      case (Cons s st')
      then have "''..'' \<in> set st" using top [OF Cons] by simp
      then show ?thesis using assms True by (simp add: clean_inv_def)
    qed
    then show ?thesis using assms False True
      by (intro exI [of _ st] exI [of _ dd]) (simp add: push_seg_def)
  next
    case unrooted: False
    have "push_seg rooted st ''..'' = ''..'' # st"
      using top unrooted by (cases st) (auto simp: push_seg_def)
    moreover have "''..'' @ (if rbuf rooted st \<noteq> [] then CHR ''/'' # rbuf rooted st else rbuf rooted st) =
        rbuf rooted (''..'' # st)"
      using assms unrooted by (simp add: clean_inv_def rbuf_empty_iff)
    moreover have "clean_inv rooted (''..'' # st) (length (rbuf rooted (''..'' # st)))"
      using clean_inv_dotdot assms unrooted by simp
    ultimately show ?thesis using False unrooted
      by (intro exI [of _ "''..'' # st"] exI [of _ "length (rbuf rooted (''..'' # st))"]) (simp only: Let_def simp_thms if_False if_True)
  qed
qed

lemma clean_loop_stack:
  "clean_inv rooted st dd \<Longrightarrow>
   clean_loop rooted cs (rbuf rooted st) dd = rbuf rooted (foldl (push_seg rooted) st (segments cs))"
proof (induction cs arbitrary: st dd rule: segments.induct)
  case 1
  then show ?case by simp
next
  case (2 c cs)
  let ?seg = "takeWhile (\<lambda>x. x \<noteq> CHR ''/'') (c # cs)"
  let ?rest = "dropWhile (\<lambda>x. x \<noteq> CHR ''/'') (c # cs)"
  show ?case
  proof (cases "c = CHR ''/''")
    case True
    then show ?thesis using 2 by simp
  next
    case c: False
    then have segs: "segments (c # cs) = ?seg # segments ?rest" by simp
    note IH = "2.IH"(2) [OF c]
    consider (dot) "?seg = ''.''" | (dotdot) "?seg = ''..''" | (plain) "?seg \<noteq> ''.''" "?seg \<noteq> ''..''"
      by blast
    then show ?thesis
    proof cases
      case dot
      then have d: "c = CHR ''.''" "cs = [] \<or> hd cs = CHR ''/''" using first_segment_dot [OF c] by auto
      then have "?rest = cs" using dropWhile_rest by auto
      then have "clean_loop rooted (c # cs) (rbuf rooted st) dd = clean_loop rooted ?rest (rbuf rooted st) dd"
        using c d by simp
      then show ?thesis using IH [OF "2.prems"] segs dot by (simp only: foldl.simps push_seg_dot)
    next
      case dotdot
      then have d: "c = CHR ''.''" "cs \<noteq> []" "hd cs = CHR ''.''" "tl cs = [] \<or> hd (tl cs) = CHR ''/''"
        using first_segment_dotdot [OF c] by auto
      then have rest: "?rest = tl cs" using dropWhile_rest by (cases cs) auto
      obtain st' dd' where st': "clean_inv rooted st' dd'" "push_seg rooted st ''..'' = st'"
        and eq: "(if dd < length (rbuf rooted st) then clean_loop rooted (tl cs) (clean_backtrack dd (rbuf rooted st)) dd
     else if \<not> rooted then
       (let out' = ''..'' @ (if rbuf rooted st \<noteq> [] then CHR ''/'' # rbuf rooted st else rbuf rooted st)
        in clean_loop rooted (tl cs) out' (length out'))
     else clean_loop rooted (tl cs) (rbuf rooted st) dd) = clean_loop rooted (tl cs) (rbuf rooted st') dd'"
        using clean_loop_dotdot [OF "2.prems"] by blast
      have "clean_loop rooted (c # cs) (rbuf rooted st) dd = clean_loop rooted ?rest (rbuf rooted st') dd'"
        unfolding rest eq [symmetric] using c d by (simp add: Let_def)
      then show ?thesis using IH [OF st'(1)] segs dotdot st'(2) by (simp only: foldl.simps)
    next
      case plain
      have seg: "clean_seg ?seg" using segments_clean [of ?seg "c # cs"] segs by simp
      have "clean_loop rooted (c # cs) (rbuf rooted st) dd =
          clean_loop rooted ?rest (clean_elem rooted ?seg (rbuf rooted st)) dd"
        using c plain first_segment_dot [OF c] first_segment_dotdot [OF c]
        by (subst clean_loop.simps) auto
      also have "clean_elem rooted ?seg (rbuf rooted st) = rbuf rooted (?seg # st)"
        using "2.prems" by (intro rbuf_push) (simp add: clean_inv_def)
      finally show ?thesis
        using IH [OF clean_inv_push [OF "2.prems"], of ?seg] segs seg plain
        by (simp add: plain_seg_def push_seg_def)
    qed
  qed
qed

lemma rev_rbuf:
  "rev (rbuf rooted st) = (if rooted then ''/'' else []) @ join_slash (rev st)"
proof (induction st)
  case (Cons s st)
  then show ?case by (cases "st = []") (auto simp: join_slash_append)
qed simp

lemma clean_inv_start: "clean_inv rooted [] (of_bool rooted)"
  by (simp add: clean_inv_def)

lemma Clean_eq_spec: "Clean p = Clean_spec p"
proof (cases "p = []")
  case True
  then show ?thesis by (simp add: Clean_def Clean_spec_def resolve_def)
next
  case ne: False
  show ?thesis
  proof (cases "hd p = CHR ''/''")
    case True
    then obtain q where p: "p = CHR ''/'' # q" using ne by (cases p) auto
    have "clean_loop True q (rbuf True []) (of_bool True) =
        rbuf True (foldl (push_seg True) [] (segments q))"
      by (rule clean_loop_stack [OF clean_inv_start])
    then show ?thesis using p rev_rbuf [of True "foldl (push_seg True) [] (segments q)"]
      by (auto simp: Clean_def Clean_spec_def resolve_def Let_def)
  next
    case False
    have "clean_loop False p (rbuf False []) (of_bool False) =
        rbuf False (foldl (push_seg False) [] (segments p))"
      by (rule clean_loop_stack [OF clean_inv_start])
    moreover have "\<forall>s\<in>set (foldl (push_seg False) [] (segments p)). clean_seg s"
      by (rule foldl_push_clean) (auto simp: segments_clean)
    ultimately show ?thesis
      using ne False rev_rbuf [of False "foldl (push_seg False) [] (segments p)"]
        rbuf_empty_iff [of "foldl (push_seg False) [] (segments p)"]
      by (auto simp: Clean_def Clean_spec_def resolve_def Let_def)
  qed
qed

section \<open>What a normalized path is\<close>

lemma normalized_rooted_segments:
  assumes "pathIsNormalized (CHR ''/'' # q)"
  shows "\<forall>s\<in>set (segments q). plain_seg s" and "q = join_slash (segments q)"
proof -
  from assms have q: "q = join_slash (resolve True (CHR ''/'' # q))"
    by (simp add: pathIsNormalized_def Clean_eq_spec Clean_spec_def)
  have plain: "\<forall>s\<in>set (resolve True (CHR ''/'' # q)). plain_seg s"
    by (simp add: resolve_plain)
  then have "segments q = resolve True (CHR ''/'' # q)"
    using segments_join [of "resolve True (CHR ''/'' # q)"] q by (simp add: plain_seg_def)
  with q plain show "\<forall>s\<in>set (segments q). plain_seg s" and "q = join_slash (segments q)"
    by simp_all
qed

lemma normalized_rootedI:
  assumes "\<forall>s\<in>set ss. plain_seg s"
  shows "pathIsNormalized (CHR ''/'' # join_slash ss)"
proof -
  have segs: "segments (join_slash ss) = ss"
    using assms by (intro segments_join) (simp add: plain_seg_def)
  then have "resolve True (CHR ''/'' # join_slash ss) = ss"
    using assms resolve_id [of "CHR ''/'' # join_slash ss"] by simp
  then show ?thesis by (simp add: pathIsNormalized_def Clean_eq_spec Clean_spec_def)
qed

lemma normalized_rooted_iff:
  "pathIsNormalized (CHR ''/'' # q) \<longleftrightarrow> (\<exists>ss. q = join_slash ss \<and> (\<forall>s\<in>set ss. plain_seg s))"
  using normalized_rooted_segments normalized_rootedI by metis

lemma normalized_resolve:
  assumes "pathIsNormalized (CHR ''/'' # q)"
  shows "resolve True (CHR ''/'' # q) = segments q"
  using normalized_rooted_segments(1) [OF assms] resolve_id [of "CHR ''/'' # q"] by simp

section \<open>What the allowlist admits\<close>

lemma segments_append_mono: "prefix (segments a) (segments (a @ CHR ''/'' # b))"
proof (induction a rule: segments.induct)
  case (2 c cs)
  show ?case
  proof (cases "c = CHR ''/''")
    case False
    let ?P = "\<lambda>x. x \<noteq> CHR ''/''"
    have drop: "dropWhile ?P (c # cs @ CHR ''/'' # b) = dropWhile ?P (c # cs) @ CHR ''/'' # b"
      and take: "takeWhile ?P (c # cs @ CHR ''/'' # b) = takeWhile ?P (c # cs)"
      by (induction cs) (auto simp: False)
    have "prefix (segments (dropWhile ?P (c # cs))) (segments (dropWhile ?P (c # cs) @ CHR ''/'' # b))"
      using "2.IH"(2) [OF False] .
    then show ?thesis using False drop take by simp
  qed (use 2 in simp)
qed simp

lemma segments_snoc_slash: "segments (p @ ''/'') = segments p"
proof (induction p rule: segments.induct)
  case (2 c cs)
  show ?case
  proof (cases "c = CHR ''/''")
    case False
    let ?P = "\<lambda>x. x \<noteq> CHR ''/''"
    have drop: "dropWhile ?P (c # cs @ ''/'') = dropWhile ?P (c # cs) @ ''/''"
      and take: "takeWhile ?P (c # cs @ ''/'') = takeWhile ?P (c # cs)"
      by (induction cs) (auto simp: False)
    show ?thesis using "2.IH"(2) [OF False] False drop take by simp
  qed (use 2 in simp)
qed simp

lemma segments_TrimSuffix: "segments (TrimSuffix p ''/'') = segments p"
proof (cases "p \<noteq> [] \<and> last p = CHR ''/''")
  case True
  then have "p = butlast p @ ''/''" by (metis append_butlast_last_id)
  then have "segments p = segments (butlast p)" using segments_snoc_slash by metis
  then show ?thesis using True by (simp add: TrimSuffix_single)
qed (auto simp: TrimSuffix_single)

lemma allowed_under_prefix:
  assumes "pathAllowed ps path" and "ps \<noteq> []"
  shows "\<exists>p\<in>set ps. prefix (segments p) (segments path)"
proof -
  from assms obtain p where p: "p \<in> set ps"
    and "path = p \<or> HasPrefix path (TrimSuffix p ''/'' @ ''/'')"
    by (auto simp: pathAllowed_def list_ex_iff)
  then consider "path = p" | t where "path = TrimSuffix p ''/'' @ CHR ''/'' # t"
    by (auto elim: HasPrefixE)
  then have "prefix (segments p) (segments path)"
  proof cases
    case 2
    then show ?thesis using segments_append_mono [of "TrimSuffix p ''/''" t]
      by (simp add: segments_TrimSuffix)
  qed simp
  with p show ?thesis by blast
qed

lemma allowed_rooted:
  assumes "pathAllowed ps path" and "ps \<noteq> []" and "\<forall>p\<in>set ps. HasPrefix p ''/''"
  shows "\<exists>q. path = CHR ''/'' # q"
proof -
  from assms obtain p where p: "p \<in> set ps" "HasPrefix p ''/''"
    and or: "path = p \<or> HasPrefix path (TrimSuffix p ''/'' @ ''/'')"
    by (auto simp: pathAllowed_def list_ex_iff)
  from p(2) obtain t where t: "p = CHR ''/'' # t" by (auto elim: HasPrefixE)
  from or show ?thesis
  proof
    assume "HasPrefix path (TrimSuffix p ''/'' @ ''/'')"
    moreover have "\<exists>u. TrimSuffix p ''/'' @ ''/'' = CHR ''/'' # u"
      using t by (auto simp: TrimSuffix_single)
    ultimately show ?thesis by (metis HasPrefixE append_Cons)
  qed (use t in blast)
qed

lemma join_slash_append_lists:
  "a \<noteq> [] \<Longrightarrow> b \<noteq> [] \<Longrightarrow> join_slash (a @ b) = join_slash a @ CHR ''/'' # join_slash b"
proof (induction a rule: join_slash.induct)
  case (2 s)
  then show ?case by (cases b) auto
qed auto

lemma last_join_slash:
  assumes "ss \<noteq> []" and "\<forall>s\<in>set ss. clean_seg s"
  shows "join_slash ss \<noteq> [] \<and> last (join_slash ss) \<noteq> CHR ''/''"
  using assms
proof (induction ss rule: rev_induct)
  case (snoc s ss)
  then have "s \<noteq> [] \<and> last s \<noteq> CHR ''/''"
    by (metis clean_seg_def last_in_set last_snoc in_set_conv_decomp)
  then show ?case by (cases "ss = []") (auto simp: join_slash_append)
qed simp

lemma normalizedE:
  assumes "pathIsNormalized p" and "HasPrefix p ''/''"
  obtains ss where "p = CHR ''/'' # join_slash ss" and "\<forall>s\<in>set ss. plain_seg s"
proof -
  from assms(2) obtain q where "p = CHR ''/'' # q" by (auto elim: HasPrefixE)
  with assms(1) show thesis using that normalized_rooted_iff by blast
qed

lemma allowedI_segments:
  assumes p: "p \<in> set ps" "pathIsNormalized p" "HasPrefix p ''/''"
    and path: "pathIsNormalized path" "HasPrefix path ''/''"
    and pre: "prefix (segments p) (segments path)"
  shows "pathAllowed ps path"
proof -
  obtain a where a: "p = CHR ''/'' # join_slash a" "\<forall>s\<in>set a. plain_seg s"
    using p by (auto elim: normalizedE)
  obtain b where b: "path = CHR ''/'' # join_slash b" "\<forall>s\<in>set b. plain_seg s"
    using path by (auto elim: normalizedE)
  have "segments p = a" "segments path = b"
    using a b by (simp_all add: segments_join plain_seg_def)
  with pre obtain r where r: "b = a @ r" by (auto simp: prefix_def)
  consider "r = []" | "a = []" | "r \<noteq> []" "a \<noteq> []" by blast
  then have "path = p \<or> HasPrefix path (TrimSuffix p ''/'' @ ''/'')"
  proof cases
    case 3
    then have "TrimSuffix p ''/'' = p"
      using a last_join_slash [of a] by (simp add: TrimSuffix_single plain_seg_def)
    moreover have "path = (p @ ''/'') @ join_slash r"
      using 3 a b r by (simp add: join_slash_append_lists)
    ultimately show ?thesis by (metis HasPrefix_append)
  qed (use a b r in \<open>simp_all add: TrimSuffix_single HasPrefix_def\<close>)
  with p(1) show ?thesis by (auto simp: pathAllowed_def list_ex_iff)
qed

section \<open>Clean is idempotent\<close>

lemma push_dotdot_stack:
  "foldl (push_seg False) st (replicate n ''..'') = replicate n ''..'' @ st"
  if "\<forall>s\<in>set st. s = ''..''"
proof -
  have "push_seg False (replicate k ''..'' @ st) ''..'' = ''..'' # replicate k ''..'' @ st" for k
    using that by (cases k; cases st) (auto simp: push_seg_def)
  moreover have "replicate (Suc k) ''..'' = replicate k ''..'' @ [''..'']" for k
    by (simp add: replicate_append_same)
  ultimately show ?thesis by (induction n) (simp_all del: replicate_Suc, simp)
qed

definition settled :: "string list \<Rightarrow> bool" where
  "settled st \<longleftrightarrow> (\<exists>n ps. st = ps @ replicate n ''..'' \<and> (\<forall>s\<in>set ps. plain_seg s))"

lemma settled_push:
  assumes "settled st" and "clean_seg s"
  shows "settled (push_seg False st s)"
proof -
  from assms obtain n ps where st: "st = ps @ replicate n ''..''" and ps: "\<forall>s\<in>set ps. plain_seg s"
    by (auto simp: settled_def)
  consider "s = ''.''" | "s = ''..''" | "plain_seg s" using assms by (auto simp: plain_seg_def)
  then show ?thesis
  proof cases
    case 2
    show ?thesis
    proof (cases ps)
      case Nil
      then have "push_seg False st s = [] @ replicate (Suc n) ''..''"
        using st 2 by (cases n) (auto simp: push_seg_def)
      then show ?thesis unfolding settled_def by fastforce
    next
      case (Cons q qs)
      then have "push_seg False st s = qs @ replicate n ''..''"
        using st ps 2 by (auto simp: push_seg_def plain_seg_def)
      then show ?thesis using ps Cons unfolding settled_def by auto
    qed
  next
    case 3
    then have "push_seg False st s = (s # ps) @ replicate n ''..''"
      using st by (simp add: push_seg_def plain_seg_def)
    then show ?thesis using ps 3 unfolding settled_def by (intro exI [of _ n] exI [of _ "s # ps"]) simp
  qed (use assms in \<open>simp add: push_seg_dot\<close>)
qed

lemma settled_foldl:
  "settled st \<Longrightarrow> \<forall>s\<in>set ss. clean_seg s \<Longrightarrow> settled (foldl (push_seg False) st ss)"
  by (induction ss arbitrary: st) (auto simp: settled_push)

lemma foldl_settled:
  assumes "settled st"
  shows "foldl (push_seg False) [] (rev st) = st"
proof -
  from assms obtain n ps where st: "st = ps @ replicate n ''..''" and ps: "\<forall>s\<in>set ps. plain_seg s"
    by (auto simp: settled_def)
  then show ?thesis by (simp add: push_dotdot_stack foldl_push_id)
qed

lemma resolve_unrooted_stable:
  "foldl (push_seg False) [] (resolve False p) = rev (resolve False p)"
proof -
  have "settled []" unfolding settled_def by fastforce
  then have "settled (rev (resolve False p))"
    by (simp add: resolve_def settled_foldl segments_clean)
  from foldl_settled [OF this] show ?thesis by simp
qed

lemma join_slash_unrooted:
  assumes "\<forall>s\<in>set ss. clean_seg s" and "ss \<noteq> []"
  shows "join_slash ss \<noteq> []" and "hd (join_slash ss) \<noteq> CHR ''/''"
proof -
  obtain s r where ss: "ss = s # r" using assms(2) by (cases ss) auto
  then obtain c cs where s: "s = c # cs" "c \<noteq> CHR ''/''"
    using assms(1) by (cases s) (auto simp: clean_seg_def)
  have "\<exists>t. join_slash ss = s @ t" using ss by (cases r) auto
  then show "join_slash ss \<noteq> []" and "hd (join_slash ss) \<noteq> CHR ''/''" using s by auto
qed

lemma Clean_idem: "Clean (Clean p) = Clean p"
proof (cases "p \<noteq> [] \<and> hd p = CHR ''/''")
  case True
  then have "Clean p = CHR ''/'' # join_slash (resolve True p)"
    by (simp add: Clean_eq_spec Clean_spec_def)
  moreover have "pathIsNormalized (CHR ''/'' # join_slash (resolve True p))"
    by (rule normalized_rootedI) (simp add: resolve_plain)
  ultimately show ?thesis by (simp add: pathIsNormalized_def)
next
  case False
  let ?ss = "resolve False p"
  have clean: "\<forall>s\<in>set ?ss. clean_seg s" by (simp add: resolve_clean)
  have C: "Clean p = (if ?ss = [] then ''.'' else join_slash ?ss)"
    using False by (auto simp: Clean_eq_spec Clean_spec_def)
  show ?thesis
  proof (cases "?ss = []")
    case True
    then show ?thesis using C by (simp add: Clean_def)
  next
    case ne: False
    have "resolve False (join_slash ?ss) = ?ss"
      using clean resolve_unrooted_stable by (simp add: resolve_def [of False "join_slash ?ss"] segments_join)
    then show ?thesis using C ne join_slash_unrooted [OF clean ne]
      by (auto simp: Clean_eq_spec Clean_spec_def)
  qed
qed

section \<open>The gate both halves put in front of opencode\<close>

text \<open>
  The contract a request handler of either half promises about the paths it lets through,
  and what follows from it for the server behind it.
\<close>

locale path_gate =
  fixes gate :: "string list \<Rightarrow> string \<Rightarrow> bool"
  assumes gate_normalized: "gate ps path \<Longrightarrow> pathIsNormalized path"
    and gate_allowed: "gate ps path \<Longrightarrow> pathAllowed ps path"
begin

lemma gate_rooted:
  assumes "gate ps path" and "ps \<noteq> []" and "\<forall>p\<in>set ps. HasPrefix p ''/''"
  shows "HasPrefix path ''/''"
  using allowed_rooted [OF gate_allowed [OF assms(1)] assms(2,3)] by (auto simp: HasPrefix_def)

lemma gate_confined:
  assumes "gate ps path" and "ps \<noteq> []" and "\<forall>p\<in>set ps. HasPrefix p ''/''"
  shows "\<exists>p\<in>set ps. prefix (segments p) (resolve True path)"
proof -
  obtain q where q: "path = CHR ''/'' # q"
    using allowed_rooted [OF gate_allowed [OF assms(1)] assms(2,3)] by blast
  with gate_normalized [OF assms(1)] have "resolve True path = segments path"
    using normalized_resolve by simp
  then show ?thesis using allowed_under_prefix [OF gate_allowed [OF assms(1)] assms(2)] by simp
qed

lemma gate_no_dots:
  assumes "gate ps path" and "ps \<noteq> []" and "\<forall>p\<in>set ps. HasPrefix p ''/''"
  shows "''..'' \<notin> set (segments path)" and "''.'' \<notin> set (segments path)"
proof -
  obtain q where q: "path = CHR ''/'' # q"
    using allowed_rooted [OF gate_allowed [OF assms(1)] assms(2,3)] by blast
  then have "\<forall>s\<in>set (segments path). plain_seg s"
    using normalized_rooted_segments(1) gate_normalized [OF assms(1)] by simp
  then show "''..'' \<notin> set (segments path)" and "''.'' \<notin> set (segments path)"
    by (auto simp: plain_seg_def)
qed

end

definition path_guards :: "string list \<Rightarrow> string \<Rightarrow> bool" where
  "path_guards ps path \<longleftrightarrow> pathIsNormalized path \<and> pathAllowed ps path"

interpretation guards: path_gate path_guards
  by unfold_locales (simp_all add: path_guards_def)

section \<open>One prefix of the allowlist\<close>

text \<open>
  What a prefix is meant to admit, in segments: the paths at or below it, or only those below it when it
  is written with a slash at its end.
\<close>

definition covers :: "string \<Rightarrow> string \<Rightarrow> bool" where
  "covers p path \<longleftrightarrow>
     HasPrefix path ''/'' \<and> prefix (segments p) (resolve True path) \<and>
     (HasSuffix p ''/'' \<and> p \<noteq> ''/'' \<longrightarrow> segments p \<noteq> resolve True path)"

text \<open>A prefix as one writes it: rooted, and in normal form but for that slash.\<close>

definition proper_prefix :: "string \<Rightarrow> bool" where
  "proper_prefix p \<longleftrightarrow>
     HasPrefix p ''/'' \<and>
     (pathIsNormalized p \<or>
      HasSuffix p ''/'' \<and> TrimSuffix p ''/'' \<noteq> ''/'' \<and> pathIsNormalized (TrimSuffix p ''/''))"

lemma normalized_resolution: "pathIsNormalized p \<longleftrightarrow> Clean_spec p = p"
proof -
  have "Clean_spec [] \<noteq> []" by (simp add: Clean_spec_def resolve_def)
  then show ?thesis by (auto simp: pathIsNormalized_def Clean_eq_spec)
qed

lemma normalized_path_resolve:
  "pathIsNormalized path \<Longrightarrow> HasPrefix path ''/'' \<Longrightarrow> resolve True path = segments path"
  using normalized_resolve by (cases path) (auto simp: HasPrefix_single)

lemma same_segments:
  assumes "pathIsNormalized p" "HasPrefix p ''/''" "pathIsNormalized q" "HasPrefix q ''/''"
  shows "segments p = segments q \<longleftrightarrow> p = q"
proof -
  have "p = CHR ''/'' # join_slash (segments p)" if "pathIsNormalized p" "HasPrefix p ''/''" for p
    using that normalized_rooted_segments(2) by (cases p) (auto simp: HasPrefix_single)
  with assms show ?thesis by metis
qed

lemma normalized_no_slash: "pathIsNormalized p \<Longrightarrow> HasPrefix p ''/'' \<Longrightarrow> p \<noteq> ''/'' \<Longrightarrow> \<not> HasSuffix p ''/''"
proof
  assume p: "pathIsNormalized p" "HasPrefix p ''/''" "p \<noteq> ''/''" and "HasSuffix p ''/''"
  then obtain q where q: "p = q @ ''/''" by (cases p rule: rev_cases) (auto simp: HasSuffix_single)
  with p(2,3) obtain t where t: "q = CHR ''/'' # t" by (cases q) (auto simp: HasPrefix_single)
  obtain ss where ss: "p = CHR ''/'' # join_slash ss" "\<forall>s\<in>set ss. plain_seg s"
    using p(1) q t normalized_rooted_iff [of "t @ ''/''"] by auto
  then have "ss \<noteq> []" using p(3) by auto
  then have "last (join_slash ss) \<noteq> CHR ''/'' \<and> join_slash ss \<noteq> []"
    using last_join_slash [of ss] ss(2) join_slash_Nil_iff [of ss] by (auto simp: plain_seg_def)
  then show False using ss(1) q by (metis last_ConsR last_snoc)
qed

lemma prefix_match:
  assumes p: "proper_prefix p" and path: "pathIsNormalized path"
  shows "path = p \<or> HasPrefix path (TrimSuffix p ''/'' @ ''/'') \<longleftrightarrow> covers p path"
proof (cases "HasPrefix path ''/''")
  case False
  then show ?thesis using p allowed_rooted [of "[p]" path]
    by (auto simp: proper_prefix_def covers_def pathAllowed_def HasPrefix_single)
next
  case rooted: True
  have one: "path = p \<or> HasPrefix path (TrimSuffix p ''/'' @ ''/'') \<longleftrightarrow> prefix (segments p) (segments path)"
    if "pathIsNormalized p" "HasPrefix p ''/''" for p
    using allowedI_segments [of p "[p]" path] allowed_under_prefix [of "[p]" path] that path rooted
    by (auto simp: pathAllowed_def)
  note res = normalized_path_resolve [OF path rooted]
  show ?thesis
  proof (cases "pathIsNormalized p")
    case True
    then have "\<not> HasSuffix p ''/'' \<or> p = ''/''" using p normalized_no_slash by (auto simp: proper_prefix_def)
    then show ?thesis using one [of p] p rooted True by (auto simp: covers_def proper_prefix_def res)
  next
    case False
    let ?q = "TrimSuffix p ''/''"
    have slash: "HasSuffix p ''/''" and q: "?q \<noteq> ''/''" "pathIsNormalized ?q"
      using p False by (auto simp: proper_prefix_def)
    have pq: "p = ?q @ ''/''" using slash by (cases p rule: rev_cases) (auto simp: HasSuffix_single TrimSuffix_single)
    have "?q \<noteq> []" using q(2) by (auto simp: pathIsNormalized_def)
    then have root: "HasPrefix ?q ''/''" using p pq by (metis HasPrefix_single hd_append2 proper_prefix_def)
    have "p \<noteq> ''/''" using False by (auto simp: pathIsNormalized_def Clean_def)
    then have cov: "covers p path \<longleftrightarrow> prefix (segments ?q) (segments path) \<and> path \<noteq> ?q"
      using slash rooted same_segments [OF q(2) root path rooted] by (auto simp: covers_def res segments_TrimSuffix)
    have "TrimSuffix ?q ''/'' = ?q" using normalized_no_slash [OF q(2) root q(1)] by (simp add: TrimSuffix_def)
    then have "path = ?q \<or> HasPrefix path (?q @ ''/'') \<longleftrightarrow> prefix (segments ?q) (segments path)"
      using one [OF q(2) root] by simp
    moreover have "path = ?q \<Longrightarrow> \<not> HasPrefix path (?q @ ''/'')" by (auto simp: HasPrefix_def)
    moreover have "path = p \<Longrightarrow> HasPrefix path (?q @ ''/'')" using pq by (metis HasPrefix_append append_Nil2)
    ultimately show ?thesis using cov by blast
  qed
qed

text \<open>A prefix written otherwise matches no normalized path: what precedes a slash of such a path is one too.\<close>

lemma cut_at_slash:
  assumes "join_slash ss = q @ CHR ''/'' # t" and "\<forall>s\<in>set ss. clean_seg s"
  shows "\<exists>as bs. ss = as @ bs \<and> as \<noteq> [] \<and> q = join_slash as"
  using assms
proof (induction ss arbitrary: q rule: join_slash.induct)
  case (2 s)
  then show ?case by (auto simp: clean_seg_def)
next
  case (3 s s2 ss)
  let ?J = "join_slash (s2 # ss)"
  have s: "CHR ''/'' \<notin> set s" using "3.prems"(2) by (simp add: clean_seg_def)
  have "s @ CHR ''/'' # ?J = q @ CHR ''/'' # t" using "3.prems"(1) by simp
  then obtain us where "s = q @ us \<and> us @ CHR ''/'' # ?J = CHR ''/'' # t \<or>
      s @ us = q \<and> CHR ''/'' # ?J = us @ CHR ''/'' # t"
    unfolding append_eq_append_conv2 by blast
  then consider (here) "q = s" | (later) us' where "q = s @ CHR ''/'' # us'" "?J = us' @ CHR ''/'' # t"
    using s by (cases us) auto
  then show ?case
  proof cases
    case here
    then show ?thesis by (intro exI [of _ "[s]"] exI [of _ "s2 # ss"]) simp
  next
    case later
    then obtain as bs where split: "s2 # ss = as @ bs" "as \<noteq> []" "us' = join_slash as"
      using "3.IH" [OF later(2)] "3.prems"(2) by auto
    then show ?thesis using later(1) by (intro exI [of _ "s # as"] exI [of _ bs]) (cases as; simp)
  qed
qed simp

lemma normalized_before_slash:
  assumes "pathIsNormalized (q @ CHR ''/'' # t)" and "HasPrefix q ''/''"
  shows "pathIsNormalized q" and "q \<noteq> ''/''"
proof -
  obtain q' where q: "q = CHR ''/'' # q'" using assms(2) by (auto elim: HasPrefixE)
  obtain ss where ss: "q' @ CHR ''/'' # t = join_slash ss" "\<forall>s\<in>set ss. plain_seg s"
    using assms(1) normalized_rooted_iff [of "q' @ CHR ''/'' # t"] by (auto simp: q)
  then obtain as bs where "ss = as @ bs" "as \<noteq> []" "q' = join_slash as"
    using cut_at_slash [of ss q' t] by (auto simp: plain_seg_def)
  moreover from this have "join_slash as \<noteq> []" using ss(2) join_slash_Nil_iff [of as] by (auto simp: plain_seg_def)
  ultimately show "pathIsNormalized q" "q \<noteq> ''/''" using ss(2) q normalized_rootedI [of as] by auto
qed

lemma matching_prefix_proper:
  assumes "HasPrefix p ''/''" and "pathIsNormalized path"
    and "path = p \<or> HasPrefix path (TrimSuffix p ''/'' @ ''/'')"
  shows "proper_prefix p"
proof (cases "path = p \<or> p = ''/''")
  case True
  then show ?thesis using assms(1,2) by (auto simp: proper_prefix_def pathIsNormalized_def Clean_def)
next
  case False
  let ?q = "TrimSuffix p ''/''"
  obtain t where path: "path = ?q @ CHR ''/'' # t" using False assms(3) by (auto elim: HasPrefixE)
  have "HasPrefix ?q ''/''"
    using False assms(1) by (cases p rule: rev_cases) (auto simp: HasPrefix_single TrimSuffix_single hd_append split: if_splits)
  from normalized_before_slash [OF assms(2) [unfolded path] this]
  have "pathIsNormalized ?q" "?q \<noteq> ''/''" by simp_all
  then show ?thesis using assms(1)
    by (cases "HasSuffix p ''/''") (auto simp: proper_prefix_def TrimSuffix_def)
qed

lemma allowed_iff_covered:
  assumes "\<forall>p\<in>set ps. HasPrefix p ''/''" and "pathIsNormalized path"
  shows "pathAllowed ps path \<longleftrightarrow> ps = [] \<or> (\<exists>p\<in>set ps. proper_prefix p \<and> covers p path)"
proof -
  have "path = p \<or> HasPrefix path (TrimSuffix p ''/'' @ ''/'') \<longleftrightarrow> proper_prefix p \<and> covers p path" if "p \<in> set ps" for p
    using prefix_match [OF _ assms(2)] matching_prefix_proper [OF _ assms(2)] assms(1) that by blast
  then show ?thesis by (auto simp: pathAllowed_def list_ex_iff)
qed

section \<open>Properties\<close>

text \<open>
  C13. \<open>pathIsNormalized\<close> accepts exactly the non-empty paths that resolving their segments on
  a stack gives back unchanged: the byte loop of \<open>path.Clean\<close> under it, with its buffer, its
  backtracking and its \<open>dotdot\<close> mark, is that resolution for every path, and what it returns
  always passes.
\<close>

theorem normalized_means_resolved:
  "(pathIsNormalized p \<longleftrightarrow> p \<noteq> [] \<and> Clean_spec p = p) \<and> pathIsNormalized (Clean p)"
proof -
  have "Clean p \<noteq> []" using Clean_idem [of p] by (auto simp: Clean_def)
  then show ?thesis using Clean_eq_spec Clean_idem by (simp add: pathIsNormalized_def)
qed

text \<open>
  A rooted path passes \<open>pathIsNormalized\<close> exactly when it is \<open>/\<close> followed by segments
  joined with single slashes, none of them empty, \<open>.\<close> or \<open>..\<close>; so \<open>//\<close>, a trailing slash
  and every dot segment are refused and nothing else is.
\<close>

theorem normalized_iff_plain_segments:
  "pathIsNormalized (CHR ''/'' # q) \<longleftrightarrow> (\<exists>ss. q = join_slash ss \<and> list_all plain_seg ss)"
  by (simp add: normalized_rooted_iff list_all_iff)

text \<open>
  For an allowlist of normalized rooted prefixes and a normalized rooted path, the string
  test of \<open>pathAllowed\<close> is the test that the segments of one entry are a prefix of the
  segments of the path: \<open>/api\<close> admits \<open>/api\<close> and \<open>/api/foo\<close> and not \<open>/apiary\<close>.
\<close>

theorem allowlist_matches_segments:
  assumes "\<forall>p\<in>set ps. pathIsNormalized p \<and> HasPrefix p ''/''" and "ps \<noteq> []"
    and "pathIsNormalized path" and "HasPrefix path ''/''"
  shows "pathAllowed ps path \<longleftrightarrow> (\<exists>p\<in>set ps. prefix (segments p) (segments path))"
  using assms allowed_under_prefix allowedI_segments by metis

lemma clean_examples:
  "pathIsNormalized ''/api''" "pathIsNormalized ''/api/foo''" "pathIsNormalized ''/apiary''"
  "pathIsNormalized ''/''"
  "\<not> pathIsNormalized ''/api/''" "\<not> pathIsNormalized ''/api/../admin''"
  by (simp_all add: pathIsNormalized_def Clean_def clean_elem_def)

theorem allowlist_matches_segments_witness:
  "pathAllowed [''/api''] ''/api/foo'' \<and> \<not> pathAllowed [''/api''] ''/apiary''"
  using allowlist_matches_segments [of "[''/api'']" "''/api/foo''"]
    allowlist_matches_segments [of "[''/api'']" "''/apiary''"]
  by (simp add: clean_examples HasPrefix_def)

text \<open>
  C12. A path that passes both checks against a non-empty allowlist of rooted prefixes stays
  under one of them however the server behind the proxy resolves it: resolving \<open>.\<close> and
  \<open>..\<close> leaves its segments extending the segments of an allowed prefix.
\<close>

theorem admitted_path_confined:
  assumes "pathIsNormalized path" and "pathAllowed ps path"
    and "ps \<noteq> []" and "\<forall>p\<in>set ps. HasPrefix p ''/''"
  shows "HasPrefix path ''/'' \<and> ''..'' \<notin> set (segments path) \<and>
    (\<exists>p\<in>set ps. prefix (segments p) (resolve True path))"
proof -
  from assms(1,2) have g: "path_guards ps path" by (simp add: path_guards_def)
  show ?thesis
    using guards.gate_rooted [OF g assms(3,4)] guards.gate_no_dots(1) [OF g assms(3,4)]
      guards.gate_confined [OF g assms(3,4)] by blast
qed

theorem admitted_path_confined_witness:
  "HasPrefix ''/api/foo'' ''/'' \<and> ''..'' \<notin> set (segments ''/api/foo'') \<and>
   (\<exists>p\<in>set [''/api'']. prefix (segments p) (resolve True ''/api/foo''))"
  by (rule admitted_path_confined)
    (simp_all add: clean_examples pathAllowed_def HasPrefix_def TrimSuffix_def HasSuffix_def)

text \<open>
  The check alone does not make a path rooted, although the comment above \<open>pathIsNormalized\<close>
  says so: \<open>..\<close> and \<open>../admin\<close> are fixed points of \<open>path.Clean\<close>. It is the allowlist
  of rooted prefixes that excludes them.
\<close>

lemma normalized_unrooted_paths:
  "pathIsNormalized ''..'' \<and> pathIsNormalized ''../admin'' \<and> \<not> HasPrefix ''../admin'' ''/''"
  by (simp add: pathIsNormalized_def Clean_def clean_elem_def HasPrefix_def)

end
