(* ===== verification/Peer_Identity.thy ===== *)
theory Peer_Identity
  imports Go_Quote
begin

text \<open>
  Certificates and peer identity of \<^verbatim>\<open>tlsconf.go\<close>: the leaf, its role (Organizational Unit)
  and Common Name checks, and the rendering of peer data for log lines. A nil
  \<open>*tls.ConnectionState\<close> or certificate is \<open>None\<close>.
\<close>

section \<open>Model\<close>

record certificate =
  SerialNumber :: int
  CommonName :: string
  OrganizationalUnit :: "string list"

record ConnectionState =
  PeerCertificates :: "certificate list"
  VerifiedChains :: "certificate list list"

definition OUTunnel :: string where
  "OUTunnel = ''opencode-proxy-tunnel''"

definition OUDevice :: string where
  "OUDevice = ''opencode-proxy-device''"

datatype auth_error =
    ErrWrongRole
  | WrongOU "string list" string
  | WrongCN string string
  | ErrRevoked string string
  | ErrNoVerifiedChain

text \<open>\<open>errors.Is\<close> against the two sentinel errors, through the \<open>%w\<close> wrapping.\<close>

fun is_wrong_role :: "auth_error \<Rightarrow> bool" where
  "is_wrong_role ErrWrongRole = True"
| "is_wrong_role (WrongOU have need) = True"
| "is_wrong_role (WrongCN got want) = True"
| "is_wrong_role _ = False"

fun is_revoked_error :: "auth_error \<Rightarrow> bool" where
  "is_revoked_error (ErrRevoked serial cn) = True"
| "is_revoked_error _ = False"

definition serialOf :: "certificate \<Rightarrow> string" where
  "serialOf cert = Text16 (SerialNumber cert)"

definition leafCertOf :: "ConnectionState option \<Rightarrow> certificate option" where
  "leafCertOf state =
     (case state of
        None \<Rightarrow> None
      | Some cs \<Rightarrow> (case PeerCertificates cs of [] \<Rightarrow> None | leaf # _ \<Rightarrow> Some leaf))"

definition sanitizeForLog :: "(nat \<Rightarrow> bool) \<Rightarrow> string \<Rightarrow> string" where
  "sanitizeForLog wide s = Quote wide s"

definition GetPeerSubjectCN :: "(nat \<Rightarrow> bool) \<Rightarrow> ConnectionState option \<Rightarrow> string" where
  "GetPeerSubjectCN wide state =
     (case leafCertOf state of
        None \<Rightarrow> ''<none>''
      | Some cert \<Rightarrow> sanitizeForLog wide (CommonName cert))"

definition VerifyPeerRole :: "ConnectionState option \<Rightarrow> string \<Rightarrow> auth_error option" where
  "VerifyPeerRole state ou =
     (case leafCertOf state of
        None \<Rightarrow> Some ErrWrongRole
      | Some cert \<Rightarrow>
          if \<not> List.member (OrganizationalUnit cert) ou
          then Some (WrongOU (OrganizationalUnit cert) ou)
          else None)"

definition VerifyPeerCN :: "ConnectionState option \<Rightarrow> string \<Rightarrow> auth_error option" where
  "VerifyPeerCN state cn =
     (case leafCertOf state of
        None \<Rightarrow> Some ErrWrongRole
      | Some cert \<Rightarrow> if CommonName cert \<noteq> cn then Some (WrongCN (CommonName cert) cn) else None)"

text \<open>The texts \<open>%v\<close> prints for the errors.\<close>

definition wrong_role_text :: string where
  "wrong_role_text = ''client certificate is not valid for this endpoint''"

fun auth_error_text :: "(nat \<Rightarrow> bool) \<Rightarrow> auth_error \<Rightarrow> string" where
  "auth_error_text wide ErrWrongRole = wrong_role_text"
| "auth_error_text wide (WrongOU have need) =
     wrong_role_text @ '': have '' @ QuoteSlice wide have @ '', need '' @ Quote wide need"
| "auth_error_text wide (WrongCN got want) =
     wrong_role_text @ '': tunnel CN '' @ Quote wide got @
     '' is not the pinned '' @ Quote wide want"
| "auth_error_text wide (ErrRevoked serial cn) =
     ''client certificate has been revoked: serial '' @ serial @ '' ('' @ Quote wide cn @ '')''"
| "auth_error_text wide ErrNoVerifiedChain = ''no verified chain to check''"

section \<open>Facts\<close>

lemma VerifyPeerRole_ok:
  "VerifyPeerRole state ou = None \<longleftrightarrow> (\<exists>cert. leafCertOf state = Some cert \<and> ou \<in> set (OrganizationalUnit cert))"
  by (auto simp: VerifyPeerRole_def split: option.splits)

lemma VerifyPeerCN_ok:
  "VerifyPeerCN state cn = None \<longleftrightarrow> (\<exists>cert. leafCertOf state = Some cert \<and> CommonName cert = cn)"
  by (auto simp: VerifyPeerCN_def split: option.splits)

lemma log_safe_literals:
  "log_safe ''<none>''" "log_safe wrong_role_text"
  "log_safe '': have ''" "log_safe '', need ''" "log_safe '': tunnel CN ''" "log_safe '' is not the pinned ''"
  by (simp_all add: control_def wrong_role_text_def)

lemma GetPeerSubjectCN_log_safe: "log_safe (GetPeerSubjectCN wide state)"
  unfolding GetPeerSubjectCN_def sanitizeForLog_def
  by (cases "leafCertOf state") (simp_all only: option.case log_safe_literals Quote_log_safe)

lemma auth_error_log_safe:
  assumes "is_wrong_role e"
  shows "log_safe (auth_error_text wide e)"
  using assms
  by (cases e) (simp_all only: auth_error_text.simps log_safe_append log_safe_literals Quote_log_safe
      QuoteSlice_log_safe is_wrong_role.simps simp_thms)

lemma VerifyPeerRole_wrong: "VerifyPeerRole state ou = Some e \<Longrightarrow> is_wrong_role e"
  by (auto simp: VerifyPeerRole_def split: option.splits if_splits)

lemma VerifyPeerCN_wrong: "VerifyPeerCN state cn = Some e \<Longrightarrow> is_wrong_role e"
  by (auto simp: VerifyPeerCN_def split: option.splits if_splits)

section \<open>Properties\<close>

text \<open>
  Whatever bytes a peer puts into the Common Name and Organizational Units of its
  certificate, what a role or identity refusal writes into the log line (the quoted CN and the
  error text) holds no control character, and the quoted CN is one token: a reader that skips
  escapes finds its closing quote exactly where the rest of the line starts.
\<close>

theorem peer_data_cannot_forge_log_lines:
  "log_safe (GetPeerSubjectCN wide state) \<and>
   log_safe (case VerifyPeerRole state ou of None \<Rightarrow> [] | Some e \<Rightarrow> auth_error_text wide e) \<and>
   log_safe (case VerifyPeerCN state cn of None \<Rightarrow> [] | Some e \<Rightarrow> auth_error_text wide e) \<and>
   token_rest (tl (sanitizeForLog wide s) @ rest) = Some rest"
  using GetPeerSubjectCN_log_safe auth_error_log_safe VerifyPeerRole_wrong VerifyPeerCN_wrong
  by (auto simp: sanitizeForLog_def Quote_one_token split: option.splits)

text \<open>
  The role and identity checks accept exactly the peers that present a leaf certificate
  with the role among its Organizational Units, respectively with that Common Name; a missing
  connection state or certificate is refused, and every refusal is an \<open>ErrWrongRole\<close>.
\<close>

theorem peer_checks_exact:
  "(VerifyPeerRole state ou = None \<longleftrightarrow>
      (\<exists>cert. leafCertOf state = Some cert \<and> ou \<in> set (OrganizationalUnit cert))) \<and>
   (VerifyPeerCN state cn = None \<longleftrightarrow>
      (\<exists>cert. leafCertOf state = Some cert \<and> CommonName cert = cn)) \<and>
   VerifyPeerRole None ou = Some ErrWrongRole \<and> VerifyPeerCN None cn = Some ErrWrongRole \<and>
   (case VerifyPeerRole state ou of None \<Rightarrow> True | Some e \<Rightarrow> is_wrong_role e) \<and>
   (case VerifyPeerCN state cn of None \<Rightarrow> True | Some e \<Rightarrow> is_wrong_role e)"
proof -
  have "VerifyPeerRole None ou = Some ErrWrongRole \<and> VerifyPeerCN None cn = Some ErrWrongRole"
    by (simp add: VerifyPeerRole_def VerifyPeerCN_def leafCertOf_def)
  then show ?thesis
    using VerifyPeerRole_ok VerifyPeerCN_ok VerifyPeerRole_wrong VerifyPeerCN_wrong
    by (simp split: option.splits)
qed

end
