(* ===== verification/Revocation.thy ===== *)
theory Revocation
  imports Peer_Identity
begin

text \<open>
  The certificate denylist of \<^verbatim>\<open>tlsconf.go\<close>: \<^verbatim>\<open>normalizeSerial\<close>, the line scanner and
  \<^verbatim>\<open>LoadRevokedSerials\<close>, and the list that reloads itself when its file's stamp changes. Each
  system call takes the file system it observes, so that a file may change between two calls.
\<close>

section \<open>Serials\<close>

datatype serial_error = NotHexSerial string

definition normalizeSerial :: "string \<Rightarrow> (serial_error, string) result" where
  "normalizeSerial s =
     (let cleaned = ToLower (TrimSpace s);
          cleaned = TrimPrefix cleaned ''serial='';
          cleaned = TrimPrefix cleaned ''0x'';
          cleaned = RemoveAll cleaned (CHR '':'');
          cleaned = RemoveAll cleaned (CHR '' '')
      in case SetString16 cleaned of
           None \<Rightarrow> Inl (NotHexSerial s)
         | Some n \<Rightarrow> Inr (Text16 n))"

section \<open>The file\<close>

datatype read_result = OpenFailed | ReadFailed string | ReadAll string

record fs =
  os_stat :: "string \<Rightarrow> (int \<times> int) option"
  os_read :: "string \<Rightarrow> read_result"

text \<open>
  \<open>bufio.Scanner\<close> with its default line splitter: a line that does not fit its buffer of
  64 KiB ends the scan with an error, a trailing carriage return is dropped.
\<close>

definition max_token :: nat where
  "max_token = 65536"

definition drop_cr :: "string \<Rightarrow> string" where
  "drop_cr line = (if line \<noteq> [] \<and> last line = CHR 0x0D then butlast line else line)"

function scan_lines :: "string \<Rightarrow> string list \<times> bool" where
  "scan_lines s =
     (if s = [] then ([], False)
      else
        let line = takeWhile (\<lambda>c. c \<noteq> CHR 0x0A) s;
            rest = tl (dropWhile (\<lambda>c. c \<noteq> CHR 0x0A) s)
        in if max_token \<le> length line then ([], True)
           else (case scan_lines rest of (ls, e) \<Rightarrow> (drop_cr line # ls, e)))"
  by pat_completeness auto
termination
proof (relation "measure length")
  fix s x xa
  assume "s \<noteq> ([] :: string)" "xa = tl (dropWhile (\<lambda>c. c \<noteq> CHR 0x0A) s)"
  moreover have "length (dropWhile (\<lambda>c. c \<noteq> CHR 0x0A) s) \<le> length s" by (rule dropWhile_length_le)
  ultimately show "(xa, s) \<in> measure length"
    by (cases "dropWhile (\<lambda>c. c \<noteq> CHR 0x0A) s") auto
qed simp

declare scan_lines.simps [simp del]

datatype load_error = ListUnreadable | BadEntry serial_error

fun load_lines :: "string list \<Rightarrow> string set \<Rightarrow> (load_error, string set) result" where
  "load_lines [] revoked = Inr revoked"
| "load_lines (l # ls) revoked =
     (let line = TrimSpace l
      in if line = [] \<or> HasPrefix line ''#'' then load_lines ls revoked
         else case normalizeSerial line of
                Inl e \<Rightarrow> Inl (BadEntry e)
              | Inr norm \<Rightarrow> load_lines ls (insert norm revoked))"

definition LoadRevokedSerials :: "fs \<Rightarrow> string \<Rightarrow> (load_error, string set) result" where
  "LoadRevokedSerials w path =
     (if path = [] then Inr {}
      else
        case os_read w path of
          OpenFailed \<Rightarrow> Inl ListUnreadable
        | ReadFailed got \<Rightarrow>
            (case load_lines (fst (scan_lines got)) {} of
               Inl e \<Rightarrow> Inl e
             | Inr revoked \<Rightarrow> Inl ListUnreadable)
        | ReadAll got \<Rightarrow>
            (case load_lines (fst (scan_lines got)) {} of
               Inl e \<Rightarrow> Inl e
             | Inr revoked \<Rightarrow> if snd (scan_lines got) then Inl ListUnreadable else Inr revoked))"

section \<open>The reloading list\<close>

record RevocationList =
  rl_path :: string
  rl_serials :: "string set"
  rl_modTime :: int
  rl_size :: int

text \<open>
  The first observation is the file system \<open>LoadRevokedSerials\<close> reads, the second the one
  \<open>os.Stat\<close> sees after it. \<open>Inr None\<close> is the nil list of an empty path; a failed stat
  leaves the zero time and size.
\<close>

definition NewRevocationList :: "fs \<Rightarrow> fs \<Rightarrow> string \<Rightarrow> (load_error, RevocationList option) result" where
  "NewRevocationList w_load w_stat path =
     (if path = [] then Inr None
      else
        case LoadRevokedSerials w_load path of
          Inl e \<Rightarrow> Inl e
        | Inr serials \<Rightarrow>
            (case os_stat w_stat path of
               None \<Rightarrow> Inr (Some \<lparr>rl_path = path, rl_serials = serials, rl_modTime = 0, rl_size = 0\<rparr>)
             | Some (m, n) \<Rightarrow>
                 Inr (Some \<lparr>rl_path = path, rl_serials = serials, rl_modTime = m, rl_size = n\<rparr>)))"

text \<open>Here \<open>os.Stat\<close> comes first (\<open>w_stat\<close>) and the reload after it (\<open>w_load\<close>).\<close>

definition reload :: "fs \<Rightarrow> fs \<Rightarrow> RevocationList \<Rightarrow> RevocationList" where
  "reload w_stat w_load r =
     (case os_stat w_stat (rl_path r) of
        None \<Rightarrow> r
      | Some (m, n) \<Rightarrow>
          if m \<noteq> rl_modTime r \<or> n \<noteq> rl_size r then
            (case LoadRevokedSerials w_load (rl_path r) of
               Inl e \<Rightarrow> r
             | Inr serials \<Rightarrow> r\<lparr>rl_serials := serials, rl_modTime := m, rl_size := n\<rparr>)
          else r)"

definition IsRevoked :: "fs \<Rightarrow> fs \<Rightarrow> RevocationList \<Rightarrow> string \<Rightarrow> bool \<times> RevocationList" where
  "IsRevoked w_stat w_load r serial =
     (let r' = reload w_stat w_load r in (serial \<in> rl_serials r', r'))"

text \<open>
  The \<open>VerifyConnection\<close> callback of the server's TLS configuration: absent without a list,
  otherwise run on every handshake with the list's current state.
\<close>

definition verify_connection ::
  "fs \<Rightarrow> fs \<Rightarrow> RevocationList \<Rightarrow> ConnectionState \<Rightarrow> auth_error option \<times> RevocationList"
where
  "verify_connection w_stat w_load r cs =
     (case VerifiedChains cs of
        [] \<Rightarrow> (Some ErrNoVerifiedChain, r)
      | [] # _ \<Rightarrow> (Some ErrNoVerifiedChain, r)
      | (leaf # _) # _ \<Rightarrow>
          (let (bad, r') = IsRevoked w_stat w_load r (serialOf leaf)
           in if bad then (Some (ErrRevoked (serialOf leaf) (CommonName leaf)), r') else (None, r')))"

definition verifyNotRevoked ::
  "RevocationList option \<Rightarrow>
   (fs \<Rightarrow> fs \<Rightarrow> RevocationList \<Rightarrow> ConnectionState \<Rightarrow> auth_error option \<times> RevocationList) option"
where
  "verifyNotRevoked revocation = (case revocation of None \<Rightarrow> None | Some r \<Rightarrow> Some verify_connection)"

section \<open>Serials in any format\<close>

text \<open>Digits of a serial as an operator writes them: with separators, in either case.\<close>

definition separator :: "char \<Rightarrow> bool" where
  "separator c \<longleftrightarrow> c = CHR '':'' \<or> c = CHR '' ''"

definition serial_digits :: "string \<Rightarrow> string" where
  "serial_digits s = filter (\<lambda>c. \<not> separator c) s"

definition serial_prefixes :: "string list" where
  "serial_prefixes = [[], ''serial='', ''0x'', ''serial=0x'']"

lemma RemoveAll_separators: "RemoveAll (RemoveAll s (CHR '':'')) (CHR '' '') = serial_digits s"
  by (induction s) (auto simp: RemoveAll_def serial_digits_def separator_def)

lemma hex_val_ascii: "hex_val c = Some d \<Longrightarrow> visible c \<and> c \<noteq> CHR ''-'' \<and> c \<noteq> CHR ''+'' \<and> \<not> separator c"
  by (auto simp: hex_val_def visible_def is_ascii_def ascii_spaces_def separator_def Let_def split: if_splits)

lemma hex_parse_chars: "hex_parse acc s = Some n \<Longrightarrow> c \<in> set s \<Longrightarrow> \<exists>d. hex_val c = Some d"
  by (induction acc s rule: hex_parse.induct) (auto split: option.splits)

lemma hex_val_lower_chars:
  "hex_val c = Some d \<Longrightarrow> ascii_lower c \<noteq> CHR ''s'' \<and> ascii_lower c \<noteq> CHR ''x''"
  using ascii_lower_hex [of c d] by (auto simp: hex_val_def)

lemma ascii_lower_separator: "separator (ascii_lower c) \<longleftrightarrow> separator c"
proof (cases "65 \<le> (of_char c :: nat) \<and> (of_char c :: nat) \<le> 90")
  case True
  then have "of_char (ascii_lower c) = (of_char c :: nat) + 32"
    by (simp add: ascii_lower_def take_bit_eq_mod)
  then have "\<not> separator (ascii_lower c)" using True by (auto simp: separator_def)
  moreover have "\<not> separator c" using True by (auto simp: separator_def)
  ultimately show ?thesis by blast
qed (auto simp: ascii_lower_def)

lemma serial_digits_lower: "serial_digits (map ascii_lower s) = map ascii_lower (serial_digits s)"
  by (induction s) (auto simp: serial_digits_def ascii_lower_separator)

lemma digits_text_chars:
  assumes "hex_parse 0 (serial_digits body) = Some n" and "c \<in> set body"
  shows "separator c \<or> (\<exists>d. hex_val c = Some d)"
  using hex_parse_chars [OF assms(1), of c] assms(2) by (auto simp: serial_digits_def)

lemma separator_facts: "separator c \<Longrightarrow> is_ascii c \<and> ascii_lower c = c \<and> c \<noteq> CHR ''s'' \<and> c \<noteq> CHR ''x''"
  by (auto simp: separator_def is_ascii_def ascii_lower_def)

lemma no_serial_prefix:
  assumes "CHR ''s'' \<notin> set b" shows "TrimPrefix b ''serial='' = b"
  using assms by (cases b) (auto simp: TrimPrefix_def HasPrefix_def)

lemma no_hex_prefix:
  assumes "CHR ''x'' \<notin> set b" shows "TrimPrefix b ''0x'' = b"
proof -
  have "\<not> HasPrefix b ''0x''" using assms by (auto elim: HasPrefixE)
  then show ?thesis by (simp add: TrimPrefix_def)
qed

lemma trim_serial_prefixes:
  assumes "p \<in> set serial_prefixes" and "CHR ''s'' \<notin> set b" and "CHR ''x'' \<notin> set b"
  shows "TrimPrefix (TrimPrefix (p @ b) ''serial='') ''0x'' = b"
proof -
  consider "p = []" | "p = ''serial=''" | "p = ''0x''" | "p = ''serial='' @ ''0x''"
    using assms(1) by (auto simp: serial_prefixes_def)
  then show ?thesis
  proof cases
    case 3
    then have "TrimPrefix (p @ b) ''serial='' = p @ b" using assms(2) by (intro no_serial_prefix) simp
    then show ?thesis using 3 by (simp only: TrimPrefix_append)
  next
    case 4
    then have "TrimPrefix (p @ b) ''serial='' = ''0x'' @ b" by (simp only: append_assoc TrimPrefix_append)
    then show ?thesis by (simp only: TrimPrefix_append)
  qed (use no_serial_prefix [OF assms(2)] no_hex_prefix [OF assms(3)] in
      \<open>simp_all only: append_Nil TrimPrefix_append\<close>)
qed

lemma SetString16_digits:
  assumes "hex_parse 0 s = Some n" and "s \<noteq> []"
  shows "SetString16 s = Some (int n)"
proof -
  obtain d where "hex_val (hd s) = Some d"
    using assms hex_parse_chars [of 0 s n "hd s"] by auto
  then have "hd s \<noteq> CHR ''-''" "hd s \<noteq> CHR ''+''" using hex_val_ascii by blast+
  then show ?thesis using assms by (simp add: SetString16_def HasPrefix_single Let_def)
qed

lemma normalizeSerial_format:
  assumes ws: "set u \<subseteq> set ascii_spaces" "set v \<subseteq> set ascii_spaces"
    and pre: "map ascii_lower p \<in> set serial_prefixes" "list_all visible p"
    and body: "body \<noteq> []" "hd body \<noteq> CHR '' ''" "last body \<noteq> CHR '' ''"
    and val: "hex_parse 0 (serial_digits body) = Some n" "serial_digits body \<noteq> []"
  shows "normalizeSerial (u @ p @ body @ v) = Inr (Text16 (int n))"
proof -
  have chars: "separator c \<or> (\<exists>d. hex_val c = Some d)" if "c \<in> set body" for c
    using digits_text_chars [OF val(1) that] .
  have vis: "visible c" if "c \<in> set body" "c \<noteq> CHR '' ''" for c
    using chars [OF that(1)] that(2) hex_val_ascii
    by (auto simp: separator_def visible_def is_ascii_def ascii_spaces_def)
  have asc: "is_ascii c" if "c \<in> set body" for c
    using chars [OF that] hex_val_ascii separator_facts by (auto simp: visible_def)
  have "TrimSpace (u @ (p @ body) @ v) = p @ body"
  proof (rule TrimSpace_around [OF ws])
    show "visible (hd (p @ body))"
      using pre(2) body vis [of "hd body"] by (cases p) (auto simp: list_all_iff)
    show "visible (last (p @ body))" using body vis [of "last body"] by simp
  qed (use body in simp)
  moreover have "ToLower (p @ body) = map ascii_lower p @ map ascii_lower body"
    using ToLower_ascii [of "p @ body"] asc pre(2) by (auto simp: list_all_iff visible_def)
  moreover have "CHR ''s'' \<notin> set (map ascii_lower body)" "CHR ''x'' \<notin> set (map ascii_lower body)"
    using chars hex_val_lower_chars separator_facts by fastforce+
  ultimately have "TrimPrefix (TrimPrefix (ToLower (TrimSpace (u @ p @ body @ v))) ''serial='') ''0x'' =
      map ascii_lower body"
    using trim_serial_prefixes [OF pre(1)] by simp
  moreover have "SetString16 (map ascii_lower (serial_digits body)) = Some (int n)"
    using SetString16_digits [OF hex_parse_lower [OF val(1)]] val(2) by simp
  ultimately show ?thesis
    by (simp add: normalizeSerial_def Let_def RemoveAll_separators serial_digits_lower)
qed

lemma format_trim:
  assumes ws: "set u \<subseteq> set ascii_spaces" "set v \<subseteq> set ascii_spaces"
    and pre: "map ascii_lower p \<in> set serial_prefixes" "list_all visible p"
    and body: "body \<noteq> []" "hd body \<noteq> CHR '' ''" "last body \<noteq> CHR '' ''"
    and val: "hex_parse 0 (serial_digits body) = Some n"
  shows "TrimSpace (u @ p @ body @ v) = p @ body" and "\<not> HasPrefix (p @ body) ''#''"
proof -
  have chars: "separator c \<or> (\<exists>d. hex_val c = Some d)" if "c \<in> set body" for c
    using digits_text_chars [OF val that] .
  have vis: "visible c" if "c \<in> set body" "c \<noteq> CHR '' ''" for c
    using chars [OF that(1)] that(2) hex_val_ascii
    by (auto simp: separator_def visible_def is_ascii_def ascii_spaces_def)
  have "TrimSpace (u @ (p @ body) @ v) = p @ body"
  proof (rule TrimSpace_around [OF ws])
    show "visible (hd (p @ body))"
      using pre(2) body vis [of "hd body"] by (cases p) (auto simp: list_all_iff)
    show "visible (last (p @ body))" using body vis [of "last body"] by simp
  qed (use body in simp)
  then show "TrimSpace (u @ p @ body @ v) = p @ body" by simp
  have hash: "\<not> separator (CHR ''#'')" "hex_val (CHR ''#'') = None"
    by (simp_all add: separator_def hex_val_def)
  have "hd (p @ body) \<noteq> CHR ''#''"
  proof (cases p)
    case Nil
    then show ?thesis using chars [of "hd body"] body(1) hash by force
  next
    case (Cons c p')
    then have "ascii_lower c \<in> {CHR ''s'', CHR ''0''}"
      using pre(1) by (auto simp: serial_prefixes_def)
    then have "c \<noteq> CHR ''#''" by (auto simp: ascii_lower_def)
    then show ?thesis using Cons by simp
  qed
  then show "\<not> HasPrefix (p @ body) ''#''" by (simp add: HasPrefix_single)
qed

section \<open>What a file loads to\<close>

definition entries :: "string list \<Rightarrow> string list" where
  "entries ls = filter (\<lambda>l. l \<noteq> [] \<and> \<not> HasPrefix l ''#'') (map TrimSpace ls)"

lemma load_lines_ok:
  "load_lines ls S = Inr S' \<Longrightarrow>
   S' = S \<union> {t. \<exists>l\<in>set (entries ls). normalizeSerial l = Inr t} \<and>
   (\<forall>l\<in>set (entries ls). is_ok (normalizeSerial l))"
proof (induction ls S rule: load_lines.induct)
  case (2 l ls S)
  let ?line = "TrimSpace l"
  show ?case
  proof (cases "?line = [] \<or> HasPrefix ?line ''#''")
    case True
    have "load_lines ls S = Inr S'" using "2.prems" True by (simp add: Let_def)
    from "2.IH"(1) [OF refl True this] have "S' = S \<union> {t. \<exists>l\<in>set (entries ls). normalizeSerial l = Inr t} \<and>
      (\<forall>l\<in>set (entries ls). is_ok (normalizeSerial l))" .
    moreover have "entries (l # ls) = entries ls" using True by (auto simp: entries_def)
    ultimately show ?thesis by simp
  next
    case False
    then obtain t where t: "normalizeSerial ?line = Inr t" "load_lines ls (insert t S) = Inr S'"
      using "2.prems" by (simp add: Let_def split: sum.splits)
    have "S' = insert t S \<union> {t. \<exists>l\<in>set (entries ls). normalizeSerial l = Inr t} \<and>
      (\<forall>l\<in>set (entries ls). is_ok (normalizeSerial l))"
      using "2.IH"(2) [OF refl False t(1) t(2)] .
    moreover have "entries (l # ls) = ?line # entries ls" using False by (simp add: entries_def)
    ultimately show ?thesis using t(1) by auto
  qed
qed (simp add: entries_def)

lemma LoadRevokedSerials_ok:
  assumes "LoadRevokedSerials w path = Inr S" and "path \<noteq> []"
  obtains got where "os_read w path = ReadAll got" and "snd (scan_lines got) = False"
    and "S = {t. \<exists>l\<in>set (entries (fst (scan_lines got))). normalizeSerial l = Inr t}"
  using assms load_lines_ok [of _ "{}" S]
  by (auto simp: LoadRevokedSerials_def split: read_result.splits sum.splits if_splits)

text \<open>Complete lines come back from the scanner as they were written.\<close>

definition unlines :: "string list \<Rightarrow> string" where
  "unlines ls = concat (map (\<lambda>l. l @ [CHR 0x0A]) ls)"

definition scannable :: "string \<Rightarrow> bool" where
  "scannable l \<longleftrightarrow> CHR 0x0A \<notin> set l \<and> length l < max_token \<and> (l = [] \<or> last l \<noteq> CHR 0x0D)"

lemma scan_unlines: "list_all scannable ls \<Longrightarrow> scan_lines (unlines ls) = (ls, False)"
proof (induction ls)
  case Nil
  then show ?case by (simp add: unlines_def scan_lines.simps)
next
  case (Cons l ls)
  let ?P = "\<lambda>c. c \<noteq> CHR 0x0A"
  have l: "scannable l" using Cons.prems by simp
  then have "\<forall>c\<in>set l. ?P c" by (auto simp: scannable_def)
  then have t: "takeWhile ?P (l @ CHR 0x0A # unlines ls) = l"
    and d: "dropWhile ?P (l @ CHR 0x0A # unlines ls) = CHR 0x0A # unlines ls"
    by (simp_all add: takeWhile_append2 dropWhile_append2)
  have u: "unlines (l # ls) = l @ CHR 0x0A # unlines ls" by (simp add: unlines_def)
  have "scan_lines (l @ CHR 0x0A # unlines ls) = (drop_cr l # ls, False)"
    by (subst scan_lines.simps) (use Cons l in \<open>simp add: t d Let_def scannable_def\<close>)
  moreover have "drop_cr l = l" using l by (auto simp: drop_cr_def scannable_def)
  ultimately show ?case using u by simp
qed

section \<open>The denylist interface\<close>

text \<open>
  What the handshake callback and the request handlers rely on: a check answers membership in
  a set, and asking does not change the answers as long as the file does not change.
\<close>

fun chk_all :: "('w \<Rightarrow> 'r \<Rightarrow> string \<Rightarrow> bool \<times> 'r) \<Rightarrow> 'w \<Rightarrow> 'r \<Rightarrow> string list \<Rightarrow> bool list \<times> 'r" where
  "chk_all chk w r [] = ([], r)"
| "chk_all chk w r (s # ss) =
     (let (b, r1) = chk w r s; (bs, r2) = chk_all chk w r1 ss in (b # bs, r2))"

locale denylist =
  fixes chk :: "'w \<Rightarrow> 'r \<Rightarrow> string \<Rightarrow> bool \<times> 'r"
    and bad :: "'w \<Rightarrow> 'r \<Rightarrow> string set"
  assumes chk_verdict: "fst (chk w r s) \<longleftrightarrow> s \<in> bad w r"
    and chk_stable: "bad w (snd (chk w r s)) = bad w r"
begin

lemma chk_all_verdicts:
  "fst (chk_all chk w r ss) = map (\<lambda>s. s \<in> bad w r) ss \<and> bad w (snd (chk_all chk w r ss)) = bad w r"
proof (induction ss arbitrary: r)
  case (Cons s ss)
  then show ?case
    using chk_verdict [of w r s] chk_stable [of w r s] by (auto simp: split_beta Let_def)
qed simp

lemma chk_twice: "fst (chk w (snd (chk w r s)) s') \<longleftrightarrow> s' \<in> bad w r"
  by (simp add: chk_verdict chk_stable)

end

definition denied :: "fs \<Rightarrow> RevocationList \<Rightarrow> string set" where
  "denied w r = rl_serials (reload w w r)"

lemma reload_path [simp]: "rl_path (reload w1 w2 r) = rl_path r"
  by (simp add: reload_def split: option.splits sum.splits)

lemma reload_again: "reload w w (reload w w r) = reload w w r"
proof (cases "os_stat w (rl_path r)")
  case (Some st)
  show ?thesis
  proof (cases "st = (rl_modTime r, rl_size r)")
    case True
    then have "reload w w r = r" using Some by (simp add: reload_def)
    then show ?thesis by simp
  next
    case False
    show ?thesis
    proof (cases "LoadRevokedSerials w (rl_path r)")
      case (Inl e)
      then have "reload w w r = r" using Some by (cases st) (simp add: reload_def)
      then show ?thesis by simp
    next
      case (Inr S)
      then show ?thesis using Some False by (cases st) (auto simp: reload_def)
    qed
  qed
qed (simp add: reload_def)

interpretation revocation: denylist "\<lambda>w. IsRevoked w w" denied
  by unfold_locales (simp_all add: IsRevoked_def Let_def denied_def reload_again)

section \<open>Checks against a file that changes over time\<close>

text \<open>\<open>hist t\<close> is the file system at time \<open>t\<close>; a check is the times of its \<open>os.Stat\<close> and of its read.\<close>

fun run_checks :: "(nat \<Rightarrow> fs) \<Rightarrow> (nat \<times> nat) list \<Rightarrow> RevocationList \<Rightarrow> RevocationList" where
  "run_checks hist [] r = r"
| "run_checks hist ((a, b) # cs) r = run_checks hist cs (reload (hist a) (hist b) r)"

fun in_order :: "nat \<Rightarrow> (nat \<times> nat) list \<Rightarrow> bool" where
  "in_order t [] = True"
| "in_order t ((a, b) # cs) = (t \<le> a \<and> a \<le> b \<and> in_order b cs)"

text \<open>The stamp was taken before the serials were read, and not later than \<open>t\<close>.\<close>

definition synced :: "(nat \<Rightarrow> fs) \<Rightarrow> nat \<Rightarrow> RevocationList \<Rightarrow> bool" where
  "synced hist t r \<longleftrightarrow>
     (\<exists>s u. s \<le> u \<and> u \<le> t \<and> os_stat (hist s) (rl_path r) = Some (rl_modTime r, rl_size r) \<and>
        LoadRevokedSerials (hist u) (rl_path r) = Inr (rl_serials r))"

lemma synced_mono: "synced hist t r \<Longrightarrow> t \<le> t' \<Longrightarrow> synced hist t' r"
  unfolding synced_def by (meson le_trans)

lemma synced_reload:
  assumes "synced hist t r" and "t \<le> a" and "a \<le> b"
  shows "synced hist b (reload (hist a) (hist b) r)"
proof (cases "reload (hist a) (hist b) r = r")
  case True
  then show ?thesis using synced_mono [OF assms(1), of b] assms by simp
next
  case False
  then obtain m n S where "os_stat (hist a) (rl_path r) = Some (m, n)"
    and "LoadRevokedSerials (hist b) (rl_path r) = Inr S"
    and "reload (hist a) (hist b) r = r\<lparr>rl_serials := S, rl_modTime := m, rl_size := n\<rparr>"
    by (auto simp: reload_def split: option.splits sum.splits if_splits)
  then show ?thesis unfolding synced_def using assms(3) by (intro exI [of _ a] exI [of _ b]) simp
qed

text \<open>The end of the last check before a given one, or else of the start.\<close>

definition last_end :: "nat \<Rightarrow> (nat \<times> nat) list \<Rightarrow> nat" where
  "last_end t cs = (if cs = [] then t else snd (last cs))"

lemma in_order_snoc: "in_order t (cs @ [(a, b)]) \<Longrightarrow> in_order t cs \<and> last_end t cs \<le> a \<and> a \<le> b"
  by (induction t cs rule: in_order.induct) (auto simp: last_end_def)

lemma synced_run: "synced hist t r \<Longrightarrow> in_order t cs \<Longrightarrow> synced hist (last_end t cs) (run_checks hist cs r)"
proof (induction cs arbitrary: t r)
  case (Cons c cs)
  obtain x y where c: "c = (x, y)" by fastforce
  with Cons.prems have "synced hist y (reload (hist x) (hist y) r)"
    using synced_reload by auto
  from Cons.IH [OF this] Cons.prems c show ?case by (auto simp: last_end_def)
qed (simp add: last_end_def)

lemma synced_start:
  assumes "NewRevocationList (hist t0) (hist t1) path = Inr (Some r)" and "t0 \<le> t1"
    and "os_stat (hist t0) path = os_stat (hist t1) path" and "os_stat (hist t1) path \<noteq> None"
  shows "synced hist t1 r" and "rl_path r = path"
proof -
  obtain m n where st: "os_stat (hist t1) path = Some (m, n)" using assms(4) by auto
  obtain S where S: "path \<noteq> []" "LoadRevokedSerials (hist t0) path = Inr S"
    "r = \<lparr>rl_path = path, rl_serials = S, rl_modTime = m, rl_size = n\<rparr>"
    using assms(1) st by (auto simp: NewRevocationList_def split: if_splits sum.splits)
  then show "rl_path r = path" by simp
  show "synced hist t1 r" unfolding synced_def using S st assms(2,3) by (intro exI [of _ t0]) simp
qed

text \<open>
  One check of a list in step: it reads the file, or answers from a read before which the file
  already had the stamp it has now.
\<close>

lemma synced_check:
  assumes sync: "synced hist t r" and stat: "os_stat (hist a) (rl_path r) = Some st"
    and load: "is_ok (LoadRevokedSerials (hist b) (rl_path r))"
  shows "\<exists>v. LoadRevokedSerials (hist v) (rl_path r) = Inr (rl_serials (reload (hist a) (hist b) r)) \<and>
    (v = b \<or> v \<le> t \<and> (\<exists>u\<le>v. os_stat (hist u) (rl_path r) = Some st))"
proof (cases "st = (rl_modTime r, rl_size r)")
  case True
  then have "reload (hist a) (hist b) r = r" using stat by (simp add: reload_def)
  then show ?thesis using sync True unfolding synced_def by auto
next
  case False
  obtain S where "LoadRevokedSerials (hist b) (rl_path r) = Inr S" using load by blast
  then show ?thesis using stat False by (cases st) (auto simp: reload_def)
qed

lemma run_checks_path [simp]: "rl_path (run_checks hist cs r) = rl_path r"
  by (induction hist cs r rule: run_checks.induct) simp_all

lemma failed_check_keeps_list:
  assumes "os_stat w_stat (rl_path r) = None \<or> \<not> is_ok (LoadRevokedSerials w_load (rl_path r))"
  shows "reload w_stat w_load r = r"
  using assms by (auto simp: reload_def split: option.splits sum.splits)

section \<open>A file with one entry, for examples\<close>

definition listing_fs :: "int \<Rightarrow> string list \<Rightarrow> fs" where
  "listing_fs mtime ls =
     \<lparr>os_stat = (\<lambda>path. Some (mtime, int (length (unlines ls)))), os_read = (\<lambda>path. ReadAll (unlines ls))\<rparr>"

definition empty_list :: RevocationList where
  "empty_list = \<lparr>rl_path = ''/revoked.txt'', rl_serials = {}, rl_modTime = 1, rl_size = 0\<rparr>"

lemma load_empty: "path \<noteq> [] \<Longrightarrow> LoadRevokedSerials (listing_fs m []) path = Inr {}"
  by (simp add: LoadRevokedSerials_def listing_fs_def unlines_def scan_lines.simps)

lemma lower_serial: "map ascii_lower ''SERIAL='' = ''serial=''"
  by code_simp

lemma cafe_format:
  "map ascii_lower ''SERIAL='' \<in> set serial_prefixes" "list_all visible ''SERIAL=''"
  "hex_parse 0 (serial_digits ''00:CA FE'') = Some 51966" "serial_digits ''00:CA FE'' \<noteq> []"
  "scannable '' SERIAL=00:CA FE''"
  by (simp_all only: lower_serial) (simp_all add: serial_prefixes_def visible_def is_ascii_def ascii_spaces_def
      serial_digits_def separator_def hex_val_def scannable_def max_token_def)

lemma cafe_entry:
  "TrimSpace '' SERIAL=00:CA FE'' = ''SERIAL=00:CA FE''" "\<not> HasPrefix ''SERIAL=00:CA FE'' ''#''"
  "normalizeSerial ''SERIAL=00:CA FE'' = Inr (Text16 51966)"
  using format_trim [of "'' ''" "[]" "''SERIAL=''" "''00:CA FE''" 51966] cafe_format
    normalizeSerial_format [of "[]" "[]" "''SERIAL=''" "''00:CA FE''" 51966]
  by (simp_all add: ascii_spaces_def)

lemma load_cafe:
  "path \<noteq> [] \<Longrightarrow> LoadRevokedSerials (listing_fs m ['' SERIAL=00:CA FE'']) path = Inr {Text16 51966}"
  using scan_unlines [of "['' SERIAL=00:CA FE'']"] cafe_format(5) cafe_entry
  by (simp add: LoadRevokedSerials_def listing_fs_def)

section \<open>Properties\<close>

text \<open>
  C17. A serial written on a line of the list in any of the accepted formats (any case, colons
  or spaces between digits, a \<open>serial=\<close> or \<open>0x\<close> prefix, white space around it) is refused
  at the next check after the file's stamp changed, whatever else the file lists, as long as
  the file loads: the certificate with that serial number is reported revoked.
\<close>

theorem listed_serial_is_denied:
  assumes contents: "os_read w_load (rl_path r) = ReadAll (unlines ls)" "list_all scannable ls"
    and loads: "is_ok (LoadRevokedSerials w_load (rl_path r))" "rl_path r \<noteq> []"
    and changed: "os_stat w_stat (rl_path r) = Some st" "st \<noteq> (rl_modTime r, rl_size r)"
    and line: "List.member ls (u @ p @ body @ v)"
    and ws: "set u \<subseteq> set ascii_spaces" "set v \<subseteq> set ascii_spaces"
    and pre: "List.member serial_prefixes (map ascii_lower p)" "list_all visible p"
    and body: "body \<noteq> []" "hd body \<noteq> CHR '' ''" "last body \<noteq> CHR '' ''"
    and val: "hex_parse 0 (serial_digits body) = Some n" "serial_digits body \<noteq> []"
    and cert: "SerialNumber cert = int n"
  shows "fst (IsRevoked w_stat w_load r (serialOf cert))"
proof -
  from loads obtain S where S: "LoadRevokedSerials w_load (rl_path r) = Inr S" by blast
  have pre': "map ascii_lower p \<in> set serial_prefixes" using pre(1) by simp
  have "p @ body \<in> set (entries ls)"
    unfolding entries_def using line body format_trim [OF ws pre' pre(2) body val(1)]
    by (auto intro!: rev_image_eqI)
  moreover have "normalizeSerial (p @ body) = Inr (serialOf cert)"
    using normalizeSerial_format [OF _ _ pre' pre(2) body val, of "[]" "[]"] cert
    by (simp add: serialOf_def)
  ultimately have "serialOf cert \<in> S"
    using LoadRevokedSerials_ok [OF S loads(2)] contents scan_unlines [OF contents(2)] by fastforce
  moreover have "rl_serials (reload w_stat w_load r) = S"
    using changed S by (cases st) (auto simp: reload_def)
  ultimately show ?thesis by (simp add: IsRevoked_def Let_def)
qed

theorem listed_serial_is_denied_witness:
  "fst (IsRevoked (listing_fs 2 ['' SERIAL=00:CA FE'']) (listing_fs 2 ['' SERIAL=00:CA FE'']) empty_list
     (serialOf \<lparr>SerialNumber = 51966, CommonName = ''phone'', OrganizationalUnit = []\<rparr>))"
proof (rule listed_serial_is_denied [where u = "'' ''" and p = "''SERIAL=''" and body = "''00:CA FE''"
      and v = "[]" and n = 51966 and st = "(2, 17)" and ls = "['' SERIAL=00:CA FE'']"])
  show "is_ok (LoadRevokedSerials (listing_fs 2 ['' SERIAL=00:CA FE'']) (rl_path empty_list))"
    using load_cafe [of "rl_path empty_list" 2] by (simp add: empty_list_def)
qed (use cafe_format in \<open>simp_all add: empty_list_def listing_fs_def ascii_spaces_def unlines_def\<close>)

text \<open>
  C19. How fresh a verdict is. Let the list be made at start-up, with the file's stamp (time and
  size) the same at the load and at the stat after it. Then for any sequence of checks and any
  rewriting of the file before, between and during them, each check that finds the file there and
  loadable answers for the contents of its own read, unless the file already had the stamp it
  has at this check before some earlier read: then it answers for the contents of that read. So a
  serial that comes with a stamp the file never had before is refused at the very next check.
\<close>

theorem verdicts_follow_the_stamp:
  assumes start: "NewRevocationList (hist t0) (hist t1) path = Inr (Some r)" "t0 \<le> t1"
    and unwritten: "os_stat (hist t0) path = os_stat (hist t1) path" "os_stat (hist t1) path \<noteq> None"
    and order: "in_order t1 (cs @ [(a, b)])"
    and there: "os_stat (hist a) path = Some st" and loads: "is_ok (LoadRevokedSerials (hist b) path)"
  shows "\<exists>v S. LoadRevokedSerials (hist v) path = Inr S \<and>
    (fst (IsRevoked (hist a) (hist b) (run_checks hist cs r) serial) \<longleftrightarrow> serial \<in> S) \<and>
    (v = b \<or> v \<le> last_end t1 cs \<and> (\<exists>u\<le>v. os_stat (hist u) path = Some st))"
proof -
  let ?r = "run_checks hist cs r"
  note begun = synced_start [OF start unwritten]
  have "synced hist (last_end t1 cs) ?r" using synced_run [OF begun(1)] in_order_snoc [OF order] by blast
  from synced_check [OF this, of a st b] there loads begun(2) obtain v where
    "LoadRevokedSerials (hist v) path = Inr (rl_serials (reload (hist a) (hist b) ?r))"
    "v = b \<or> v \<le> last_end t1 cs \<and> (\<exists>u\<le>v. os_stat (hist u) path = Some st)" by auto
  then show ?thesis
    by (intro exI [of _ v] exI [of _ "rl_serials (reload (hist a) (hist b) ?r)"]) (simp add: IsRevoked_def Let_def)
qed

text \<open>A file that is empty at first, and written between two checks.\<close>

definition written_at_3 :: "nat \<Rightarrow> fs" where
  "written_at_3 t = (if t < 3 then listing_fs 1 [] else listing_fs 2 ['' SERIAL=00:CA FE''])"

theorem verdicts_follow_the_stamp_witness:
  "\<exists>r. NewRevocationList (written_at_3 0) (written_at_3 0) ''/r'' = Inr (Some r) \<and>
    \<not> fst (IsRevoked (written_at_3 1) (written_at_3 2) r (Text16 51966)) \<and>
    fst (IsRevoked (written_at_3 4) (written_at_3 5) (run_checks written_at_3 [(1, 2)] r) (Text16 51966))"
proof -
  let ?r = "\<lparr>rl_path = ''/r'', rl_serials = {}, rl_modTime = 1, rl_size = 0\<rparr>"
  have stat: "os_stat (written_at_3 t) path = Some (if t < 3 then (1, 0) else (2, 17))" for t path
    by (simp add: written_at_3_def listing_fs_def unlines_def)
  have load: "LoadRevokedSerials (written_at_3 t) ''/r'' = Inr (if t < 3 then {} else {Text16 51966})" for t
    using load_empty [of "''/r''" 1] load_cafe [of "''/r''" 2] by (simp add: written_at_3_def)
  have start: "NewRevocationList (written_at_3 0) (written_at_3 0) ''/r'' = Inr (Some ?r)"
    by (simp add: NewRevocationList_def stat load)
  have first: "os_stat (written_at_3 1) ''/r'' = Some (1, 0)" "is_ok (LoadRevokedSerials (written_at_3 2) ''/r'')"
    and second: "os_stat (written_at_3 4) ''/r'' = Some (2, 17)" "is_ok (LoadRevokedSerials (written_at_3 5) ''/r'')"
    and there: "os_stat (written_at_3 0) ''/r'' \<noteq> None"
    by (simp_all add: stat load)
  have "in_order 0 ([] @ [(1, 2)])" "in_order 0 ([(1, 2)] @ [(4, 5)])" by simp_all
  note verdict = verdicts_follow_the_stamp [where hist = written_at_3, OF start order_refl refl there]
  have "\<not> fst (IsRevoked (written_at_3 1) (written_at_3 2) (run_checks written_at_3 [] ?r) (Text16 51966))"
    using verdict [OF \<open>in_order 0 ([] @ [(1, 2)])\<close> first, of "Text16 51966"] by (auto simp: load last_end_def)
  moreover have "fst (IsRevoked (written_at_3 4) (written_at_3 5) (run_checks written_at_3 [(1, 2)] ?r) (Text16 51966))"
    using verdict [OF \<open>in_order 0 ([(1, 2)] @ [(4, 5)])\<close> second, of "Text16 51966"]
    by (auto simp: load stat last_end_def split: if_splits)
  ultimately show ?thesis using start by (intro exI [of _ ?r]) simp
qed

text \<open>
  C20. An outage of the file never switches revocation off: over any number of checks that cannot
  stat or cannot load it (removed, truncated mid-edit, a bad line), the list stays as it was, the
  stamp included, and answers from the last good set; the first check that finds a changed file
  and can load it answers from its contents.
\<close>

theorem failed_reload_keeps_last_good_set:
  assumes "list_all (\<lambda>(a, b). os_stat (hist a) (rl_path r) = None \<or>
      \<not> is_ok (LoadRevokedSerials (hist b) (rl_path r))) cs"
  shows "run_checks hist cs r = r \<and>
    (\<forall>a b serial st S. os_stat (hist a) (rl_path r) = Some st \<and> st \<noteq> (rl_modTime r, rl_size r) \<and>
       LoadRevokedSerials (hist b) (rl_path r) = Inr S \<longrightarrow>
       (fst (IsRevoked (hist a) (hist b) (run_checks hist cs r) serial) \<longleftrightarrow> serial \<in> S))"
proof -
  have "run_checks hist cs r = r"
    using assms by (induction cs) (auto simp: failed_check_keeps_list)
  then show ?thesis by (auto simp: IsRevoked_def reload_def Let_def)
qed

theorem failed_reload_keeps_last_good_set_witness:
  "let hist = (\<lambda>t. if t < (2::nat) then \<lparr>os_stat = (\<lambda>path. None), os_read = (\<lambda>path. OpenFailed)\<rparr> else listing_fs 1 []);
       r = empty_list\<lparr>rl_serials := {''cafe''}, rl_modTime := 7\<rparr>
   in run_checks hist [(0, 1), (1, 1)] r = r \<and> fst (IsRevoked (hist 0) (hist 1) r ''cafe'') \<and>
      \<not> fst (IsRevoked (hist 2) (hist 3) (run_checks hist [(0, 1), (1, 1)] r) ''cafe'')"
proof -
  let ?hist = "\<lambda>t. if t < (2::nat) then \<lparr>os_stat = (\<lambda>path. None), os_read = (\<lambda>path. OpenFailed)\<rparr> else listing_fs 1 []"
  let ?r = "empty_list\<lparr>rl_serials := {''cafe''}, rl_modTime := 7\<rparr>"
  have fails: "list_all (\<lambda>(a, b). os_stat (?hist a) (rl_path ?r) = None \<or>
      \<not> is_ok (LoadRevokedSerials (?hist b) (rl_path ?r))) [(0, 1), (1, 1)]" by simp
  note outage = failed_reload_keeps_last_good_set [where hist = ?hist and r = ?r, OF fails]
  have "run_checks ?hist [(0, 1), (1, 1)] ?r = ?r" using outage by blast
  moreover have "fst (IsRevoked (?hist 0) (?hist 1) ?r ''cafe'')"
    by (simp add: IsRevoked_def failed_check_keeps_list)
  moreover have "os_stat (?hist 2) (rl_path ?r) = Some (1, 0)" "LoadRevokedSerials (?hist 3) (rl_path ?r) = Inr {}"
    using load_empty [of "rl_path empty_list" 1] by (simp_all add: listing_fs_def unlines_def empty_list_def)
  then have "\<not> fst (IsRevoked (?hist 2) (?hist 3) (run_checks ?hist [(0, 1), (1, 1)] ?r) ''cafe'')"
    using outage [THEN conjunct2, rule_format, of 2 "(1, 0)" 3 "{}" "''cafe''"] by (simp add: empty_list_def)
  ultimately show ?thesis by (simp add: Let_def)
qed

text \<open>
  C21. A finding: \<open>NewRevocationList\<close> loads the file before it stats it, the opposite of
  \<open>IsRevoked\<close>. A write between the two is recorded as already seen: the list holds the old
  serials under the new stamp and every later check, for as long as the file stays, answers
  from the old contents, however many serials the new contents list.
\<close>

theorem startup_write_goes_unnoticed:
  assumes "LoadRevokedSerials w0 path = Inr S0" and "path \<noteq> []" and "os_stat w1 path = Some (m, n)"
  shows "\<exists>r. NewRevocationList w0 w1 path = Inr (Some r) \<and>
    (\<forall>ss. chk_all (\<lambda>w. IsRevoked w w) w1 r ss = (map (\<lambda>s. s \<in> S0) ss, r))"
proof -
  let ?r = "\<lparr>rl_path = path, rl_serials = S0, rl_modTime = m, rl_size = n\<rparr>"
  have "IsRevoked w1 w1 ?r s = (s \<in> S0, ?r)" for s
    using assms(3) by (simp add: IsRevoked_def reload_def Let_def)
  then have "chk_all (\<lambda>w. IsRevoked w w) w1 ?r ss = (map (\<lambda>s. s \<in> S0) ss, ?r)" for ss
    by (induction ss) simp_all
  then show ?thesis using assms by (intro exI [of _ ?r]) (simp add: NewRevocationList_def)
qed

theorem startup_write_goes_unnoticed_witness:
  "\<exists>r. NewRevocationList (listing_fs 1 []) (listing_fs 2 ['' SERIAL=00:CA FE'']) ''/r'' = Inr (Some r) \<and>
    (\<forall>ss. chk_all (\<lambda>w. IsRevoked w w) (listing_fs 2 ['' SERIAL=00:CA FE'']) r ss = (map (\<lambda>s. s \<in> {}) ss, r)) \<and>
    LoadRevokedSerials (listing_fs 2 ['' SERIAL=00:CA FE'']) ''/r'' = Inr {Text16 51966}"
proof -
  have "\<exists>r. NewRevocationList (listing_fs 1 []) (listing_fs 2 ['' SERIAL=00:CA FE'']) ''/r'' = Inr (Some r) \<and>
    (\<forall>ss. chk_all (\<lambda>w. IsRevoked w w) (listing_fs 2 ['' SERIAL=00:CA FE'']) r ss = (map (\<lambda>s. s \<in> {}) ss, r))"
    by (rule startup_write_goes_unnoticed [OF load_empty, where m = 2 and n = 17])
      (simp_all add: listing_fs_def unlines_def)
  then show ?thesis using load_cafe [of "''/r''" 2] by simp
qed

text \<open>
  The handshake callback refuses a connection exactly when no verified chain is there or
  the leaf of the first one is on the denylist, reports a missing chain as an error that is
  not \<open>ErrRevoked\<close>, and is absent exactly when revocation is not configured.
\<close>

theorem handshake_refuses_revoked_leaf:
  "(verifyNotRevoked revocation = None \<longleftrightarrow> revocation = None) \<and>
   fst (verify_connection w w r cs) =
     (case VerifiedChains cs of
        (leaf # ls) # lss \<Rightarrow>
          if serialOf leaf \<in> denied w r then Some (ErrRevoked (serialOf leaf) (CommonName leaf)) else None
      | _ \<Rightarrow> Some ErrNoVerifiedChain) \<and>
   \<not> is_revoked_error ErrNoVerifiedChain"
  using revocation.chk_verdict [of w r]
  by (auto simp: verifyNotRevoked_def verify_connection_def split_beta split: option.splits list.splits)

section \<open>A written list\<close>

text \<open>
  The two ways the serial of a certificate gets into the file: as the proxy renders it, or as
  \<open>openssl x509 -noout -serial\<close> prints it, in upper case bytes behind \<open>serial=\<close>.
\<close>

definition ascii_upper :: "char \<Rightarrow> char" where
  "ascii_upper c =
     (if 97 \<le> (of_char c :: nat) \<and> (of_char c :: nat) \<le> 122 then char_of ((of_char c :: nat) - 32) else c)"

definition openssl_digits :: "string \<Rightarrow> string" where
  "openssl_digits s = map ascii_upper (if odd (length s) then CHR ''0'' # s else s)"

definition serial_line :: "bool \<times> certificate \<Rightarrow> string" where
  "serial_line e =
     (if fst e then ''serial='' @ openssl_digits (serialOf (snd e)) else serialOf (snd e))"

definition x509_serial :: "certificate \<Rightarrow> bool" where
  "x509_serial cert \<longleftrightarrow> 0 \<le> SerialNumber cert \<and> SerialNumber cert < 2 ^ 160"

lemma hex_upper_table: "map ascii_upper hex_lower = ''0123456789ABCDEF''"
  by code_simp

lemma hex_val_upper: "c \<in> set hex_lower \<Longrightarrow> hex_val (ascii_upper c) = hex_val c"
  and hex_lower_chars: "c \<in> set hex_lower \<Longrightarrow> \<not> separator c \<and> \<not> separator (ascii_upper c) \<and>
   c \<noteq> CHR 0x0A \<and> ascii_upper c \<noteq> CHR 0x0A \<and> c \<noteq> CHR 0x0D \<and> ascii_upper c \<noteq> CHR 0x0D"
  using hex_upper_table by (auto simp: hex_lower_def hex_val_def separator_def)

lemma hex_parse_upper:
  "set s \<subseteq> set hex_lower \<Longrightarrow> hex_parse acc (map ascii_upper s) = hex_parse acc s"
  by (induction acc s rule: hex_parse.induct) (auto simp: hex_val_upper split: option.splits)

text \<open>A line with the digits of a serial: it scans as one line and normalizes to the serial.\<close>

lemma digit_line:
  assumes p: "p = [] \<or> p = ''serial=''" and b: "body \<noteq> []" "length body \<le> 41"
    and c: "\<And>c. c \<in> set body \<Longrightarrow> \<not> separator c \<and> c \<noteq> CHR 0x0A \<and> c \<noteq> CHR 0x0D"
    and val: "hex_parse 0 body = Some n"
  shows "scannable (p @ body)" and "TrimSpace (p @ body) = p @ body" and "\<not> HasPrefix (p @ body) ''#''"
    and "normalizeSerial (p @ body) = Inr (Text16 (int n))"
proof -
  have digits: "serial_digits body = body" using c by (auto simp: serial_digits_def)
  have pre: "map ascii_lower p \<in> set serial_prefixes" "list_all visible p"
    using p by (auto simp: serial_prefixes_def ascii_lower_def visible_def is_ascii_def ascii_spaces_def)
  have ends: "hd body \<noteq> CHR '' ''" "last body \<noteq> CHR '' ''"
    using c [of "hd body"] c [of "last body"] b(1) by (auto simp: separator_def)
  show "TrimSpace (p @ body) = p @ body" "\<not> HasPrefix (p @ body) ''#''"
    using format_trim [of "[]" "[]" p body n] pre b(1) ends val digits by simp_all
  show "normalizeSerial (p @ body) = Inr (Text16 (int n))"
    using normalizeSerial_format [of "[]" "[]" p body n] pre b(1) ends val digits by simp
  show "scannable (p @ body)"
    using p b c [of "last body"] c by (auto simp: scannable_def max_token_def)
qed

lemma serial_line_digits:
  assumes "x509_serial (snd e)"
  shows "scannable (serial_line e)" and "TrimSpace (serial_line e) = serial_line e"
    and "\<not> HasPrefix (serial_line e) ''#''" and "serial_line e \<noteq> []"
    and "normalizeSerial (serial_line e) = Inr (serialOf (snd e))"
proof -
  let ?n = "nat (SerialNumber (snd e))" and ?s = "serialOf (snd e)"
  have s: "?s = radix_text 16 ?n" "int ?n = SerialNumber (snd e)"
    using assms by (simp_all add: serialOf_def Text16_def x509_serial_def)
  have lower: "set ?s \<subseteq> set hex_lower" using radix_text_lower s(1) by simp
  have "nat (SerialNumber (snd e)) < 16 ^ 40" using assms by (simp add: x509_serial_def nat_less_iff)
  then have len: "length ?s \<le> 40" unfolding s(1) by (intro radix_text_length) simp_all
  let ?b = "openssl_digits ?s"
  have zero: "CHR ''0'' \<in> set hex_lower" "hex_val (CHR ''0'') = Some 0" by (simp_all add: hex_lower_def hex_val_def)
  have val: "hex_parse 0 ?s = Some ?n" unfolding s(1) by (rule hex_parse_text)
  have padded: "set (if odd (length ?s) then CHR ''0'' # ?s else ?s) \<subseteq> set hex_lower"
    using lower zero(1) by auto
  have valb: "hex_parse 0 ?b = Some ?n"
    using hex_parse_upper [OF padded, of 0] val zero(2) by (simp add: openssl_digits_def split: if_splits)
  have rendered: "Text16 (int ?n) = ?s" using s(2) by (simp add: serialOf_def)
  have chars: "\<not> separator c \<and> c \<noteq> CHR 0x0A \<and> c \<noteq> CHR 0x0D" if "c \<in> set ?s" for c
    using hex_lower_chars lower that by blast
  have charsb: "\<not> separator c \<and> c \<noteq> CHR 0x0A \<and> c \<noteq> CHR 0x0D" if c: "c \<in> set ?b" for c
  proof -
    from c have "c \<in> ascii_upper ` set (if odd (length ?s) then CHR ''0'' # ?s else ?s)"
      by (simp only: openssl_digits_def set_map)
    then obtain d where d: "c = ascii_upper d" "d \<in> set (if odd (length ?s) then CHR ''0'' # ?s else ?s)"
      by (rule imageE)
    from hex_lower_chars [OF subsetD [OF padded d(2)]] show ?thesis by (simp only: d(1) simp_thms)
  qed
  have lenb: "length ?b \<le> 41" "?b \<noteq> []" using len s(1) by (simp_all add: openssl_digits_def)
  have ne: "?s \<noteq> []" "length ?s \<le> 41" using len s(1) by simp_all
  have "scannable (serial_line e) \<and> TrimSpace (serial_line e) = serial_line e \<and>
    \<not> HasPrefix (serial_line e) ''#'' \<and> serial_line e \<noteq> [] \<and> normalizeSerial (serial_line e) = Inr ?s"
  proof (cases "fst e")
    case True
    then have l: "serial_line e = ''serial='' @ ?b" by (simp only: serial_line_def if_True)
    show ?thesis unfolding l
      using digit_line [OF disjI2 [OF refl] lenb(2,1) charsb valb, unfolded rendered] lenb(2) by blast
  next
    case False
    then have l: "serial_line e = [] @ ?s" by (simp only: serial_line_def if_False append_Nil)
    show ?thesis unfolding l
      using digit_line [OF disjI1 [OF refl] ne chars val, unfolded rendered] ne(1) by blast
  qed
  then show "scannable (serial_line e)" "TrimSpace (serial_line e) = serial_line e"
    "\<not> HasPrefix (serial_line e) ''#''" "serial_line e \<noteq> []" "normalizeSerial (serial_line e) = Inr ?s"
    by blast+
qed

lemma load_lines_written:
  "list_all (\<lambda>e. x509_serial (snd e)) es \<Longrightarrow>
   load_lines (map serial_line es) S = Inr (S \<union> (serialOf \<circ> snd) ` set es)"
proof (induction es arbitrary: S)
  case (Cons e es)
  then show ?case using serial_line_digits [of e] by (simp add: Let_def)
qed simp

text \<open>
  C18. Round trip of the denylist: a file with one line per certificate, each as the proxy renders
  the serial or as openssl prints it (upper case, an even number of digits, \<open>serial=\<close> in front),
  loads, and what it loads to holds the canonical serial of a certificate exactly when a certificate
  with that serial number was written. No entry is lost, merged with another or misread.
\<close>

theorem written_list_denies_exactly_its_certificates:
  assumes "list_all (\<lambda>e. x509_serial (snd e)) es" and "path \<noteq> []"
    and "os_read w path = ReadAll (unlines (map serial_line es))"
  shows "\<exists>S. LoadRevokedSerials w path = Inr S \<and>
    (\<forall>cert. serialOf cert \<in> S \<longleftrightarrow> SerialNumber cert \<in> (SerialNumber \<circ> snd) ` set es)"
proof -
  have "list_all scannable (map serial_line es)"
    using assms(1) serial_line_digits(1) by (auto simp: list_all_iff)
  then have "LoadRevokedSerials w path = Inr ((serialOf \<circ> snd) ` set es)"
    using load_lines_written [OF assms(1), of "{}"] assms(2,3)
    by (simp add: LoadRevokedSerials_def scan_unlines)
  moreover have "serialOf cert \<in> (serialOf \<circ> snd) ` set es \<longleftrightarrow> SerialNumber cert \<in> (SerialNumber \<circ> snd) ` set es" for cert
    by (auto simp: serialOf_def Text16_inj image_iff)
  ultimately show ?thesis by blast
qed

definition lost_devices :: "(bool \<times> certificate) list" where
  "lost_devices =
     [(True, \<lparr>SerialNumber = 0xabc, CommonName = ''phone'', OrganizationalUnit = [OUDevice]\<rparr>),
      (False, \<lparr>SerialNumber = 7, CommonName = ''tablet'', OrganizationalUnit = [OUDevice]\<rparr>)]"

theorem written_list_denies_exactly_its_certificates_witness:
  "serial_line (hd lost_devices) = ''serial=0ABC'' \<and>
   (\<exists>S. LoadRevokedSerials (listing_fs 1 (map serial_line lost_devices)) ''/revoked.txt'' = Inr S \<and>
     (\<forall>cert. serialOf cert \<in> S \<longleftrightarrow> SerialNumber cert \<in> (SerialNumber \<circ> snd) ` set lost_devices))"
proof -
  have "list_all (\<lambda>e. x509_serial (snd e)) lost_devices" by (simp add: lost_devices_def x509_serial_def)
  moreover have "serial_line (hd lost_devices) = ''serial=0ABC''"
    by code_simp
  ultimately show ?thesis
    using written_list_denies_exactly_its_certificates [of lost_devices "''/revoked.txt''"] by (simp add: listing_fs_def)
qed

end
