(* ===== verification/Session_Registry.thy ===== *)
theory Session_Registry
  imports Revocation
begin

text \<open>
  \<^verbatim>\<open>SessionRegistry\<close> of \<^verbatim>\<open>remote.go\<close>. A yamux session is known by its identity (a number);
  the set of closed sessions is part of the world, as any goroutine and the peer can close one.
  \<open>Set\<close> is split at its lock: the swap is atomic, closing the replaced session comes after.
\<close>

type_synonym sid = nat

section \<open>Model\<close>

record SessionRegistry =
  reg_sess :: "sid option"
  reg_cert :: "certificate option"

definition NewSessionRegistry :: SessionRegistry where
  "NewSessionRegistry = \<lparr>reg_sess = None, reg_cert = None\<rparr>"

definition set_swap :: "SessionRegistry \<Rightarrow> sid \<Rightarrow> certificate option \<Rightarrow> sid option \<times> SessionRegistry" where
  "set_swap r sess cert = (reg_sess r, r\<lparr>reg_sess := Some sess, reg_cert := cert\<rparr>)"

definition set_close_old :: "sid option \<Rightarrow> sid set \<Rightarrow> bool \<times> sid set" where
  "set_close_old old closed =
     (case old of None \<Rightarrow> (False, closed) | Some s \<Rightarrow> (s \<notin> closed, insert s closed))"

definition RegSet ::
  "SessionRegistry \<Rightarrow> sid set \<Rightarrow> sid \<Rightarrow> certificate option \<Rightarrow> bool \<times> SessionRegistry \<times> sid set"
where
  "RegSet r closed sess cert =
     (let (old, r') = set_swap r sess cert; (replacedLive, closed') = set_close_old old closed
      in (replacedLive, r', closed'))"

definition RegGet :: "SessionRegistry \<Rightarrow> sid set \<Rightarrow> sid option" where
  "RegGet r closed =
     (case reg_sess r of None \<Rightarrow> None | Some s \<Rightarrow> if s \<in> closed then None else Some s)"

definition RegClear :: "SessionRegistry \<Rightarrow> sid \<Rightarrow> SessionRegistry" where
  "RegClear r sess = (if reg_sess r = Some sess then r\<lparr>reg_sess := None, reg_cert := None\<rparr> else r)"

text \<open>
  \<open>CloseCurrentIfRevoked\<close> after its snapshot of \<open>r.sess\<close> and \<open>r.cert\<close>: the rest runs
  outside the lock, on the snapshot.
\<close>

definition close_snapshot_if_revoked ::
  "fs \<Rightarrow> fs \<Rightarrow> RevocationList \<Rightarrow> sid option \<times> certificate option \<Rightarrow> sid set \<Rightarrow>
   bool \<times> sid set \<times> RevocationList"
where
  "close_snapshot_if_revoked w_stat w_load rl snap closed =
     (case snap of
        (Some sess, Some cert) \<Rightarrow>
          if sess \<in> closed then (False, closed, rl)
          else
            (let (bad, rl') = IsRevoked w_stat w_load rl (serialOf cert)
             in if bad then (True, insert sess closed, rl') else (False, closed, rl'))
      | _ \<Rightarrow> (False, closed, rl))"

definition CloseCurrentIfRevoked ::
  "fs \<Rightarrow> fs \<Rightarrow> SessionRegistry \<Rightarrow> RevocationList option \<Rightarrow> sid set \<Rightarrow>
   bool \<times> sid set \<times> RevocationList option"
where
  "CloseCurrentIfRevoked w_stat w_load r revocation closed =
     (case revocation of
        None \<Rightarrow> (False, closed, None)
      | Some rl \<Rightarrow>
          (let (hit, closed', rl') =
             close_snapshot_if_revoked w_stat w_load rl (reg_sess r, reg_cert r) closed
           in (hit, closed', Some rl')))"

section \<open>The slot it implements\<close>

text \<open>
  What the rest of the proxy sees: at most one live tunnel with its certificate. A session that
  is registered but closed does not count.
\<close>

definition live_tunnel :: "SessionRegistry \<times> sid set \<Rightarrow> (sid \<times> certificate option) option" where
  "live_tunnel st =
     (case reg_sess (fst st) of
        None \<Rightarrow> None
      | Some s \<Rightarrow> if s \<in> snd st then None else Some (s, reg_cert (fst st)))"

definition put :: "sid \<Rightarrow> certificate option \<Rightarrow> SessionRegistry \<times> sid set \<Rightarrow> bool \<times> SessionRegistry \<times> sid set" where
  "put s c st = RegSet (fst st) (snd st) s c"

definition remove :: "sid \<Rightarrow> SessionRegistry \<times> sid set \<Rightarrow> SessionRegistry \<times> sid set" where
  "remove s st = (RegClear (fst st) s, snd st)"

definition fresh :: "sid \<Rightarrow> SessionRegistry \<times> sid set \<Rightarrow> bool" where
  "fresh s st \<longleftrightarrow> s \<notin> snd st \<and> reg_sess (fst st) \<noteq> Some s"

locale tunnel_slot =
  fixes view :: "'st \<Rightarrow> (sid \<times> certificate option) option"
    and dead :: "'st \<Rightarrow> sid set"
    and is_new :: "sid \<Rightarrow> 'st \<Rightarrow> bool"
    and install :: "sid \<Rightarrow> certificate option \<Rightarrow> 'st \<Rightarrow> bool \<times> 'st"
    and clear :: "sid \<Rightarrow> 'st \<Rightarrow> 'st"
    and current :: "'st \<Rightarrow> sid option"
  assumes current_view: "current st = map_option fst (view st)"
    and install_view: "is_new s st \<Longrightarrow> view (snd (install s c st)) = Some (s, c)"
    and install_reports: "fst (install s c st) \<longleftrightarrow> view st \<noteq> None"
    and install_closes: "view st = Some (old, c') \<Longrightarrow> old \<in> dead (snd (install s c st))"
    and clear_other: "current st \<noteq> Some s \<Longrightarrow> view (clear s st) = view st"
    and clear_same: "current st = Some s \<Longrightarrow> view (clear s st) = None"
begin

lemma last_writer_current: "is_new s st \<Longrightarrow> current (snd (install s c st)) = Some s"
  by (simp add: current_view install_view)

lemma stale_clears_keep:
  "view st = Some (s, c) \<Longrightarrow> s \<notin> set stale \<Longrightarrow> view (fold clear stale st) = Some (s, c)"
proof (induction stale arbitrary: st)
  case (Cons x xs)
  then have "view (clear x st) = Some (s, c)" by (auto simp: clear_other current_view)
  with Cons show ?case by simp
qed simp

lemma install_survives_stale_clears:
  "is_new s st \<Longrightarrow> s \<notin> set stale \<Longrightarrow> current (fold clear stale (snd (install s c st))) = Some s"
  using stale_clears_keep [OF install_view] by (simp add: current_view)

end

lemma RegGet_live: "RegGet r closed = map_option fst (live_tunnel (r, closed))"
  by (simp add: RegGet_def live_tunnel_def split: option.splits)

interpretation slot: tunnel_slot live_tunnel snd fresh put remove "\<lambda>st. RegGet (fst st) (snd st)"
proof unfold_locales
  fix st s c
  show "RegGet (fst st) (snd st) = map_option fst (live_tunnel st)" by (simp add: RegGet_live)
  show "fresh s st \<Longrightarrow> live_tunnel (snd (put s c st)) = Some (s, c)"
    by (auto simp: fresh_def put_def RegSet_def set_swap_def set_close_old_def live_tunnel_def split: option.splits)
  show "fst (put s c st) \<longleftrightarrow> live_tunnel st \<noteq> None"
    by (auto simp: put_def RegSet_def set_swap_def set_close_old_def live_tunnel_def split: option.splits)
  show "live_tunnel st = Some (old, c') \<Longrightarrow> old \<in> snd (snd (put s c st))" for old c'
    by (auto simp: put_def RegSet_def set_swap_def set_close_old_def live_tunnel_def split: option.splits if_splits)
  show "RegGet (fst st) (snd st) \<noteq> Some s \<Longrightarrow> live_tunnel (remove s st) = live_tunnel st"
    by (auto simp: remove_def RegClear_def RegGet_def live_tunnel_def split: option.splits if_splits)
  show "RegGet (fst st) (snd st) = Some s \<Longrightarrow> live_tunnel (remove s st) = None"
    by (auto simp: remove_def RegClear_def RegGet_def live_tunnel_def split: option.splits if_splits)
qed

section \<open>Properties\<close>

text \<open>
  The registry is a last-writer-wins slot: a new session installed by \<open>Set\<close> is what
  \<open>Get\<close> returns, and stays so under any number of late \<open>Clear\<close> calls of other sessions;
  \<open>Set\<close> closes the session it replaces and reports whether that one was still live.
\<close>

theorem registry_last_writer_wins:
  assumes "s \<notin> closed" and "reg_sess r \<noteq> Some s" and "s \<notin> set stale"
  shows "case RegSet r closed s c of (replacedLive, r', closed') \<Rightarrow>
    RegGet r' closed' = Some s \<and> reg_cert r' = c \<and>
    RegGet (fold (\<lambda>x q. RegClear q x) stale r') closed' = Some s \<and>
    (replacedLive \<longleftrightarrow> RegGet r closed \<noteq> None) \<and>
    set_option (reg_sess r) \<subseteq> closed' \<and> closed \<subseteq> closed'"
proof -
  have new: "fresh s (r, closed)" using assms(1,2) by (simp add: fresh_def)
  have fold: "fold remove xs (q, cl) = (fold (\<lambda>x q. RegClear q x) xs q, cl)" for xs q cl
    by (induction xs arbitrary: q) (simp_all add: remove_def)
  obtain live r' closed' where set: "RegSet r closed s c = (live, r', closed')"
    by (metis prod_cases3)
  then have put: "put s c (r, closed) = (live, r', closed')" by (simp add: put_def)
  have "RegGet (fold (\<lambda>x q. RegClear q x) stale r') closed' = Some s"
    using slot.install_survives_stale_clears [OF new assms(3), of c] put fold by simp
  moreover have "RegGet r' closed' = Some s" using slot.last_writer_current [OF new, of c] put by simp
  moreover have "live \<longleftrightarrow> RegGet r closed \<noteq> None"
    using slot.install_reports [of s c "(r, closed)"] put by (simp add: RegGet_live)
  moreover have "reg_cert r' = c \<and> set_option (reg_sess r) \<subseteq> closed' \<and> closed \<subseteq> closed'"
    using set by (auto simp: RegSet_def set_swap_def set_close_old_def split: option.splits)
  ultimately show ?thesis using set by simp
qed

theorem registry_last_writer_wins_witness:
  "case RegSet \<lparr>reg_sess = Some 1, reg_cert = None\<rparr> {} 2 None of (replacedLive, r', closed') \<Rightarrow>
    RegGet r' closed' = Some 2 \<and> reg_cert r' = None \<and>
    RegGet (fold (\<lambda>x q. RegClear q x) [1, 1] r') closed' = Some 2 \<and>
    (replacedLive \<longleftrightarrow> RegGet \<lparr>reg_sess = Some 1, reg_cert = None\<rparr> {} \<noteq> None) \<and>
    set_option (Some 1) \<subseteq> closed' \<and> {} \<subseteq> closed'"
  using registry_last_writer_wins [of 2 "{}" "\<lparr>reg_sess = Some 1, reg_cert = None\<rparr>" "[1, 1]" None] by simp

text \<open>
  \<open>CloseCurrentIfRevoked\<close> reports true exactly when a live registered tunnel's certificate
  is on the denylist; then that session, and no other, is closed, so \<open>Get\<close> returns none until
  the next \<open>Set\<close>. Without revocation, or with nothing revoked, no session is touched.
\<close>

theorem revoked_tunnel_is_torn_down:
  "(case CloseCurrentIfRevoked w w r (Some rl) closed of (hit, closed', revocation') \<Rightarrow>
      (hit \<longleftrightarrow> (\<exists>s cert. reg_sess r = Some s \<and> s \<notin> closed \<and> reg_cert r = Some cert \<and>
                  serialOf cert \<in> denied w rl)) \<and>
      closed' = (if hit then closed \<union> set_option (reg_sess r) else closed) \<and>
      RegGet r closed' = (if hit then None else RegGet r closed)) \<and>
   CloseCurrentIfRevoked w w r None closed = (False, closed, None)"
  using revocation.chk_verdict [of w rl]
  by (auto simp: CloseCurrentIfRevoked_def close_snapshot_if_revoked_def RegGet_def split_beta Let_def
      split: option.splits)

end
