(* ===== verification/Tunnel.thy ===== *)
theory Tunnel
  imports Session_Registry Go_Int
begin

text \<open>
  \<^verbatim>\<open>tunnel.go\<close>: how a session is set up over a websocket connection, and the three goroutine
  patterns that end one, \<^verbatim>\<open>waitOrCancel\<close>, \<^verbatim>\<open>closeOnCancel\<close> and \<^verbatim>\<open>raceCtx\<close>, as step
  relations over what the scheduler may do. The websocket and yamux packages are parameters.
\<close>

section \<open>Sessions over a connection\<close>

datatype YamuxRole = YamuxRoleClient | YamuxRoleServer

definition role_String :: "YamuxRole \<Rightarrow> string" where
  "role_String r = (if r = YamuxRoleServer then ''server'' else ''client'')"

text \<open>
  The fields of \<open>yamux.Config\<close> the proxy sets; \<open>'d\<close> is the rest of yamux's default.
\<close>

record 'd yamux_config =
  EnableKeepAlive :: bool
  KeepAliveInterval :: duration
  StreamOpenTimeout :: duration
  yamux_rest :: 'd

definition NewYamuxConfig :: "'d yamux_config \<Rightarrow> duration \<Rightarrow> duration \<Rightarrow> 'd yamux_config" where
  "NewYamuxConfig dflt keepAliveInterval streamOpenTimeout =
     dflt\<lparr>EnableKeepAlive := True, KeepAliveInterval := keepAliveInterval,
       StreamOpenTimeout := streamOpenTimeout\<rparr>"

text \<open>
  The factory both halves share: \<open>'c\<close> is the type of the context that bounds the reads and
  writes of its connections. The operations of the two packages: \<open>websocket.Dial\<close> (through an
  http client \<open>'cl\<close>) and \<open>websocket.Accept\<close> give a connection or an error text,
  \<open>websocket.NetConn\<close> wraps it without a failure of its own, \<open>yamux.Client\<close> and
  \<open>yamux.Server\<close> give a session over it.
\<close>

record ('d, 'c) TunnelFactory =
  tf_yamuxConfig :: "'d yamux_config"
  tf_netConnCtx :: 'c

definition NewTunnelFactory :: "'d yamux_config \<Rightarrow> 'c \<Rightarrow> ('d, 'c) TunnelFactory" where
  "NewTunnelFactory yamuxConfig netConnCtx = \<lparr>tf_yamuxConfig = yamuxConfig, tf_netConnCtx = netConnCtx\<rparr>"

record ('req, 'cl, 'd, 'c) tunnel_lib =
  ws_Dial :: "'cl \<Rightarrow> string \<Rightarrow> (string, nat) result"
  ws_Accept :: "'req \<Rightarrow> (string, nat) result"
  ws_NetConn :: "'c \<Rightarrow> nat \<Rightarrow> nat"
  yamux_Client :: "nat \<Rightarrow> 'd yamux_config \<Rightarrow> (string, sid) result"
  yamux_Server :: "nat \<Rightarrow> 'd yamux_config \<Rightarrow> (string, sid) result"

text \<open>The result, and the connections closed on the way.\<close>

definition NewYamuxSession ::
  "('req, 'cl, 'd, 'c) tunnel_lib \<Rightarrow> nat \<Rightarrow> 'd yamux_config \<Rightarrow> YamuxRole \<Rightarrow> (string, sid) result \<times> nat list"
where
  "NewYamuxSession lib conn cfg role =
     (case (if role = YamuxRoleServer then yamux_Server lib conn cfg else yamux_Client lib conn cfg) of
        Inl err \<Rightarrow> (Inl (''start yamux '' @ role_String role @ '': '' @ err), [conn])
      | Inr sess \<Rightarrow> (Inr sess, []))"

definition wrapSession ::
  "('req, 'cl, 'd, 'c) tunnel_lib \<Rightarrow> ('d, 'c) TunnelFactory \<Rightarrow> nat \<Rightarrow> YamuxRole \<Rightarrow> (string, sid) result \<times> nat list"
where
  "wrapSession lib f c role = NewYamuxSession lib (ws_NetConn lib (tf_netConnCtx f) c) (tf_yamuxConfig f) role"

definition DialTunnel ::
  "('req, 'cl, 'd, 'c) tunnel_lib \<Rightarrow> ('d, 'c) TunnelFactory \<Rightarrow> string \<Rightarrow> 'cl \<Rightarrow> (string, sid) result \<times> nat list"
where
  "DialTunnel lib f remoteURL dialer =
     (case ws_Dial lib dialer remoteURL of
        Inl err \<Rightarrow> (Inl (''dial tunnel: '' @ err), [])
      | Inr c \<Rightarrow> wrapSession lib f c YamuxRoleClient)"

definition AcceptTunnel ::
  "('req, 'cl, 'd, 'c) tunnel_lib \<Rightarrow> ('d, 'c) TunnelFactory \<Rightarrow> 'req \<Rightarrow> (string, sid) result \<times> nat list"
where
  "AcceptTunnel lib f r =
     (case ws_Accept lib r of
        Inl err \<Rightarrow> (Inl (''accept tunnel upgrade: '' @ err), [])
      | Inr c \<Rightarrow> wrapSession lib f c YamuxRoleServer)"

section \<open>waitOrCancel and closeOnCancel\<close>

text \<open>
  The state of one \<open>closeOnCancel(ctx, sess, done)\<close>: where it stands, whether \<open>ctx\<close> is
  cancelled, \<open>done\<close> has fired and \<open>sess\<close> is closed.
\<close>

datatype wait_pc =
    Selecting            \<comment> \<open>at the select\<close>
  | Draining             \<comment> \<open>after onCancel, at \<open><-done\<close>\<close>
  | Closing bool         \<comment> \<open>waitOrCancel has returned, before the final Close\<close>
  | Returned bool

record wait_state =
  wpc :: wait_pc
  ctx_done :: bool
  done_fired :: bool
  sess_closed :: bool

definition wait_start :: "bool \<Rightarrow> bool \<Rightarrow> bool \<Rightarrow> wait_state" where
  "wait_start c d x = \<lparr>wpc = Selecting, ctx_done = c, done_fired = d, sess_closed = x\<rparr>"

inductive wait_step :: "wait_state \<Rightarrow> wait_state \<Rightarrow> bool" where
  ctx_cancelled: "wait_step s (s\<lparr>ctx_done := True\<rparr>)"
| done_fires: "wait_step s (s\<lparr>done_fired := True\<rparr>)"
| peer_closes: "wait_step s (s\<lparr>sess_closed := True\<rparr>)"
| select_ctx: "wpc s = Selecting \<Longrightarrow> ctx_done s \<Longrightarrow>
    wait_step s (s\<lparr>wpc := Draining, sess_closed := True\<rparr>)"
| select_done: "wpc s = Selecting \<Longrightarrow> done_fired s \<Longrightarrow> wait_step s (s\<lparr>wpc := Closing False\<rparr>)"
| drained: "wpc s = Draining \<Longrightarrow> done_fired s \<Longrightarrow> wait_step s (s\<lparr>wpc := Closing True\<rparr>)"
| close_sess: "wpc s = Closing c \<Longrightarrow> wait_step s (s\<lparr>wpc := Returned c, sess_closed := True\<rparr>)"

inductive_cases wait_stepE: "wait_step s t"

definition wait_inv :: "wait_state \<Rightarrow> bool" where
  "wait_inv s \<longleftrightarrow>
     (case wpc s of
        Selecting \<Rightarrow> True
      | Draining \<Rightarrow> ctx_done s \<and> sess_closed s
      | Closing c \<Rightarrow> done_fired s \<and> (c \<longrightarrow> ctx_done s)
      | Returned c \<Rightarrow> done_fired s \<and> sess_closed s \<and> (c \<longrightarrow> ctx_done s))"

lemma wait_inv_step: "wait_step s t \<Longrightarrow> wait_inv s \<Longrightarrow> wait_inv t"
  by (erule wait_stepE) (auto simp: wait_inv_def split: wait_pc.splits)

lemma wait_inv_run: "wait_step\<^sup>*\<^sup>* s t \<Longrightarrow> wait_inv s \<Longrightarrow> wait_inv t"
  by (induction rule: rtranclp_induct) (auto intro: wait_inv_step)

text \<open>From any state, once \<open>done\<close> fires, the wait ends by its own steps.\<close>

lemma wait_can_return:
  assumes "done_fired s"
  shows "\<exists>t c. wait_step\<^sup>*\<^sup>* s t \<and> wpc t = Returned c"
proof -
  have closing: "\<exists>t c'. wait_step\<^sup>*\<^sup>* u t \<and> wpc t = Returned c'" if "wpc u = Closing c" for u c
    using close_sess [OF that] by (intro exI [of _ "u\<lparr>wpc := Returned c, sess_closed := True\<rparr>"]) auto
  show ?thesis
  proof (cases "wpc s")
    case Selecting
    then have "wait_step s (s\<lparr>wpc := Closing False\<rparr>)" using assms by (rule select_done)
    moreover obtain t c where "wait_step\<^sup>*\<^sup>* (s\<lparr>wpc := Closing False\<rparr>) t" "wpc t = Returned c"
      using closing [of "s\<lparr>wpc := Closing False\<rparr>" False] by auto
    ultimately show ?thesis by (meson converse_rtranclp_into_rtranclp)
  next
    case Draining
    then have "wait_step s (s\<lparr>wpc := Closing True\<rparr>)" using assms by (rule drained)
    moreover obtain t c where "wait_step\<^sup>*\<^sup>* (s\<lparr>wpc := Closing True\<rparr>) t" "wpc t = Returned c"
      using closing [of "s\<lparr>wpc := Closing True\<rparr>" True] by auto
    ultimately show ?thesis by (meson converse_rtranclp_into_rtranclp)
  qed (use closing in auto)
qed

text \<open>
  \<open>runTunnelSession\<close>: its result from how the wait ended and what \<open>run\<close> returned; the error
  is only received when the wait was not cancelled. \<open>waitForTunnelClose\<close> waits on the
  session's own close channel; when that and the context are both ready, \<open>select\<close> takes either,
  which is the argument \<open>pick_ctx\<close>.
\<close>

definition runTunnelSession :: "bool \<Rightarrow> 'e option \<Rightarrow> bool \<times> 'e option" where
  "runTunnelSession cancelled run_err = (if cancelled then (True, None) else (False, run_err))"

definition waitForTunnelClose :: "bool \<Rightarrow> bool \<Rightarrow> sid \<Rightarrow> sid set \<Rightarrow> (bool \<times> sid set) option" where
  "waitForTunnelClose pick_ctx ctx_cancelled sess closed =
     (if ctx_cancelled \<and> (pick_ctx \<or> sess \<notin> closed) then Some (True, insert sess closed)
      else if sess \<in> closed then Some (False, insert sess closed)
      else None)"

section \<open>raceCtx\<close>

text \<open>
  One \<open>raceCtx\<close> call: the worker goroutine, the buffered channel, the caller at its select and
  the goroutine that reaps a late result. \<open>shut\<close> collects the values closed by the reaper.
\<close>

datatype 'a work = Working | Produced "(string, 'a) result" | Sent "(string, 'a) result"

datatype 'a caller = Racing | Got "(string, 'a) result" | GaveUp

datatype reaper = NoReaper | Reaping | Reaped

record 'a race =
  worker :: "'a work"
  chan :: "(string, 'a) result option"
  caller :: "'a caller"
  reaper :: reaper
  cancelled :: bool
  shut :: "'a list"

definition race_start :: "'a race" where
  "race_start = \<lparr>worker = Working, chan = None, caller = Racing, reaper = NoReaper,
     cancelled = False, shut = []\<rparr>"

text \<open>\<open>closer\<close>: the values that satisfy \<open>io.Closer\<close>, every one of them for a \<open>net.Conn\<close>.\<close>

inductive race_step :: "('a \<Rightarrow> bool) \<Rightarrow> 'a race \<Rightarrow> 'a race \<Rightarrow> bool" for closer where
  cancel: "race_step closer s (s\<lparr>cancelled := True\<rparr>)"
| work: "worker s = Working \<Longrightarrow> race_step closer s (s\<lparr>worker := Produced r\<rparr>)"
| send: "worker s = Produced r \<Longrightarrow> chan s = None \<Longrightarrow>
    race_step closer s (s\<lparr>worker := Sent r, chan := Some r\<rparr>)"
| take_result: "caller s = Racing \<Longrightarrow> chan s = Some r \<Longrightarrow>
    race_step closer s (s\<lparr>caller := Got r, chan := None\<rparr>)"
| give_up: "caller s = Racing \<Longrightarrow> cancelled s \<Longrightarrow>
    race_step closer s (s\<lparr>caller := GaveUp, reaper := Reaping\<rparr>)"
| reap: "reaper s = Reaping \<Longrightarrow> chan s = Some r \<Longrightarrow>
    race_step closer s (s\<lparr>reaper := Reaped, chan := None,
      shut := (case r of Inl e \<Rightarrow> shut s | Inr v \<Rightarrow> if closer v then v # shut s else shut s)\<rparr>)"

inductive_cases race_stepE: "race_step closer s t"

text \<open>The result of \<open>work\<close> is in exactly one place: the channel, the caller, or the reaper.\<close>

definition values_of :: "('a \<Rightarrow> bool) \<Rightarrow> (string, 'a) result \<Rightarrow> 'a list" where
  "values_of closer r = (case r of Inl e \<Rightarrow> [] | Inr v \<Rightarrow> if closer v then [v] else [])"

definition race_inv :: "('a \<Rightarrow> bool) \<Rightarrow> 'a race \<Rightarrow> bool" where
  "race_inv closer s \<longleftrightarrow>
     (reaper s = NoReaper \<longleftrightarrow> caller s \<noteq> GaveUp) \<and>
     (case worker s of
        Sent r \<Rightarrow>
          (case chan s of
             Some r' \<Rightarrow> r' = r \<and> shut s = [] \<and> reaper s \<noteq> Reaped \<and> (caller s = Racing \<or> caller s = GaveUp)
           | None \<Rightarrow> caller s = Got r \<and> shut s = [] \<or> caller s = GaveUp \<and> reaper s = Reaped \<and> shut s = values_of closer r)
      | _ \<Rightarrow> chan s = None \<and> shut s = [] \<and> reaper s \<noteq> Reaped \<and> (caller s = Racing \<or> caller s = GaveUp))"

lemma race_inv_start: "race_inv closer race_start"
  by (simp add: race_inv_def race_start_def)

lemma race_inv_step: "race_step closer s t \<Longrightarrow> race_inv closer s \<Longrightarrow> race_inv closer t"
  by (erule race_stepE) (auto simp: race_inv_def values_of_def split: sum.splits work.splits option.splits)

lemma race_inv_run: "(race_step closer)\<^sup>*\<^sup>* s t \<Longrightarrow> race_inv closer s \<Longrightarrow> race_inv closer t"
  by (induction rule: rtranclp_induct) (auto intro: race_inv_step)

text \<open>Everything has run: nothing but a cancellation is left to happen.\<close>

definition race_over :: "('a \<Rightarrow> bool) \<Rightarrow> 'a race \<Rightarrow> bool" where
  "race_over closer s \<longleftrightarrow> (\<forall>t. race_step closer s t \<longrightarrow> t = s\<lparr>cancelled := True\<rparr>)"

lemma race_over_no_step:
  assumes "race_over closer s"
  shows "race_step closer s t \<Longrightarrow> worker t = worker s \<and> caller t = caller s \<and> reaper t = reaper s \<and> chan t = chan s"
  using assms unfolding race_over_def by auto

lemma race_over_cases:
  assumes over: "race_over closer s" and inv: "race_inv closer s"
  shows "\<exists>r. worker s = Sent r \<and> chan s = None"
proof (cases "worker s")
  case Working
  then show ?thesis using race_over_no_step [OF over work [OF Working, of closer "Inl []"]] by simp
next
  case (Produced r)
  then have "chan s = None" using inv by (simp add: race_inv_def)
  then show ?thesis using race_over_no_step [OF over send [OF Produced]] Produced by simp
next
  case (Sent r)
  show ?thesis
  proof (cases "chan s")
    case (Some r')
    then have "caller s = Racing \<or> reaper s = Reaping"
      using inv Sent by (cases "reaper s") (auto simp: race_inv_def)
    then show ?thesis
      using race_over_no_step [OF over take_result [OF _ Some]] race_over_no_step [OF over reap [OF _ Some]]
      by auto
  qed (use Sent in simp)
qed

text \<open>
  \<open>waitForTunnelClose\<close> runs \<open>closeOnCancel\<close> on the session's own close channel: \<open>done\<close> fires when
  the session is closed, by this call or before. With the context and the session as they are when
  it is called, its own steps and the channel's return exactly what the function says.
\<close>

inductive chan_step :: "wait_state \<Rightarrow> wait_state \<Rightarrow> bool" where
  own: "wait_step s t \<Longrightarrow> wpc t \<noteq> wpc s \<Longrightarrow> chan_step s t"
| chan_fires: "sess_closed s \<Longrightarrow> chan_step s (s\<lparr>done_fired := True\<rparr>)"

definition chan_inv :: "bool \<Rightarrow> bool \<Rightarrow> wait_state \<Rightarrow> bool" where
  "chan_inv c x s \<longleftrightarrow> ctx_done s = c \<and>
     (case wpc s of
        Selecting \<Rightarrow> sess_closed s = x \<and> (done_fired s \<longrightarrow> x)
      | Draining \<Rightarrow> c
      | Closing b \<Rightarrow> if b then c else x
      | Returned b \<Rightarrow> if b then c else x)"

lemma chan_inv_step: "chan_step s t \<Longrightarrow> chan_inv c x s \<Longrightarrow> chan_inv c x t"
proof (erule chan_step.cases)
  fix u v
  assume "s = u" "t = v" "wait_step u v" "wpc v \<noteq> wpc u" "chan_inv c x s"
  then show ?thesis by (auto elim!: wait_stepE simp: chan_inv_def)
qed (auto simp: chan_inv_def split: wait_pc.splits)

lemma chan_inv_run: "chan_step\<^sup>*\<^sup>* s t \<Longrightarrow> chan_inv c x s \<Longrightarrow> chan_inv c x t"
  by (induction rule: rtranclp_induct) (blast intro: chan_inv_step)+

lemma waitForTunnelClose_runs:
  "(\<exists>t. chan_step\<^sup>*\<^sup>* (wait_start c (s \<in> closed) (s \<in> closed)) t \<and> wpc t = Returned b) \<longleftrightarrow>
   (\<exists>pick_ctx. waitForTunnelClose pick_ctx c s closed = Some (b, insert s closed))"
proof
  assume "\<exists>t. chan_step\<^sup>*\<^sup>* (wait_start c (s \<in> closed) (s \<in> closed)) t \<and> wpc t = Returned b"
  then obtain t where run: "chan_step\<^sup>*\<^sup>* (wait_start c (s \<in> closed) (s \<in> closed)) t" and t: "wpc t = Returned b"
    by blast
  from run have "chan_inv c (s \<in> closed) t"
    by (rule chan_inv_run) (simp add: chan_inv_def wait_start_def)
  then have "if b then c else s \<in> closed" using t by (simp add: chan_inv_def)
  then show "\<exists>pick_ctx. waitForTunnelClose pick_ctx c s closed = Some (b, insert s closed)"
    by (cases b) (auto simp: waitForTunnelClose_def intro: exI [of _ b])
next
  let ?s0 = "wait_start c (s \<in> closed) (s \<in> closed)"
  assume "\<exists>pick_ctx. waitForTunnelClose pick_ctx c s closed = Some (b, insert s closed)"
  then have b: "if b then c else s \<in> closed" by (auto simp: waitForTunnelClose_def split: if_splits)
  show "\<exists>t. chan_step\<^sup>*\<^sup>* ?s0 t \<and> wpc t = Returned b"
  proof (cases b)
    case True
    let ?s1 = "?s0\<lparr>wpc := Draining, sess_closed := True\<rparr>"
    let ?s2 = "?s1\<lparr>done_fired := True\<rparr>" let ?s3 = "?s2\<lparr>wpc := Closing True\<rparr>"
    have "chan_step ?s0 ?s1" using b True by (intro own select_ctx) (simp_all add: wait_start_def)
    moreover have "chan_step ?s1 ?s2" by (intro chan_fires) simp
    moreover have "chan_step ?s2 ?s3" by (intro own drained) simp_all
    moreover have "chan_step ?s3 (?s3\<lparr>wpc := Returned True, sess_closed := True\<rparr>)" by (intro own close_sess) simp_all
    ultimately have "chan_step\<^sup>*\<^sup>* ?s0 (?s3\<lparr>wpc := Returned True, sess_closed := True\<rparr>)"
      by (meson converse_rtranclp_into_rtranclp rtranclp.rtrancl_refl)
    then show ?thesis using True by (intro exI conjI, simp) simp
  next
    case False
    let ?s1 = "?s0\<lparr>wpc := Closing False\<rparr>"
    have "chan_step ?s0 ?s1" using b False by (intro own select_done) (simp_all add: wait_start_def)
    moreover have "chan_step ?s1 (?s1\<lparr>wpc := Returned False, sess_closed := True\<rparr>)"
      by (intro own close_sess) simp_all
    ultimately have "chan_step\<^sup>*\<^sup>* ?s0 (?s1\<lparr>wpc := Returned False, sess_closed := True\<rparr>)"
      by (meson converse_rtranclp_into_rtranclp rtranclp.rtrancl_refl)
    then show ?thesis using False by (intro exI conjI, simp) simp
  qed
qed

section \<open>Properties\<close>

text \<open>
  \<open>closeOnCancel\<close>, under any interleaving of cancellation, \<open>done\<close> and the peer: when it
  has returned, the session is closed and \<open>done\<close> has fired, so its producer cannot be left
  running; it reports cancellation only if the context was cancelled; and from every state it
  can reach, it returns by its own steps as soon as \<open>done\<close> fires, which closing the session
  brings about.
\<close>

theorem close_on_cancel_always_closes:
  assumes "wait_step\<^sup>*\<^sup>* (wait_start c d x) s"
  shows "(\<forall>b. wpc s = Returned b \<longrightarrow> sess_closed s \<and> done_fired s \<and> (b \<longrightarrow> ctx_done s)) \<and>
    (wpc s = Draining \<longrightarrow> sess_closed s) \<and>
    (done_fired s \<longrightarrow> (\<exists>t b. wait_step\<^sup>*\<^sup>* s t \<and> wpc t = Returned b))"
proof -
  have "wait_inv s" using wait_inv_run [OF assms] by (simp add: wait_inv_def wait_start_def)
  then show ?thesis using wait_can_return [of s] by (auto simp: wait_inv_def)
qed

theorem close_on_cancel_always_closes_witness:
  "let s = (wait_start False False False)\<lparr>ctx_done := True, wpc := Draining, sess_closed := True\<rparr> in
    (\<forall>b. wpc s = Returned b \<longrightarrow> sess_closed s \<and> done_fired s \<and> (b \<longrightarrow> ctx_done s)) \<and>
    (wpc s = Draining \<longrightarrow> sess_closed s) \<and>
    (done_fired s \<longrightarrow> (\<exists>t b. wait_step\<^sup>*\<^sup>* s t \<and> wpc t = Returned b))"
proof -
  let ?s0 = "wait_start False False False" and ?s1 = "(wait_start False False False)\<lparr>ctx_done := True\<rparr>"
  have "wait_step ?s0 ?s1" by (rule ctx_cancelled)
  moreover have "wait_step ?s1 (?s1\<lparr>wpc := Draining, sess_closed := True\<rparr>)"
    by (rule select_ctx) (simp_all add: wait_start_def)
  ultimately have "wait_step\<^sup>*\<^sup>* ?s0 (?s1\<lparr>wpc := Draining, sess_closed := True\<rparr>)" by simp
  from close_on_cancel_always_closes [OF this] show ?thesis unfolding Let_def .
qed

text \<open>
  C30. \<open>raceCtx\<close> neither leaks nor double-closes a stream: in whatever order the work, its
  channel send, the cancellation, the caller's select and the reaper run, once they are done the
  value \<open>work\<close> produced has either been returned to the caller, and nothing was closed, or the
  caller got the context's error and exactly that value was closed, if it is one that can be, as
  every \<open>net.Conn\<close> is. At no time before is a value closed that the caller holds.
\<close>

theorem race_ctx_never_leaks:
  assumes "(race_step closer)\<^sup>*\<^sup>* race_start s"
  shows "(race_over closer s \<longrightarrow>
      (\<exists>r. worker s = Sent r \<and>
        (caller s = Got r \<and> shut s = [] \<or> caller s = GaveUp \<and> shut s = values_of closer r))) \<and>
    ((\<exists>r. caller s = Got r) \<longrightarrow> shut s = [])"
proof -
  have inv: "race_inv closer s" using race_inv_run [OF assms race_inv_start] .
  have "\<exists>r. worker s = Sent r \<and> (caller s = Got r \<and> shut s = [] \<or> caller s = GaveUp \<and> shut s = values_of closer r)"
    if over: "race_over closer s"
    using race_over_cases [OF over inv] inv by (auto simp: race_inv_def)
  moreover have "shut s = []" if "\<exists>r. caller s = Got r"
    using inv that by (auto simp: race_inv_def split: work.splits option.splits)
  ultimately show ?thesis by blast
qed

text \<open>A late stream: the caller gave up, the work finished afterwards, the reaper closed 7.\<close>

lemma race_late_result:
  "(race_step (\<lambda>v. True))\<^sup>*\<^sup>* (race_start :: nat race)
     \<lparr>worker = Sent (Inr 7), chan = None, caller = GaveUp, reaper = Reaped, cancelled = True, shut = [7]\<rparr>"
proof -
  let ?s = "\<lambda>w ch c rp x sh. \<lparr>worker = w, chan = ch, caller = c, reaper = rp, cancelled = x, shut = sh\<rparr> :: nat race"
  have "race_step (\<lambda>v. True) race_start (?s Working None Racing NoReaper True [])"
    using cancel [of "\<lambda>v. True" "race_start :: nat race"] by (simp add: race_start_def)
  moreover have "race_step (\<lambda>v. True) (?s Working None Racing NoReaper True []) (?s Working None GaveUp Reaping True [])"
    using give_up [of "?s Working None Racing NoReaper True []"] by simp
  moreover have "race_step (\<lambda>v. True) (?s Working None GaveUp Reaping True []) (?s (Produced (Inr 7)) None GaveUp Reaping True [])"
    using work [of "?s Working None GaveUp Reaping True []" "\<lambda>v. True" "Inr 7"] by simp
  moreover have "race_step (\<lambda>v. True) (?s (Produced (Inr 7)) None GaveUp Reaping True []) (?s (Sent (Inr 7)) (Some (Inr 7)) GaveUp Reaping True [])"
    using send [of "?s (Produced (Inr 7)) None GaveUp Reaping True []" "Inr 7"] by simp
  moreover have "race_step (\<lambda>v. True) (?s (Sent (Inr 7)) (Some (Inr 7)) GaveUp Reaping True []) (?s (Sent (Inr 7)) None GaveUp Reaped True [7])"
    using reap [of "?s (Sent (Inr 7)) (Some (Inr 7)) GaveUp Reaping True []" "Inr 7" "\<lambda>v. True"] by simp
  ultimately show ?thesis by (meson rtranclp.rtrancl_refl converse_rtranclp_into_rtranclp)
qed

theorem race_ctx_never_leaks_witness:
  "let s = (\<lparr>worker = Sent (Inr 7), chan = None, caller = GaveUp, reaper = Reaped, cancelled = True,
      shut = [7]\<rparr> :: nat race) in
    (race_over (\<lambda>v. True) s \<longrightarrow>
      (\<exists>r. worker s = Sent r \<and>
        (caller s = Got r \<and> shut s = [] \<or> caller s = GaveUp \<and> shut s = values_of (\<lambda>v. True) r))) \<and>
    ((\<exists>r. caller s = Got r) \<longrightarrow> shut s = [])"
  unfolding Let_def by (rule race_ctx_never_leaks [OF race_late_result])

text \<open>
  Setting up a session never leaks its connection. Dialing and accepting differ only in the
  yamux side they start: in either, an error of the websocket or of yamux comes back as an error
  that names its step, a session comes back exactly when both succeed, and a connection is closed
  exactly when it was opened and yamux refused it.
\<close>

theorem failed_session_closes_connection:
  "case (if dial then DialTunnel lib f url dialer else AcceptTunnel lib f r) of (res, shut_conns) \<Rightarrow>
     (case (if dial then ws_Dial lib dialer url else ws_Accept lib r) of
        Inl e \<Rightarrow> res = Inl ((if dial then ''dial tunnel: '' else ''accept tunnel upgrade: '') @ e) \<and> shut_conns = []
      | Inr c \<Rightarrow>
          (let conn = ws_NetConn lib (tf_netConnCtx f) c
           in case (if dial then yamux_Client else yamux_Server) lib conn (tf_yamuxConfig f) of
                Inl e \<Rightarrow> res = Inl ((if dial then ''start yamux client: '' else ''start yamux server: '') @ e) \<and>
                  shut_conns = [conn]
              | Inr sess \<Rightarrow> res = Inr sess \<and> shut_conns = []))"
  by (cases dial)
    (auto simp: NewYamuxSession_def DialTunnel_def AcceptTunnel_def wrapSession_def role_String_def Let_def
      split: sum.splits)

end
