(* ===== verification/Backoff.thy ===== *)
theory Backoff
  imports Go_Int
begin

text \<open>
  The reconnect backoff of \<^verbatim>\<open>local.go\<close>: \<^verbatim>\<open>Backoff\<close> with its \<open>int64\<close> durations and the
  shift that may overflow. \<open>rand.Int63n\<close> is the parameter \<open>int63n\<close>: a draw from \<open>[0,n)\<close>.
  The abstract specification is the unbounded sequence \<open>min (m * 2 ^ k) M\<close>.
\<close>

section \<open>Model\<close>

record Backoff =
  bo_min :: duration
  bo_max :: duration
  attempt :: nat

definition NewBackoff :: "duration \<Rightarrow> duration \<Rightarrow> Backoff" where
  "NewBackoff mn mx = \<lparr>bo_min = mn, bo_max = mx, attempt = 0\<rparr>"

definition nextBase :: "Backoff \<Rightarrow> duration \<times> Backoff" where
  "nextBase b =
     (let d = push_bit (attempt b) (bo_min b)
      in if d \<le>s 0 \<or> bo_max b <s d then (bo_max b, b)
         else (d, b\<lparr>attempt := attempt b + 1\<rparr>))"

definition Next :: "(int64 \<Rightarrow> int64) \<Rightarrow> Backoff \<Rightarrow> duration \<times> Backoff" where
  "Next int63n b =
     (let (base, b') = nextBase b;
          jitterMax = word_of_int (sint base sdiv 5)
      in if jitterMax \<le>s 0 then (base, b')
         else
           let jitter = int63n jitterMax
           in if bo_max b' - base <s jitter then (bo_max b', b') else (base + jitter, b'))"

definition Reset :: "Backoff \<Rightarrow> Backoff" where
  "Reset b = b\<lparr>attempt := 0\<rparr>"

definition ResetIfStable :: "Backoff \<Rightarrow> duration \<Rightarrow> Backoff" where
  "ResetIfStable b uptime = (if bo_min b \<le>s uptime then Reset b else b)"

section \<open>Invariant and specification\<close>

text \<open>
  The bounds \<^verbatim>\<open>Config.validate\<close> establishes, and the attempt counter only as far as the last
  shift that stayed within the cap: this is what makes the overflow test of \<open>nextBase\<close> exact.
\<close>

definition bounds_ok :: "Backoff \<Rightarrow> bool" where
  "bounds_ok b \<longleftrightarrow> 0 < sint (bo_min b) \<and> sint (bo_min b) \<le> sint (bo_max b)"

definition backoff_inv :: "Backoff \<Rightarrow> bool" where
  "backoff_inv b \<longleftrightarrow> bounds_ok b \<and>
     (attempt b = 0 \<or> sint (bo_min b) * 2 ^ (attempt b - 1) \<le> sint (bo_max b))"

definition spec_delay :: "int \<Rightarrow> int \<Rightarrow> nat \<Rightarrow> int" where
  "spec_delay m M k = min (m * 2 ^ k) M"

definition int63n_spec :: "(int64 \<Rightarrow> int64) \<Rightarrow> bool" where
  "int63n_spec f \<longleftrightarrow> (\<forall>n. 0 < sint n \<longrightarrow> 0 \<le> sint (f n) \<and> sint (f n) < sint n)"

lemma NewBackoff_inv:
  "0 < sint mn \<Longrightarrow> sint mn \<le> sint mx \<Longrightarrow> backoff_inv (NewBackoff mn mx)"
  by (simp add: backoff_inv_def bounds_ok_def NewBackoff_def)

lemma shift_below_64:
  assumes "backoff_inv b"
  shows "sint (bo_min b) * 2 ^ attempt b < 2 ^ 64"
proof (cases "attempt b")
  case 0
  then show ?thesis using sint_less [of "bo_min b"] by simp
next
  case (Suc k)
  then have "sint (bo_min b) * 2 ^ k \<le> sint (bo_max b)" using assms by (simp add: backoff_inv_def)
  also have "\<dots> < 2 ^ 63" using sint_less [of "bo_max b"] by simp
  finally show ?thesis using Suc by simp
qed

text \<open>Under the invariant the shifted word is read right: in range exactly when it should be.\<close>

lemma shift_in_cap:
  assumes "backoff_inv b"
  shows "push_bit (attempt b) (bo_min b) \<le>s 0 \<or> bo_max b <s push_bit (attempt b) (bo_min b) \<longleftrightarrow>
    sint (bo_max b) < sint (bo_min b) * 2 ^ attempt b"
    and "sint (bo_min b) * 2 ^ attempt b \<le> sint (bo_max b) \<Longrightarrow>
      sint (push_bit (attempt b) (bo_min b)) = sint (bo_min b) * 2 ^ attempt b"
proof -
  let ?v = "sint (bo_min b) * 2 ^ attempt b"
  have pos: "0 < ?v" using assms by (simp add: backoff_inv_def bounds_ok_def)
  have M: "sint (bo_max b) < 2 ^ 63" using sint_less [of "bo_max b"] by simp
  show "sint (push_bit (attempt b) (bo_min b)) = ?v" if "?v \<le> sint (bo_max b)"
    using that M assms by (intro sint_shift_range) (auto simp: backoff_inv_def bounds_ok_def)
  show "push_bit (attempt b) (bo_min b) \<le>s 0 \<or> bo_max b <s push_bit (attempt b) (bo_min b) \<longleftrightarrow>
      sint (bo_max b) < ?v"
  proof (cases "?v < 2 ^ 63")
    case True
    then have "sint (push_bit (attempt b) (bo_min b)) = ?v"
      using assms by (intro sint_shift_range) (auto simp: backoff_inv_def bounds_ok_def)
    then show ?thesis using pos by (simp add: word_sle_eq word_sless_alt)
  next
    case False
    then have "sint (push_bit (attempt b) (bo_min b)) < 0"
      using shift_below_64 [OF assms] by (intro sint_shift_overflow) auto
    then show ?thesis using False M by (simp add: word_sle_eq)
  qed
qed

lemma nextBase_value:
  assumes "backoff_inv b"
  shows "sint (fst (nextBase b)) = spec_delay (sint (bo_min b)) (sint (bo_max b)) (attempt b)"
  using shift_in_cap [OF assms] by (auto simp: nextBase_def Let_def spec_delay_def min_def)

lemma nextBase_attempt:
  assumes "backoff_inv b"
  shows "attempt (snd (nextBase b)) =
    (if sint (bo_min b) * 2 ^ attempt b \<le> sint (bo_max b) then attempt b + 1 else attempt b)"
  using shift_in_cap(1) [OF assms] by (auto simp: nextBase_def Let_def)

lemma nextBase_bounds [simp]:
  "bo_min (snd (nextBase b)) = bo_min b" "bo_max (snd (nextBase b)) = bo_max b"
  by (simp_all add: nextBase_def Let_def)

lemma nextBase_inv:
  assumes "backoff_inv b"
  shows "backoff_inv (snd (nextBase b))"
  using assms nextBase_attempt [OF assms] by (auto simp: backoff_inv_def bounds_ok_def)

lemma Next_state [simp]: "snd (Next f b) = snd (nextBase b)"
  by (simp add: Next_def Let_def split: prod.split)

lemma Reset_inv: "backoff_inv b \<Longrightarrow> backoff_inv (Reset b)"
  by (simp add: backoff_inv_def bounds_ok_def Reset_def)

lemma ResetIfStable_inv: "backoff_inv b \<Longrightarrow> backoff_inv (ResetIfStable b u)"
  by (simp add: ResetIfStable_def Reset_inv)

lemma ResetIfStable_bounds [simp]:
  "bo_min (ResetIfStable b u) = bo_min b" "bo_max (ResetIfStable b u) = bo_max b"
  by (simp_all add: ResetIfStable_def Reset_def)

lemma base_range:
  assumes "backoff_inv b"
  shows "sint (bo_min b) \<le> sint (fst (nextBase b))" "sint (fst (nextBase b)) \<le> sint (bo_max b)"
proof -
  have "sint (bo_min b) * 1 \<le> sint (bo_min b) * 2 ^ attempt b"
    using assms by (intro mult_left_mono) (auto simp: backoff_inv_def bounds_ok_def)
  then show "sint (bo_min b) \<le> sint (fst (nextBase b))" "sint (fst (nextBase b)) \<le> sint (bo_max b)"
    using assms by (auto simp: nextBase_value spec_delay_def backoff_inv_def bounds_ok_def)
qed

text \<open>The jittered delay, as integers: the headroom test keeps the sum in range.\<close>

lemma Next_value:
  assumes inv: "backoff_inv b" and rand: "int63n_spec f"
  shows "\<exists>j. 0 \<le> j \<and> 5 * j \<le> sint (fst (nextBase b)) \<and>
    sint (fst (Next f b)) = min (sint (fst (nextBase b)) + j) (sint (bo_max b))"
proof -
  obtain base b' where nb: "nextBase b = (base, b')" by fastforce
  have b': "bo_max b' = bo_max b" using nextBase_bounds(2) [of b] nb by simp
  have base: "0 < sint base" "sint base \<le> sint (bo_max b)"
    using base_range [OF inv] inv nb by (auto simp: backoff_inv_def bounds_ok_def)
  have M: "sint (bo_max b) < 2 ^ 63" using sint_less [of "bo_max b"] by simp
  let ?jm = "word_of_int (sint base sdiv 5) :: int64"
  have q: "sint base sdiv 5 = sint base div 5" using base by (simp add: signed_divide_int_def)
  have "in_int64 (sint base div 5)" using base M unfolding in_int64_def by linarith
  then have jm: "sint ?jm = sint base div 5" using q by (simp only: sint_of_int_range)
  show ?thesis
  proof (cases "?jm \<le>s 0")
    case True
    then have "fst (Next f b) = base" using nb by (simp add: Next_def Let_def)
    then show ?thesis using nb base by (intro exI [of _ 0]) simp
  next
    case False
    then have pos: "0 < sint ?jm" by (simp add: word_sle_eq)
    let ?j = "sint (f ?jm)"
    have "0 \<le> ?j \<and> ?j < sint ?jm" using rand pos by (simp only: int63n_spec_def)
    then have j: "0 \<le> ?j" "?j < sint base div 5" by (simp_all only: jm)
    have head: "sint (bo_max b - base) = sint (bo_max b) - sint base"
      using base M by (intro sint_diff) (simp add: in_int64_def)
    have "sint (fst (Next f b)) = min (sint base + ?j) (sint (bo_max b))"
    proof (cases "bo_max b - base <s f ?jm")
      case True
      then have "fst (Next f b) = bo_max b" using False nb b' by (simp add: Next_def Let_def)
      moreover have "sint (bo_max b) < sint base + ?j" using True head by (simp add: word_sless_alt)
      ultimately show ?thesis by simp
    next
      case in_room: False
      then have sum: "sint base + ?j \<le> sint (bo_max b)" using head by (simp add: word_sless_alt)
      then have "in_int64 (sint base + ?j)" using base j M unfolding in_int64_def by linarith
      then have "sint (base + f ?jm) = sint base + ?j" by (rule sint_add)
      moreover have "fst (Next f b) = base + f ?jm" using False in_room nb b' by (simp add: Next_def Let_def)
      ultimately show ?thesis using sum by simp
    qed
    moreover have "5 * ?j \<le> sint base" using j(2) base(1) by linarith
    ultimately show ?thesis using nb j(1) by (intro exI [of _ ?j]) simp
  qed
qed

section \<open>The interface a retry loop relies on\<close>

text \<open>
  What the reconnect loop needs of its delay source: every draw keeps the invariant and the
  bounds and returns a delay within them, and so does a stability report. \<open>'r\<close> is the
  source of randomness of one draw.
\<close>

datatype 'r retry_call = Delay 'r | Stable duration

fun retry_run ::
  "('r \<Rightarrow> 'b \<Rightarrow> duration \<times> 'b) \<Rightarrow> ('b \<Rightarrow> duration \<Rightarrow> 'b) \<Rightarrow> 'r retry_call list \<Rightarrow> 'b \<Rightarrow> duration list \<times> 'b"
where
  "retry_run nxt stb [] b = ([], b)"
| "retry_run nxt stb (Delay r # cs) b =
     (let (d, b1) = nxt r b; (ds, b2) = retry_run nxt stb cs b1 in (d # ds, b2))"
| "retry_run nxt stb (Stable u # cs) b = retry_run nxt stb cs (stb b u)"

locale retry_policy =
  fixes inv :: "'b \<Rightarrow> bool"
    and rand_ok :: "'r \<Rightarrow> bool"
    and nxt :: "'r \<Rightarrow> 'b \<Rightarrow> duration \<times> 'b"
    and stb :: "'b \<Rightarrow> duration \<Rightarrow> 'b"
    and lo hi :: "'b \<Rightarrow> int"
  assumes nxt_inv: "inv b \<Longrightarrow> rand_ok r \<Longrightarrow> inv (snd (nxt r b))"
    and nxt_delay: "inv b \<Longrightarrow> rand_ok r \<Longrightarrow> lo b \<le> sint (fst (nxt r b)) \<and> sint (fst (nxt r b)) \<le> hi b"
    and nxt_bounds: "lo (snd (nxt r b)) = lo b" "hi (snd (nxt r b)) = hi b"
    and stb_inv: "inv b \<Longrightarrow> inv (stb b u)"
    and stb_bounds: "lo (stb b u) = lo b" "hi (stb b u) = hi b"
begin

lemma retry_run_within:
  "inv b \<Longrightarrow> list_all (\<lambda>c. case c of Delay r \<Rightarrow> rand_ok r | Stable u \<Rightarrow> True) cs \<Longrightarrow>
   inv (snd (retry_run nxt stb cs b)) \<and>
   list_all (\<lambda>d. lo b \<le> sint d \<and> sint d \<le> hi b) (fst (retry_run nxt stb cs b))"
proof (induction cs arbitrary: b)
  case (Cons c cs)
  show ?case
  proof (cases c)
    case (Delay r)
    have r: "rand_ok r" and cs: "list_all (\<lambda>c. case c of Delay r \<Rightarrow> rand_ok r | Stable u \<Rightarrow> True) cs"
      using Cons.prems(2) Delay by simp_all
    note nxt = nxt_inv [OF Cons.prems(1) r] nxt_delay [OF Cons.prems(1) r] nxt_bounds [where r = r and b = b]
    from Cons.IH [OF nxt(1) cs] nxt show ?thesis using Delay by (simp add: split_beta Let_def)
  next
    case (Stable u)
    then show ?thesis using Cons.IH [OF stb_inv [OF Cons.prems(1)], of u] Cons.prems(2) stb_bounds by simp
  qed
qed simp

end

lemma Next_range:
  assumes "backoff_inv b" and "int63n_spec f"
  shows "sint (bo_min b) \<le> sint (fst (Next f b))" "sint (fst (Next f b)) \<le> sint (bo_max b)"
  using Next_value [OF assms] base_range [OF assms(1)] by auto

interpretation backoff: retry_policy backoff_inv int63n_spec Next ResetIfStable
  "\<lambda>b. sint (bo_min b)" "\<lambda>b. sint (bo_max b)"
  by unfold_locales (simp_all add: nextBase_inv Next_range ResetIfStable_inv)

section \<open>The whole sequence of delays\<close>

definition follows :: "Backoff \<Rightarrow> nat \<Rightarrow> bool" where
  "follows b k \<longleftrightarrow> backoff_inv b \<and>
     (attempt b = k \<or> attempt b \<le> k \<and> sint (bo_max b) < sint (bo_min b) * 2 ^ attempt b)"

lemma follows_spec:
  assumes "follows b k"
  shows "spec_delay (sint (bo_min b)) (sint (bo_max b)) (attempt b) =
         spec_delay (sint (bo_min b)) (sint (bo_max b)) k"
proof (cases "attempt b = k")
  case False
  with assms have le: "attempt b \<le> k" and gt: "sint (bo_max b) < sint (bo_min b) * 2 ^ attempt b"
    and pos: "0 < sint (bo_min b)" by (auto simp: follows_def backoff_inv_def bounds_ok_def)
  have "sint (bo_min b) * 2 ^ attempt b \<le> sint (bo_min b) * 2 ^ k"
    using le pos by (simp add: mult_left_mono power_increasing)
  with gt show ?thesis by (simp add: spec_delay_def min_def)
qed simp

lemma follows_step: "follows b k \<Longrightarrow> follows (snd (nextBase b)) (Suc k)"
  using nextBase_inv [of b] nextBase_attempt [of b] by (auto simp: follows_def)

lemma follows_start:
  "0 < sint mn \<Longrightarrow> sint mn \<le> sint mx \<Longrightarrow> follows (NewBackoff mn mx) 0"
  by (simp add: follows_def NewBackoff_inv) (simp add: NewBackoff_def)

fun delays :: "(int64 \<Rightarrow> int64) list \<Rightarrow> Backoff \<Rightarrow> duration list" where
  "delays [] b = []"
| "delays (f # fs) b = fst (Next f b) # delays fs (snd (Next f b))"

lemma delays_follow:
  assumes "follows b k" and "list_all int63n_spec fs" and "i < length fs"
  shows "spec_delay (sint (bo_min b)) (sint (bo_max b)) (k + i) \<le> sint (delays fs b ! i) \<and>
    5 * sint (delays fs b ! i) \<le> 6 * spec_delay (sint (bo_min b)) (sint (bo_max b)) (k + i) \<and>
    sint (delays fs b ! i) \<le> sint (bo_max b)"
  using assms
proof (induction fs arbitrary: b k i)
  case (Cons f fs)
  show ?case
  proof (cases i)
    case 0
    have inv: "backoff_inv b" using Cons.prems(1) by (simp add: follows_def)
    from Cons.prems have f: "int63n_spec f" by simp
    from Next_value [OF inv f] obtain j where j: "0 \<le> j" "5 * j \<le> sint (fst (nextBase b))"
      and v: "sint (fst (Next f b)) = min (sint (fst (nextBase b)) + j) (sint (bo_max b))" by blast
    have base: "sint (fst (nextBase b)) = spec_delay (sint (bo_min b)) (sint (bo_max b)) k"
      using nextBase_value [OF inv] follows_spec [OF Cons.prems(1)] by simp
    have "sint (fst (nextBase b)) \<le> sint (bo_max b)" using base_range [OF inv] by simp
    with j v show ?thesis using 0 by (simp add: base [symmetric] min_def)
  next
    case (Suc i')
    have "follows (snd (Next f b)) (Suc k)" using follows_step [OF Cons.prems(1)] by simp
    from Cons.IH [OF this, of i'] Cons.prems Suc show ?thesis by simp
  qed
qed simp

section \<open>Properties\<close>

text \<open>
  C23. From a fresh \<open>Backoff\<close> with \<open>0 < min \<le> max\<close>, the i-th delay \<open>Next\<close> returns, with
  any draws of \<open>rand.Int63n\<close>, is at least \<open>min(min * 2^i, max)\<close> in unbounded integers,
  at most a fifth more, and never above \<open>max\<close>: the jitter and the sum never
  wrap, and a shift that does is noticed and never taken for a delay.
\<close>

theorem delays_refine_exponential:
  assumes "0 < sint mn" and "sint mn \<le> sint mx" and "list_all int63n_spec fs" and "i < length fs"
  shows "spec_delay (sint mn) (sint mx) i \<le> sint (delays fs (NewBackoff mn mx) ! i) \<and>
    5 * sint (delays fs (NewBackoff mn mx) ! i) \<le> 6 * spec_delay (sint mn) (sint mx) i \<and>
    sint (delays fs (NewBackoff mn mx) ! i) \<le> sint mx"
  using delays_follow [OF follows_start [OF assms(1,2)] assms(3,4)] by (simp add: NewBackoff_def)

lemma int63n_zero: "int63n_spec (\<lambda>n. 0)"
  by (simp add: int63n_spec_def)

theorem delays_refine_exponential_witness:
  "spec_delay 1 30 2 \<le> sint (delays [\<lambda>n. 0, \<lambda>n. 0, \<lambda>n. 0] (NewBackoff 1 30) ! 2) \<and>
   5 * sint (delays [\<lambda>n. 0, \<lambda>n. 0, \<lambda>n. 0] (NewBackoff 1 30) ! 2) \<le> 6 * spec_delay 1 30 2 \<and>
   sint (delays [\<lambda>n. 0, \<lambda>n. 0, \<lambda>n. 0] (NewBackoff 1 30) ! 2) \<le> 30"
  using delays_refine_exponential [of 1 30 "[\<lambda>n. 0, \<lambda>n. 0, \<lambda>n. 0]" 2] int63n_zero by simp

lemma attempt_below_64: "backoff_inv b \<Longrightarrow> attempt b \<le> 63"
proof -
  assume inv: "backoff_inv b"
  have "2 ^ attempt b \<le> sint (bo_min b) * 2 ^ attempt b"
    using inv by (simp add: backoff_inv_def bounds_ok_def)
  also have "\<dots> < 2 ^ 64" by (rule shift_below_64 [OF inv])
  finally have "attempt b < 64" by (simp only: power_strict_increasing_iff)
  then show "attempt b \<le> 63" by simp
qed

text \<open>
  The attempt counter is only ever advanced while the shift stays within \<open>max\<close>, so it
  never passes 63 over any sequence of draws and stability reports: the shift count is always
  in range and the first overflowing shift is exactly one bit past it, where it reads negative.
\<close>

theorem attempt_bounded:
  assumes "0 < sint mn" and "sint mn \<le> sint mx"
    and "list_all (\<lambda>c. case c of Delay f \<Rightarrow> int63n_spec f | Stable u \<Rightarrow> True) cs"
  shows "attempt (snd (retry_run Next ResetIfStable cs (NewBackoff mn mx))) \<le> 63"
  using backoff.retry_run_within [OF NewBackoff_inv [OF assms(1,2)] assms(3)] attempt_below_64 by blast

theorem attempt_bounded_witness:
  "attempt (snd (retry_run Next ResetIfStable [Delay (\<lambda>n. 0), Stable 5, Delay (\<lambda>n. 0)] (NewBackoff 1 30))) \<le> 63"
  by (rule attempt_bounded) (simp_all add: int63n_zero)

end
