(* ===== verification/Http.thy ===== *)
theory Http
  imports Peer_Identity Go_Int
begin

text \<open>
  What both halves share of \<^verbatim>\<open>net/http\<close> and \<^verbatim>\<open>httputil.ReverseProxy\<close>: the part of a request the
  handlers read, the reply, and the request that is sent on.
\<close>

text \<open>
  What the pipeline reads and rebinds of an \<open>http.Request\<close>: \<open>URL.Path\<close> (decoded), \<open>Host\<close>,
  \<open>TLS\<close>, the cap put on its body and the timeout put on its context.
\<close>

record request =
  URL_Path :: string
  req_Host :: string
  req_TLS :: "ConnectionState option"
  body_cap :: "int option"
  timeout :: "duration option"

datatype reply =
    HttpError int string          \<comment> \<open>\<open>http.Error\<close>: status and body\<close>
  | Backend string                \<comment> \<open>opencode's response, copied through\<close>
  | Aborted string                \<comment> \<open>the response, cut short by a panic with \<open>http.ErrAbortHandler\<close>\<close>
  | NilDereference                \<comment> \<open>a panic on a nil certificate\<close>

text \<open>
  How \<open>ReverseProxy\<close> gets on copying a response's body: to the end, until the next hop fails, or
  until the client is gone. In the last two cases it panics with \<open>ErrAbortHandler\<close>, having printed
  a read error before; deferred calls run, and net/http drops the connection.
\<close>

datatype body_copy = Copied | ReadBroke string | Interrupted

definition copy_response :: "body_copy \<Rightarrow> string \<Rightarrow> reply \<times> string list" where
  "copy_response how resp =
     (case how of
        Copied \<Rightarrow> (Backend resp, [])
      | ReadBroke err \<Rightarrow> (Aborted resp, [''httputil: ReverseProxy read error during body copy: '' @ err])
      | Interrupted \<Rightarrow> (Aborted resp, []))"

lemma copy_response_result:
  "copy_response how resp = (rep, ls) \<Longrightarrow>
     rep = Backend resp \<and> how = Copied \<and> ls = [] \<or> rep = Aborted resp \<and> how \<noteq> Copied \<and> length ls \<le> 1"
  by (auto simp: copy_response_def split: body_copy.splits)

lemma copy_response_Backend: "copy_response how resp = (Backend q, ls) \<longleftrightarrow> how = Copied \<and> q = resp \<and> ls = []"
  by (auto simp: copy_response_def split: body_copy.splits)

lemma copy_response_Copied [simp]: "copy_response Copied resp = (Backend resp, [])"
  by (simp add: copy_response_def)

text \<open>The request \<open>ReverseProxy\<close> sends on.\<close>

record outgoing =
  out_Scheme :: string
  out_URL_Host :: string
  out_Path :: string
  out_Host :: string
  out_body_cap :: "int option"
  out_timeout :: "duration option"

text \<open>
  Something the request waits for, under the deadline of its context: \<open>None\<close> is what would never
  come. With a deadline the wait then ends with the error \<open>expired\<close>; without one it does not end.
\<close>

definition by_deadline :: "outgoing \<Rightarrow> 'a \<Rightarrow> 'a option \<Rightarrow> 'a option" where
  "by_deadline out expired outcome =
     (case outcome of
        Some x \<Rightarrow> Some x
      | None \<Rightarrow> (case out_timeout out of None \<Rightarrow> None | Some d \<Rightarrow> Some expired))"

lemma by_deadline_None: "by_deadline out expired outcome = None \<longleftrightarrow> outcome = None \<and> out_timeout out = None"
  by (auto simp: by_deadline_def split: option.splits)

lemma by_deadline_Some:
  "by_deadline out expired outcome = Some x \<longleftrightarrow>
     outcome = Some x \<or> outcome = None \<and> out_timeout out \<noteq> None \<and> x = expired"
  by (auto simp: by_deadline_def split: option.splits)

lemma by_deadline_comes [simp]: "by_deadline out expired (Some x) = Some x"
  by (simp add: by_deadline_def)

definition DeadlineExceeded :: string where
  "DeadlineExceeded = ''context deadline exceeded''"

definition StatusText :: "int \<Rightarrow> string" where
  "StatusText status =
     (if status = 400 then ''Bad Request''
      else if status = 403 then ''Forbidden''
      else if status = 503 then ''Service Unavailable''
      else [])"

text \<open>\<open>ReverseProxy\<close>'s joining of the target's path with the request's.\<close>

definition singleJoiningSlash :: "string \<Rightarrow> string \<Rightarrow> string" where
  "singleJoiningSlash a b =
     (if HasSuffix a ''/'' \<and> HasPrefix b ''/'' then a @ tl b
      else if \<not> HasSuffix a ''/'' \<and> \<not> HasPrefix b ''/'' then a @ ''/'' @ b
      else a @ b)"

lemma joined_rooted: "HasPrefix p ''/'' \<Longrightarrow> singleJoiningSlash [] p = p"
  by (simp add: singleJoiningSlash_def HasSuffix_def)

end
