(* ===== verification/Local_Client.thy ===== *)
theory Local_Client
  imports Path_Guard Tunnel Backoff Http
begin

text \<open>
  The local half, \<^verbatim>\<open>local.go\<close>: the reverse proxy to opencode, the request limits in front of it,
  and the reconnect loop \<^verbatim>\<open>Run\<close>. The loop is run over a list of rounds, each of which says what
  the world does during one iteration: whether the context is cancelled, what the dial gives, how
  the session ends and after what time, the random draw, and whether the timer beats the context.
\<close>

section \<open>The reverse proxy to opencode\<close>

record url =
  url_Scheme :: string
  url_Host :: string
  url_Path :: string

record local_env =
  lwide :: "nat \<Rightarrow> bool"
  url_Parse :: "string \<Rightarrow> (string, url) result"
  opencode :: "outgoing \<Rightarrow> (string, string) result"     \<comment> \<open>dial and round trip\<close>
  home_copy :: "outgoing \<Rightarrow> body_copy"                  \<comment> \<open>the copying of its body\<close>

type_synonym handler = "request \<Rightarrow> reply \<times> string list"    \<comment> \<open>the reply and the lines logged\<close>

definition local_Rewrite :: "url \<Rightarrow> request \<Rightarrow> outgoing" where
  "local_Rewrite target r =
     \<lparr>out_Scheme = url_Scheme target, out_URL_Host = url_Host target,
      out_Path = singleJoiningSlash (url_Path target) (URL_Path r), out_Host = url_Host target,
      out_body_cap = body_cap r, out_timeout = timeout r\<rparr>"

definition local_ErrorHandler :: "outgoing \<Rightarrow> string \<Rightarrow> reply \<times> string list" where
  "local_ErrorHandler out err =
     (HttpError 502 ''opencode unreachable'', [''opencode proxy error for '' @ out_Path out @ '': '' @ err])"

definition NewLocalReverseProxy :: "local_env \<Rightarrow> string \<Rightarrow> (string, handler) result" where
  "NewLocalReverseProxy env opencodeURL =
     (case url_Parse env opencodeURL of
        Inl err \<Rightarrow> Inl err
      | Inr target \<Rightarrow>
          Inr (\<lambda>r. case opencode env (local_Rewrite target r) of
                     Inl err \<Rightarrow> local_ErrorHandler (local_Rewrite target r) err
                   | Inr resp \<Rightarrow> copy_response (home_copy env (local_Rewrite target r)) resp))"

definition WithLocalRequestLimits :: "local_env \<Rightarrow> int \<Rightarrow> string list \<Rightarrow> handler \<Rightarrow> handler" where
  "WithLocalRequestLimits env maxRequestBytes allowedPrefixes nxt r =
     (if \<not> pathIsNormalized (URL_Path r) then
        (HttpError 400 ''bad request'',
         [''local: rejected non-normalized path '' @ Quote (lwide env) (URL_Path r)])
      else if \<not> pathAllowed allowedPrefixes (URL_Path r) then
        (HttpError 403 ''forbidden'',
         [''local: rejected path '' @ Quote (lwide env) (URL_Path r) @ '' not on the allowlist''])
      else nxt (r\<lparr>body_cap := Some maxRequestBytes\<rparr>))"

section \<open>LocalClient\<close>

datatype serve_error = ErrServerClosed | ServeError string

fun serve_error_text :: "serve_error option \<Rightarrow> string" where
  "serve_error_text None = ''<nil>''"
| "serve_error_text (Some ErrServerClosed) = ''http: Server closed''"
| "serve_error_text (Some (ServeError e)) = e"

text \<open>
  The client, with what it has done so far: the lines logged, the delays it waited for, the
  sessions it dialed and the sessions it closed.
\<close>

record LocalClient =
  lc_remoteURL :: string
  lc_backoff :: Backoff
  lc_log :: "string list"
  lc_waits :: "duration list"
  lc_dialed :: "sid list"
  lc_closed :: "sid list"

definition NewLocalClient :: "string \<Rightarrow> Backoff \<Rightarrow> LocalClient" where
  "NewLocalClient remoteURL b =
     \<lparr>lc_remoteURL = remoteURL, lc_backoff = b, lc_log = [], lc_waits = [], lc_dialed = [], lc_closed = []\<rparr>"

record round =
  ctx_err :: bool                       \<comment> \<open>\<open>ctx.Err() != nil\<close> at the loop head\<close>
  dialed :: "(string, sid) result"      \<comment> \<open>what \<open>DialTunnel\<close> returns\<close>
  was_cancelled :: bool                 \<comment> \<open>how the wait on the session ended\<close>
  serve_result :: "serve_error option"
  up_for :: duration
  draw :: "int64 \<Rightarrow> int64"
  ctx_first :: bool                     \<comment> \<open>the context beats the retry timer\<close>

definition sleepCtx :: "bool \<Rightarrow> duration \<Rightarrow> bool" where
  "sleepCtx ctx_wins d = (\<not> ctx_wins)"

definition waitToRetry :: "round \<Rightarrow> LocalClient \<Rightarrow> bool \<times> LocalClient" where
  "waitToRetry rd c =
     (let (d, b) = Next (draw rd) (lc_backoff c)
      in (sleepCtx (ctx_first rd) d, c\<lparr>lc_backoff := b, lc_waits := lc_waits c @ [d]\<rparr>))"

definition clog :: "string \<Rightarrow> LocalClient \<Rightarrow> LocalClient" where
  "clog line c = c\<lparr>lc_log := lc_log c @ [line]\<rparr>"

text \<open>One iteration of \<open>Run\<close>: whether the loop goes on, and the client then.\<close>

definition run_round :: "round \<Rightarrow> LocalClient \<Rightarrow> bool \<times> LocalClient" where
  "run_round rd c =
     (if ctx_err rd then (False, c)
      else
        case dialed rd of
          Inl err \<Rightarrow> waitToRetry rd (clog (''tunnel dial failed: '' @ err) c)
        | Inr sess \<Rightarrow>
            (let c1 = clog (''tunnel connected to '' @ lc_remoteURL c) (c\<lparr>lc_dialed := lc_dialed c @ [sess]\<rparr>);
                 (cancelled, serveErr) = runTunnelSession (was_cancelled rd) (serve_result rd);
                 c2 = c1\<lparr>lc_closed := lc_closed c1 @ [sess]\<rparr>
             in if cancelled then (False, c2)
                else
                  (let c3 = c2\<lparr>lc_backoff := ResetIfStable (lc_backoff c2) (up_for rd)\<rparr>;
                       c4 = (if serveErr = Some ErrServerClosed then c3
                             else clog (''tunnel session ended: '' @ serve_error_text serveErr) c3)
                   in waitToRetry rd c4)))"

text \<open>\<open>Run\<close>: \<open>True\<close> when it has returned (it returns nil), \<open>False\<close> when it still runs.\<close>

fun Run :: "round list \<Rightarrow> LocalClient \<Rightarrow> bool \<times> LocalClient" where
  "Run [] c = (False, c)"
| "Run (rd # rds) c = (case run_round rd c of (again, c') \<Rightarrow> if again then Run rds c' else (True, c'))"

section \<open>The loop as a retry policy\<close>

text \<open>The calls one round makes on the backoff, and whether the round ends the loop.\<close>

definition calls :: "round \<Rightarrow> (int64 \<Rightarrow> int64) retry_call list" where
  "calls rd =
     (if ctx_err rd then []
      else
        case dialed rd of
          Inl err \<Rightarrow> [Delay (draw rd)]
        | Inr sess \<Rightarrow> if was_cancelled rd then [] else [Stable (up_for rd), Delay (draw rd)])"

definition ends :: "round \<Rightarrow> bool" where
  "ends rd \<longleftrightarrow> ctx_err rd \<or> (\<not> is_ok (dialed rd) \<or> \<not> was_cancelled rd) \<and> ctx_first rd \<or>
     is_ok (dialed rd) \<and> was_cancelled rd"

fun rounds_run :: "round list \<Rightarrow> round list" where
  "rounds_run [] = []"
| "rounds_run (rd # rds) = rd # (if ends rd then [] else rounds_run rds)"

lemma run_round_again: "fst (run_round rd c) \<longleftrightarrow> \<not> ends rd"
  by (auto simp: run_round_def ends_def waitToRetry_def sleepCtx_def runTunnelSession_def split_beta Let_def
      split: sum.splits)

lemma run_round_effect:
  "let (ds, b) = retry_run Next ResetIfStable (calls rd) (lc_backoff c); c' = snd (run_round rd c)
   in lc_waits c' = lc_waits c @ ds \<and> lc_backoff c' = b \<and> lc_remoteURL c' = lc_remoteURL c"
  by (auto simp: run_round_def calls_def waitToRetry_def runTunnelSession_def clog_def split_beta Let_def
      split: sum.splits)

lemma run_round_sessions:
  "lc_dialed c = lc_closed c \<Longrightarrow> lc_dialed (snd (run_round rd c)) = lc_closed (snd (run_round rd c))"
  by (auto simp: run_round_def waitToRetry_def runTunnelSession_def clog_def split_beta Let_def
      split: sum.splits)

lemma retry_run_append:
  "retry_run nxt stb (xs @ ys) b =
     (let (ds, b1) = retry_run nxt stb xs b; (es, b2) = retry_run nxt stb ys b1 in (ds @ es, b2))"
proof (induction xs arbitrary: b)
  case (Cons x xs)
  then show ?case by (cases x) (simp_all add: split_beta Let_def)
qed simp

lemma Run_effect:
  "let (ds, b) = retry_run Next ResetIfStable (concat (map calls (rounds_run rds))) (lc_backoff c);
       c' = snd (Run rds c)
   in lc_waits c' = lc_waits c @ ds \<and> lc_backoff c' = b"
proof (induction rds arbitrary: c)
  case (Cons rd rds)
  note eff = run_round_effect [of rd c]
  show ?case
  proof (cases "ends rd")
    case True
    then have "Run (rd # rds) c = (True, snd (run_round rd c))"
      using run_round_again [of rd c] by (simp add: split_beta)
    then show ?thesis using eff True by (simp add: split_beta Let_def)
  next
    case False
    then have "Run (rd # rds) c = Run rds (snd (run_round rd c))"
      using run_round_again [of rd c] by (simp add: split_beta)
    then show ?thesis
      using eff Cons.IH [of "snd (run_round rd c)"] False by (auto simp: retry_run_append split_beta Let_def)
  qed
qed simp

lemma Run_sessions: "lc_dialed c = lc_closed c \<Longrightarrow> lc_dialed (snd (Run rds c)) = lc_closed (snd (Run rds c))"
proof (induction rds arbitrary: c)
  case (Cons rd rds)
  then show ?case using run_round_sessions [OF Cons.prems, of rd] by (simp add: split_beta)
qed simp

lemma Run_returns: "fst (Run rds c) \<longleftrightarrow> list_ex ends rds"
proof (induction rds arbitrary: c)
  case (Cons rd rds)
  then show ?case using run_round_again [of rd c] by (simp add: split_beta)
qed simp

section \<open>Properties\<close>

text \<open>
  The reconnect loop returns exactly when the context was cancelled, be it seen at the loop
  head, while the session was served, or while waiting to retry: no dial error and no serve
  error ends it. Every session it dialed has been closed when its round is over.
\<close>

theorem reconnect_loop_ends_only_on_cancel:
  "(fst (Run rds (NewLocalClient u b)) \<longleftrightarrow>
      list_ex (\<lambda>rd. ctx_err rd \<or>
        (case dialed rd of
           Inl err \<Rightarrow> ctx_first rd
         | Inr sess \<Rightarrow> was_cancelled rd \<or> ctx_first rd)) rds) \<and>
   lc_closed (snd (Run rds (NewLocalClient u b))) = lc_dialed (snd (Run rds (NewLocalClient u b)))"
proof -
  have "ends = (\<lambda>rd. ctx_err rd \<or> (case dialed rd of Inl err \<Rightarrow> ctx_first rd
      | Inr sess \<Rightarrow> was_cancelled rd \<or> ctx_first rd))"
    by (rule ext) (auto simp: ends_def split: sum.splits)
  then show ?thesis
    using Run_returns [of rds "NewLocalClient u b"] Run_sessions [of "NewLocalClient u b" rds]
    by (simp add: NewLocalClient_def)
qed

text \<open>
  With a validated backoff range, every delay the loop ever waits for lies between the
  minimum and the maximum, whatever sequence of failed dials and short or long sessions it goes
  through and whatever the random draws: it never spins and never waits past the maximum.
\<close>

theorem reconnect_delays_stay_in_range:
  assumes "0 < sint mn" and "sint mn \<le> sint mx" and "list_all (\<lambda>rd. int63n_spec (draw rd)) rds"
  shows "list_all (\<lambda>d. sint mn \<le> sint d \<and> sint d \<le> sint mx)
    (lc_waits (snd (Run rds (NewLocalClient u (NewBackoff mn mx)))))"
proof -
  let ?b = "NewBackoff mn mx" and ?cs = "concat (map calls (rounds_run rds))"
  have sub: "set (rounds_run xs) \<subseteq> set xs" for xs by (induction xs) auto
  have "list_all (\<lambda>c. case c of Delay f \<Rightarrow> int63n_spec f | Stable t \<Rightarrow> True) (calls rd)"
    if "int63n_spec (draw rd)" for rd
    using that by (simp add: calls_def split: sum.splits)
  then have "list_all (\<lambda>c. case c of Delay f \<Rightarrow> int63n_spec f | Stable t \<Rightarrow> True) ?cs"
    using assms(3) sub [of rds] by (auto simp: list_all_iff)
  from backoff.retry_run_within [OF NewBackoff_inv [OF assms(1,2)] this]
  have "list_all (\<lambda>d. sint mn \<le> sint d \<and> sint d \<le> sint mx) (fst (retry_run Next ResetIfStable ?cs ?b))"
    by (simp add: NewBackoff_def)
  then show ?thesis
    using Run_effect [of rds "NewLocalClient u ?b"] by (simp add: NewLocalClient_def split_beta Let_def)
qed

definition failed_dial :: round where
  "failed_dial = \<lparr>ctx_err = False, dialed = Inl ''refused'', was_cancelled = False, serve_result = None,
     up_for = 0, draw = (\<lambda>n. 0), ctx_first = False\<rparr>"

theorem reconnect_delays_stay_in_range_witness:
  "list_all (\<lambda>d. sint (1 :: duration) \<le> sint d \<and> sint d \<le> sint (30 :: duration))
     (lc_waits (snd (Run [failed_dial, failed_dial] (NewLocalClient ''wss://code.example.com/_tunnel'' (NewBackoff 1 30)))))"
  by (rule reconnect_delays_stay_in_range) (simp_all add: failed_dial_def int63n_zero)

text \<open>The local half's instance of the gate contract.\<close>

interpretation local_gate: path_gate
  "\<lambda>ps path. \<exists>q. WithLocalRequestLimits env m ps (\<lambda>r. (Backend (URL_Path r), [])) (r\<lparr>URL_Path := path\<rparr>) = (Backend q, [])"
  for env m r
  by unfold_locales (auto simp: WithLocalRequestLimits_def split: if_splits)

text \<open>
  C29. The home half keeps its own floor whatever the remote half let through, for every allowlist
  of rooted prefixes, as a loaded configuration has, the empty one of the default included: a request is
  answered 400 exactly when its path is not what resolving its own segments on a stack gives; else 403
  exactly when the home has an allowlist and the resolved path is covered by no prefix of it that is
  itself in that form, segment by segment (below it, when the prefix is written with a slash at its
  end; a prefix in any other form admits nothing); and else it goes on, with the body cap replaced
  by the home's own. Both refusals log one line, which is safe whatever the path holds.
\<close>

theorem home_keeps_its_own_floor:
  assumes "\<forall>p\<in>set ps. HasPrefix p ''/''"
  shows "if Clean_spec (URL_Path r) \<noteq> URL_Path r
    then \<exists>line. WithLocalRequestLimits env m ps nxt r = (HttpError 400 ''bad request'', [line]) \<and> log_safe line
    else if ps = [] \<or> (\<exists>p\<in>set ps. proper_prefix p \<and> covers p (URL_Path r))
    then WithLocalRequestLimits env m ps nxt r = nxt (r\<lparr>body_cap := Some m\<rparr>)
    else \<exists>line. WithLocalRequestLimits env m ps nxt r = (HttpError 403 ''forbidden'', [line]) \<and> log_safe line"
proof (cases "Clean_spec (URL_Path r) = URL_Path r")
  case False
  then have "\<not> pathIsNormalized (URL_Path r)" by (simp add: normalized_resolution)
  then have "WithLocalRequestLimits env m ps nxt r =
      (HttpError 400 ''bad request'', [''local: rejected non-normalized path '' @ Quote (lwide env) (URL_Path r)])"
    by (simp add: WithLocalRequestLimits_def)
  moreover have "log_safe (''local: rejected non-normalized path '' @ Quote (lwide env) (URL_Path r))"
    by (simp add: control_def Quote_log_safe)
  ultimately show ?thesis using False by auto
next
  case True
  then have norm: "pathIsNormalized (URL_Path r)" by (simp add: normalized_resolution)
  have allowed: "pathAllowed ps (URL_Path r) \<longleftrightarrow> ps = [] \<or> (\<exists>p\<in>set ps. proper_prefix p \<and> covers p (URL_Path r))"
    by (rule allowed_iff_covered [OF assms norm])
  have "log_safe (''local: rejected path '' @ Quote (lwide env) (URL_Path r) @ '' not on the allowlist'')"
    by (simp add: control_def Quote_log_safe)
  then have "\<exists>line. WithLocalRequestLimits env m ps nxt r = (HttpError 403 ''forbidden'', [line]) \<and> log_safe line"
    if "\<not> pathAllowed ps (URL_Path r)"
    using that norm by (simp only: WithLocalRequestLimits_def if_False not_True_eq_False if_True not_False_eq_True) blast
  then show ?thesis using True norm allowed by (simp add: WithLocalRequestLimits_def)
qed

definition echo_env :: local_env where
  "echo_env = \<lparr>lwide = (\<lambda>r. False), url_Parse = (\<lambda>u. Inr \<lparr>url_Scheme = ''http'', url_Host = u, url_Path = []\<rparr>),
     opencode = (\<lambda>out. Inr (out_Path out)), home_copy = (\<lambda>out. Copied)\<rparr>"

theorem home_keeps_its_own_floor_witness:
  "WithLocalRequestLimits echo_env 5 [''/api/''] (\<lambda>r. (Backend (URL_Path r), []))
     \<lparr>URL_Path = ''/api/foo'', req_Host = [], req_TLS = None, body_cap = None, timeout = None\<rparr> =
   (Backend ''/api/foo'', []) \<and>
   (\<exists>line. WithLocalRequestLimits echo_env 5 [''/api/''] (\<lambda>r. (Backend (URL_Path r), []))
     \<lparr>URL_Path = ''/api'', req_Host = [], req_TLS = None, body_cap = None, timeout = None\<rparr> =
   (HttpError 403 ''forbidden'', [line]) \<and> log_safe line)"
proof -
  have rooted: "\<forall>p\<in>set [''/api/'']. HasPrefix p ''/''" by (simp add: HasPrefix_single)
  have proper: "proper_prefix ''/api/''"
    by (simp add: proper_prefix_def clean_examples HasPrefix_single HasSuffix_single TrimSuffix_single)
  have res: "Clean_spec ''/api/foo'' = ''/api/foo''" "Clean_spec ''/api'' = ''/api''"
    using clean_examples(1,2) by (simp_all only: normalized_resolution)
  have "resolve True ''/api/foo'' = segments ''/api/foo''" "resolve True ''/api'' = segments ''/api''"
    using clean_examples(1,2) by (simp_all add: normalized_path_resolve HasPrefix_single)
  then have "covers ''/api/'' ''/api/foo''" "\<not> covers ''/api/'' ''/api''"
    by (simp_all add: covers_def HasPrefix_single HasSuffix_single)
  then show ?thesis
    using home_keeps_its_own_floor [OF rooted, of "\<lparr>URL_Path = ''/api/foo'', req_Host = [], req_TLS = None, body_cap = None, timeout = None\<rparr>" echo_env 5
        "\<lambda>r. (Backend (URL_Path r), [])"]
      home_keeps_its_own_floor [OF rooted, of "\<lparr>URL_Path = ''/api'', req_Host = [], req_TLS = None, body_cap = None, timeout = None\<rparr>" echo_env 5
        "\<lambda>r. (Backend (URL_Path r), [])"] res proper
    by simp
qed

end
