(* ===== verification/Stream_Limits.thy ===== *)
theory Stream_Limits
  imports Prelude
begin

text \<open>
  The two stream budgets of \<^verbatim>\<open>remote.go\<close>: \<^verbatim>\<open>perCertLimiter\<close>, a counter per certificate serial
  whose entries disappear at zero, and the global semaphore, a buffered channel. Both are
  instances of one contract, a pool of permits; the request pipeline relies on that contract.
\<close>

section \<open>perCertLimiter\<close>

record perCertLimiter =
  inUse :: "string \<Rightarrow> int option"
  lim_cap :: int

definition newPerCertLimiter :: "int \<Rightarrow> perCertLimiter" where
  "newPerCertLimiter n = \<lparr>inUse = Map.empty, lim_cap = n\<rparr>"

text \<open>A map read of a missing key is the zero value.\<close>

definition in_use :: "perCertLimiter \<Rightarrow> string \<Rightarrow> int" where
  "in_use p serial = (case inUse p serial of None \<Rightarrow> 0 | Some n \<Rightarrow> n)"

definition acquire :: "perCertLimiter \<Rightarrow> string \<Rightarrow> bool \<times> perCertLimiter" where
  "acquire p serial =
     (if lim_cap p \<le> 0 then (True, p)
      else if lim_cap p \<le> in_use p serial then (False, p)
      else (True, p\<lparr>inUse := (inUse p)(serial \<mapsto> in_use p serial + 1)\<rparr>))"

definition release :: "perCertLimiter \<Rightarrow> string \<Rightarrow> perCertLimiter" where
  "release p serial =
     (if lim_cap p \<le> 0 then p
      else if in_use p serial \<le> 1 then p\<lparr>inUse := (inUse p)(serial := None)\<rparr>
      else p\<lparr>inUse := (inUse p)(serial \<mapsto> in_use p serial - 1)\<rparr>)"

section \<open>The semaphore\<close>

text \<open>
  \<open>make(chan struct{}, n)\<close>: a send takes a buffer slot, or takes the \<open>default\<close> branch when
  the buffer is full; a receive frees one, or blocks (\<open>None\<close>) when it is empty.
\<close>

record semaphore =
  sem_len :: nat
  sem_cap :: nat

definition make_sem :: "int \<Rightarrow> semaphore" where
  "make_sem n = \<lparr>sem_len = 0, sem_cap = nat n\<rparr>"

definition try_send :: "semaphore \<Rightarrow> semaphore option" where
  "try_send c = (if sem_len c < sem_cap c then Some (c\<lparr>sem_len := sem_len c + 1\<rparr>) else None)"

definition receive :: "semaphore \<Rightarrow> semaphore option" where
  "receive c = (if sem_len c = 0 then None else Some (c\<lparr>sem_len := sem_len c - 1\<rparr>))"

section \<open>The contract: a pool of permits\<close>

datatype 'k permit_op = Take 'k | Give 'k

text \<open>Run a history: a refused \<open>Take\<close> leaves no permit behind.\<close>

fun permit_run ::
  "('k \<Rightarrow> 'p \<Rightarrow> 'p option) \<Rightarrow> ('k \<Rightarrow> 'p \<Rightarrow> 'p) \<Rightarrow> 'k permit_op list \<Rightarrow> 'p \<Rightarrow> 'p"
where
  "permit_run tk gv [] p = p"
| "permit_run tk gv (Take k # ops) p =
     permit_run tk gv ops (case tk k p of None \<Rightarrow> p | Some p' \<Rightarrow> p')"
| "permit_run tk gv (Give k # ops) p = permit_run tk gv ops (gv k p)"

text \<open>The specification: a count per key, with the same limit for every key.\<close>

fun spec_run :: "nat \<Rightarrow> 'k permit_op list \<Rightarrow> ('k \<Rightarrow> nat) \<Rightarrow> ('k \<Rightarrow> nat)" where
  "spec_run lim [] n = n"
| "spec_run lim (Take k # ops) n = spec_run lim ops (if n k < lim then n(k := n k + 1) else n)"
| "spec_run lim (Give k # ops) n = spec_run lim ops (n(k := n k - 1))"

text \<open>Permits are only given back by those who hold one.\<close>

fun balanced :: "nat \<Rightarrow> 'k permit_op list \<Rightarrow> ('k \<Rightarrow> nat) \<Rightarrow> bool" where
  "balanced lim [] n = True"
| "balanced lim (Take k # ops) n = balanced lim ops (if n k < lim then n(k := n k + 1) else n)"
| "balanced lim (Give k # ops) n = (0 < n k \<and> balanced lim ops (n(k := n k - 1)))"

locale permit_pool =
  fixes inv :: "'p \<Rightarrow> bool"
    and held :: "'p \<Rightarrow> 'k \<Rightarrow> nat"
    and limit :: "'p \<Rightarrow> nat"
    and tk :: "'k \<Rightarrow> 'p \<Rightarrow> 'p option"
    and gv :: "'k \<Rightarrow> 'p \<Rightarrow> 'p"
  assumes tk_iff: "inv p \<Longrightarrow> tk k p = None \<longleftrightarrow> limit p \<le> held p k"
    and tk_held: "inv p \<Longrightarrow> tk k p = Some p' \<Longrightarrow> held p' = (held p)(k := held p k + 1)"
    and tk_inv: "inv p \<Longrightarrow> tk k p = Some p' \<Longrightarrow> inv p' \<and> limit p' = limit p"
    and gv_held: "inv p \<Longrightarrow> 0 < held p k \<Longrightarrow> held (gv k p) = (held p)(k := held p k - 1)"
    and gv_inv: "inv p \<Longrightarrow> 0 < held p k \<Longrightarrow> inv (gv k p) \<and> limit (gv k p) = limit p"
    and held_le: "inv p \<Longrightarrow> held p k \<le> limit p"
begin

lemma run_refines:
  "inv p \<Longrightarrow> balanced (limit p) ops (held p) \<Longrightarrow>
   inv (permit_run tk gv ops p) \<and> limit (permit_run tk gv ops p) = limit p \<and>
   held (permit_run tk gv ops p) = spec_run (limit p) ops (held p)"
proof (induction ops arbitrary: p)
  case (Cons a ops)
  show ?case
  proof (cases a)
    case (Take k)
    show ?thesis
    proof (cases "tk k p")
      case None
      then have "\<not> held p k < limit p" using tk_iff [OF Cons.prems(1)] by auto
      with None Take Cons show ?thesis by simp
    next
      case (Some p')
      then have "held p k < limit p" using tk_iff [OF Cons.prems(1), of k] by auto
      have held: "held p' = (held p)(k := held p k + 1)" by (rule tk_held [OF Cons.prems(1) Some])
      have inv: "inv p'" "limit p' = limit p" using tk_inv [OF Cons.prems(1) Some] by simp_all
      have "balanced (limit p') ops (held p')"
        using Cons.prems(2) Take \<open>held p k < limit p\<close> by (simp only: held inv(2) balanced.simps if_True)
      from Cons.IH [OF inv(1) this] show ?thesis
        using Some Take \<open>held p k < limit p\<close>
        by (simp only: permit_run.simps option.case spec_run.simps if_True held inv(2))
    qed
  next
    case (Give k)
    then have "0 < held p k" using Cons.prems(2) by simp
    then have held: "held (gv k p) = (held p)(k := held p k - 1)"
      and inv: "inv (gv k p)" "limit (gv k p) = limit p"
      using gv_held gv_inv Cons.prems(1) by simp_all
    have "balanced (limit (gv k p)) ops (held (gv k p))"
      using Cons.prems(2) Give by (simp only: held inv(2) balanced.simps)
    from Cons.IH [OF inv(1) this] show ?thesis
      using Give by (simp only: permit_run.simps spec_run.simps held inv(2))
  qed
qed simp

lemma give_back:
  assumes "inv p" and "tk k p = Some p'"
  shows "held (gv k p') = held p" and "inv (gv k p')"
proof -
  from assms have "inv p'" and h: "held p' = (held p)(k := held p k + 1)"
    by (simp_all add: tk_inv tk_held)
  then show "held (gv k p') = held p" and "inv (gv k p')" by (simp_all add: gv_held gv_inv)
qed

end

section \<open>Both budgets are pools\<close>

definition lim_inv :: "perCertLimiter \<Rightarrow> bool" where
  "lim_inv p \<longleftrightarrow> 0 < lim_cap p \<and> (\<forall>s n. inUse p s = Some n \<longrightarrow> 0 < n \<and> n \<le> lim_cap p)"

definition lim_held :: "perCertLimiter \<Rightarrow> string \<Rightarrow> nat" where
  "lim_held p s = nat (in_use p s)"

definition lim_take :: "string \<Rightarrow> perCertLimiter \<Rightarrow> perCertLimiter option" where
  "lim_take s p = (case acquire p s of (ok, p') \<Rightarrow> if ok then Some p' else None)"

lemma in_use_bounds: "lim_inv p \<Longrightarrow> 0 \<le> in_use p s \<and> in_use p s \<le> lim_cap p"
  by (auto simp: lim_inv_def in_use_def split: option.splits) (metis less_imp_le)

lemma limiter_entry:
  "lim_inv p \<Longrightarrow> inUse p s = (if nat (in_use p s) = 0 then None else Some (int (nat (in_use p s))))"
  unfolding lim_inv_def in_use_def by (cases "inUse p s") force+

lemma in_use_update [simp]:
  "in_use (p\<lparr>inUse := (inUse p)(s \<mapsto> n)\<rparr>) t = (if t = s then n else in_use p t)"
  "in_use (p\<lparr>inUse := (inUse p)(s := None)\<rparr>) t = (if t = s then 0 else in_use p t)"
  by (simp_all add: in_use_def)

interpretation limiter: permit_pool lim_inv lim_held "\<lambda>p. nat (lim_cap p)" lim_take "\<lambda>s p. release p s"
proof unfold_locales
  fix p p' s
  assume inv: "lim_inv p"
  note b = in_use_bounds [OF inv, of s] and cap = inv [unfolded lim_inv_def, THEN conjunct1]
  show "lim_take s p = None \<longleftrightarrow> nat (lim_cap p) \<le> lim_held p s"
    using cap b by (auto simp: lim_take_def acquire_def lim_held_def)
  show "lim_take s p = Some p' \<Longrightarrow> lim_held p' = (lim_held p)(s := lim_held p s + 1)"
    using cap b by (auto simp: lim_take_def acquire_def lim_held_def fun_eq_iff split: if_splits)
  show "lim_take s p = Some p' \<Longrightarrow> lim_inv p' \<and> nat (lim_cap p') = nat (lim_cap p)"
    using cap b inv by (auto simp: lim_take_def acquire_def lim_inv_def split: if_splits)
  show "0 < lim_held p s \<Longrightarrow> lim_held (release p s) = (lim_held p)(s := lim_held p s - 1)"
    using cap b by (auto simp: release_def lim_held_def fun_eq_iff)
  show "0 < lim_held p s \<Longrightarrow> lim_inv (release p s) \<and> nat (lim_cap (release p s)) = nat (lim_cap p)"
    using cap b inv by (auto simp: release_def lim_inv_def)
  show "lim_held p s \<le> nat (lim_cap p)" using b by (simp add: lim_held_def nat_mono)
qed

definition sem_inv :: "semaphore \<Rightarrow> bool" where
  "sem_inv c \<longleftrightarrow> sem_len c \<le> sem_cap c"

definition sem_give :: "unit \<Rightarrow> semaphore \<Rightarrow> semaphore" where
  "sem_give u c = (case receive c of None \<Rightarrow> c | Some c' \<Rightarrow> c')"

interpretation global: permit_pool sem_inv "\<lambda>c u. sem_len c" sem_cap "\<lambda>u. try_send" sem_give
  by unfold_locales
    (auto simp: sem_inv_def try_send_def sem_give_def receive_def fun_eq_iff split: if_splits)

section \<open>Histories of the limiter\<close>

text \<open>
  Over any history of acquires and releases in which only holders release, a limiter with a
  positive cap counts exactly the slots each serial holds, never more than its cap, and its map
  has an entry for a serial exactly while that serial holds a slot.
\<close>

theorem limiter_counts_holders:
  assumes "0 < cap" and "balanced (nat cap) ops (\<lambda>s. 0)"
  shows "let p = permit_run lim_take (\<lambda>s p. release p s) ops (newPerCertLimiter cap);
             n = spec_run (nat cap) ops (\<lambda>s. 0)
    in n s \<le> nat cap \<and> inUse p s = (if n s = 0 then None else Some (int (n s)))"
proof -
  let ?start = "newPerCertLimiter cap" and ?p = "permit_run lim_take (\<lambda>s p. release p s) ops (newPerCertLimiter cap)"
  have inv: "lim_inv ?start" and h0: "lim_held ?start = (\<lambda>s. 0)" and l0: "lim_cap ?start = cap"
    using assms(1) by (auto simp: lim_inv_def newPerCertLimiter_def lim_held_def in_use_def)
  have run: "lim_inv ?p" "lim_cap ?p = cap \<or> nat (lim_cap ?p) = nat cap"
      "lim_held ?p = spec_run (nat cap) ops (\<lambda>s. 0)"
    using limiter.run_refines [OF inv, of ops] assms h0 l0 by auto
  have n: "spec_run (nat cap) ops (\<lambda>s. 0) s = nat (in_use ?p s)"
    using run(3) [symmetric] by (simp add: lim_held_def)
  have "nat (in_use ?p s) \<le> nat cap"
    using limiter.held_le [OF run(1), of s] run(2) by (auto simp: lim_held_def)
  moreover have "inUse ?p s = (if nat (in_use ?p s) = 0 then None else Some (int (nat (in_use ?p s))))"
    by (rule limiter_entry [OF run(1)])
  ultimately show ?thesis unfolding Let_def n by simp
qed

theorem limiter_counts_holders_witness:
  "let p = permit_run lim_take (\<lambda>s p. release p s) [Take ''a'', Take ''a'', Take ''b'', Give ''a''] (newPerCertLimiter 1);
       n = spec_run (nat 1) [Take ''a'', Take ''a'', Take ''b'', Give ''a''] (\<lambda>s. 0)
   in n ''b'' \<le> nat 1 \<and> inUse p ''b'' = (if n ''b'' = 0 then None else Some (int (n ''b'')))"
  by (rule limiter_counts_holders) simp_all

end
