(* ===== verification/Remote_Proxy.thy ===== *)
theory Remote_Proxy
  imports Path_Guard Tunnel Stream_Limits Http
begin

text \<open>
  The request pipeline of \<^verbatim>\<open>remote.go\<close>, one request at a time: dispatch, \<open>tunnelUpgrade\<close> and
  \<open>deviceRequest\<close> with every guard in the code's order, the reverse proxy it forwards to, and
  \<open>acceptTunnel\<close>. The pieces are the atomic steps that the concurrent model interleaves.
\<close>

section \<open>Data\<close>

record RemoteProxyPolicy =
  pol_TunnelPath :: string
  pol_MaxConcurrentStreams :: int
  pol_MaxRequestBytes :: int
  pol_TunnelCN :: string
  pol_AllowedPathPrefixes :: "string list"
  pol_MaxStreamDuration :: duration
  pol_MaxStreamsPerCert :: int

text \<open>The shared state of the remote half, with the log as the lines it was given.\<close>

record remote =
  reg :: SessionRegistry
  closed :: "sid set"
  revocation :: "RevocationList option"
  perCert :: perCertLimiter
  sem :: semaphore
  log :: "string list"

text \<open>
  The environment: which runes print, whether the transport has an idle pooled stream, what
  opening a stream on a session gives (through \<open>raceCtx\<close>; it ends by itself, after yamux's
  \<open>StreamOpenTimeout\<close>), what the round trip gives, how the copying of its body ends, and how the
  websocket and yamux handshakes of an upgrade end. The last three may be \<open>None\<close>: an answer, the end of
  an event stream, or a handshake that never comes.
\<close>

record proxy_env =
  wide :: "nat \<Rightarrow> bool"
  idle_stream :: "outgoing \<Rightarrow> bool"
  open_stream :: "sid \<Rightarrow> (string, unit) result"
  round_trip :: "outgoing \<Rightarrow> (string, string) result option"
  body_copy :: "outgoing \<Rightarrow> body_copy option"
  handshake :: "request \<Rightarrow> (string, unit) result option"

section \<open>Replies and log lines\<close>

definition logf :: "string \<Rightarrow> remote \<Rightarrow> remote" where
  "logf line w = w\<lparr>log := log w @ [line]\<rparr>"

definition reject :: "int \<Rightarrow> string \<Rightarrow> remote \<Rightarrow> reply \<times> remote" where
  "reject status line w = (HttpError status (StatusText status), logf line w)"

definition rejected_from :: "proxy_env \<Rightarrow> request \<Rightarrow> string \<Rightarrow> string" where
  "rejected_from env r why =
     ''rejected request from '' @ GetPeerSubjectCN (wide env) (req_TLS r) @ '': '' @ why"

section \<open>The guards of deviceRequest\<close>

definition guard_role :: "proxy_env \<Rightarrow> request \<Rightarrow> remote \<Rightarrow> (reply \<times> remote, remote) result" where
  "guard_role env r w =
     (case VerifyPeerRole (req_TLS r) OUDevice of
        Some err \<Rightarrow> Inl (reject 403 (rejected_from env r (auth_error_text (wide env) err)) w)
      | None \<Rightarrow> Inr w)"

definition guard_device :: "proxy_env \<Rightarrow> fs \<Rightarrow> fs \<Rightarrow> request \<Rightarrow> remote \<Rightarrow> (reply \<times> remote, remote) result" where
  "guard_device env f1 f2 r w =
     (case revocation w of
        None \<Rightarrow> Inr w
      | Some rl \<Rightarrow>
          (case leafCertOf (req_TLS r) of
             None \<Rightarrow> Inl (NilDereference, w)
           | Some leaf \<Rightarrow>
               (let (bad, rl') = IsRevoked f1 f2 rl (serialOf leaf); w' = w\<lparr>revocation := Some rl'\<rparr>
                in if bad then Inl (reject 403 (rejected_from env r ''certificate revoked'') w')
                   else Inr w')))"

definition guard_tunnel :: "fs \<Rightarrow> fs \<Rightarrow> remote \<Rightarrow> (reply \<times> remote, remote) result" where
  "guard_tunnel f1 f2 w =
     (let (hit, closed', rev') = CloseCurrentIfRevoked f1 f2 (reg w) (revocation w) (closed w);
          w' = w\<lparr>closed := closed', revocation := rev'\<rparr>
      in if hit then Inl (reject 503 ''closed tunnel: its certificate is now revoked'' w')
         else Inr w')"

definition guard_path ::
  "proxy_env \<Rightarrow> RemoteProxyPolicy \<Rightarrow> request \<Rightarrow> remote \<Rightarrow> (reply \<times> remote, remote) result"
where
  "guard_path env pol r w =
     (if \<not> pathIsNormalized (URL_Path r) then
        Inl (reject 400 (rejected_from env r (''non-normalized path '' @ Quote (wide env) (URL_Path r))) w)
      else if \<not> pathAllowed (pol_AllowedPathPrefixes pol) (URL_Path r) then
        Inl (reject 403 (rejected_from env r
               (''path '' @ Quote (wide env) (URL_Path r) @ '' is not on the allowlist'')) w)
      else Inr w)"

section \<open>The budgets\<close>

definition take_cert_slot ::
  "proxy_env \<Rightarrow> RemoteProxyPolicy \<Rightarrow> request \<Rightarrow> certificate \<Rightarrow> remote \<Rightarrow> (reply \<times> remote, remote) result"
where
  "take_cert_slot env pol r leaf w =
     (let (ok, lim') = acquire (perCert w) (serialOf leaf); w' = w\<lparr>perCert := lim'\<rparr>
      in if \<not> ok then
           Inl (reject 503 (rejected_from env r
                  (''per-certificate stream cap of '' @ dec_text (pol_MaxStreamsPerCert pol) @ '' reached'')) w')
         else Inr w')"

definition drop_cert_slot :: "certificate \<Rightarrow> remote \<Rightarrow> remote" where
  "drop_cert_slot leaf w = w\<lparr>perCert := release (perCert w) (serialOf leaf)\<rparr>"

definition take_sem_slot ::
  "proxy_env \<Rightarrow> RemoteProxyPolicy \<Rightarrow> request \<Rightarrow> remote \<Rightarrow> (reply \<times> remote, remote) result"
where
  "take_sem_slot env pol r w =
     (case try_send (sem w) of
        Some sem' \<Rightarrow> Inr (w\<lparr>sem := sem'\<rparr>)
      | None \<Rightarrow>
          Inl (reject 503 (rejected_from env r
                 (dec_text (pol_MaxConcurrentStreams pol) @ '' concurrent requests already in flight'')) w))"

text \<open>The deferred receive. On an empty channel it blocks: \<open>None\<close>.\<close>

definition drop_sem_slot :: "remote \<Rightarrow> remote option" where
  "drop_sem_slot w = (case receive (sem w) of None \<Rightarrow> None | Some sem' \<Rightarrow> Some (w\<lparr>sem := sem'\<rparr>))"

definition bounded_request :: "RemoteProxyPolicy \<Rightarrow> request \<Rightarrow> request" where
  "bounded_request pol r =
     (let r1 = (if 0 <s pol_MaxStreamDuration pol
                then r\<lparr>timeout := Some (pol_MaxStreamDuration pol)\<rparr> else r)
      in r1\<lparr>body_cap := Some (pol_MaxRequestBytes pol)\<rparr>)"

section \<open>The reverse proxy\<close>

definition remote_Rewrite :: "request \<Rightarrow> outgoing" where
  "remote_Rewrite r =
     \<lparr>out_Scheme = ''http'', out_URL_Host = ''opencode.tunnel'',
      out_Path = singleJoiningSlash [] (URL_Path r), out_Host = req_Host r,
      out_body_cap = body_cap r, out_timeout = timeout r\<rparr>"

definition DialContext :: "proxy_env \<Rightarrow> remote \<Rightarrow> (string, unit) result" where
  "DialContext env w =
     (case RegGet (reg w) (closed w) of
        None \<Rightarrow> Inl ''no tunnel connected''
      | Some sess \<Rightarrow> open_stream env sess)"

text \<open>\<open>ReverseProxy\<close> hands its error handler the request it sent on, after \<open>Rewrite\<close>.\<close>

definition remote_ErrorHandler :: "outgoing \<Rightarrow> string \<Rightarrow> remote \<Rightarrow> reply \<times> remote" where
  "remote_ErrorHandler out err w =
     (HttpError 503 ''no tunnel connected'', logf (''proxy error for '' @ out_Path out @ '': '' @ err) w)"

text \<open>
  \<open>ServeHTTP\<close> in the pieces at which it waits: the transport takes an idle stream or dials one,
  makes the round trip, and copies the body of the response. The context of the request bounds the
  last two, when it has a deadline.
\<close>

definition proxy_dial :: "proxy_env \<Rightarrow> outgoing \<Rightarrow> remote \<Rightarrow> (string, unit) result" where
  "proxy_dial env out w = (if idle_stream env out then Inr () else DialContext env w)"

definition proxy_round_trip :: "proxy_env \<Rightarrow> outgoing \<Rightarrow> (string, string) result option" where
  "proxy_round_trip env out = by_deadline out (Inl DeadlineExceeded) (round_trip env out)"

definition proxy_body_copy :: "proxy_env \<Rightarrow> outgoing \<Rightarrow> body_copy option" where
  "proxy_body_copy env out = by_deadline out (ReadBroke DeadlineExceeded) (body_copy env out)"

definition proxy_copied :: "body_copy \<Rightarrow> string \<Rightarrow> remote \<Rightarrow> reply \<times> remote" where
  "proxy_copied how resp w = (case copy_response how resp of (rep, ls) \<Rightarrow> (rep, w\<lparr>log := log w @ ls\<rparr>))"

definition proxy_ServeHTTP :: "proxy_env \<Rightarrow> request \<Rightarrow> remote \<Rightarrow> (reply \<times> remote) option" where
  "proxy_ServeHTTP env r w =
     (let out = remote_Rewrite r in
      case proxy_dial env out w of
        Inl err \<Rightarrow> Some (remote_ErrorHandler out err w)
      | Inr _ \<Rightarrow>
          (case proxy_round_trip env out of
             None \<Rightarrow> None
           | Some (Inl err) \<Rightarrow> Some (remote_ErrorHandler out err w)
           | Some (Inr resp) \<Rightarrow>
               (case proxy_body_copy env out of
                  None \<Rightarrow> None
                | Some how \<Rightarrow> Some (proxy_copied how resp w))))"

section \<open>deviceRequest\<close>

text \<open>\<open>obs\<close>: the four file observations of its two revocation checks.\<close>

definition device_guards ::
  "proxy_env \<Rightarrow> RemoteProxyPolicy \<Rightarrow> fs \<times> fs \<times> fs \<times> fs \<Rightarrow> request \<Rightarrow> remote \<Rightarrow> (reply \<times> remote, remote) result"
where
  "device_guards env pol obs r w =
     (case obs of (f1, f2, f3, f4) \<Rightarrow>
        and_then (guard_role env r w) (\<lambda>w1.
        and_then (guard_device env f1 f2 r w1) (\<lambda>w2.
        and_then (guard_tunnel f3 f4 w2) (\<lambda>w3.
        guard_path env pol r w3))))"

text \<open>\<open>None\<close>: the call does not return, be it in the proxy or in the deferred receive.\<close>

definition deviceRequest ::
  "proxy_env \<Rightarrow> RemoteProxyPolicy \<Rightarrow> fs \<times> fs \<times> fs \<times> fs \<Rightarrow> request \<Rightarrow> remote \<Rightarrow> (reply \<times> remote) option"
where
  "deviceRequest env pol obs r w =
     (case device_guards env pol obs r w of
        Inl done \<Rightarrow> Some done
      | Inr w1 \<Rightarrow>
          (case leafCertOf (req_TLS r) of
             None \<Rightarrow> Some (NilDereference, w1)
           | Some leaf \<Rightarrow>
               (case take_cert_slot env pol r leaf w1 of
                  Inl done \<Rightarrow> Some done
                | Inr w2 \<Rightarrow>
                    (case take_sem_slot env pol r w2 of
                       Inl (rep, w3) \<Rightarrow> Some (rep, drop_cert_slot leaf w3)
                     | Inr w3 \<Rightarrow>
                         (case proxy_ServeHTTP env (bounded_request pol r) w3 of
                            None \<Rightarrow> None
                          | Some (rep, w4) \<Rightarrow>
                              (case drop_sem_slot w4 of
                                 None \<Rightarrow> None
                               | Some w5 \<Rightarrow> Some (rep, drop_cert_slot leaf w5)))))))"

section \<open>tunnelUpgrade and acceptTunnel\<close>

definition rejected_upgrade :: "proxy_env \<Rightarrow> request \<Rightarrow> auth_error \<Rightarrow> string" where
  "rejected_upgrade env r err =
     ''rejected tunnel upgrade from '' @ GetPeerSubjectCN (wide env) (req_TLS r) @ '': '' @
     auth_error_text (wide env) err"

definition tunnel_guards ::
  "proxy_env \<Rightarrow> RemoteProxyPolicy \<Rightarrow> request \<Rightarrow> remote \<Rightarrow> (reply \<times> remote, remote) result"
where
  "tunnel_guards env pol r w =
     (case VerifyPeerRole (req_TLS r) OUTunnel of
        Some err \<Rightarrow> Inl (reject 403 (rejected_upgrade env r err) w)
      | None \<Rightarrow>
          if pol_TunnelCN pol \<noteq> [] then
            (case VerifyPeerCN (req_TLS r) (pol_TunnelCN pol) of
               Some err \<Rightarrow> Inl (reject 403 (rejected_upgrade env r err) w)
             | None \<Rightarrow> Inr w)
          else Inr w)"

text \<open>
  \<open>acceptTunnel\<close> in the steps other goroutines can come between: the locked swap of \<open>Set\<close>, its
  tail with the log lines, and, after the wait, \<open>Clear\<close> with the closing log line.
\<close>

definition accept_swap :: "sid \<Rightarrow> request \<Rightarrow> remote \<Rightarrow> sid option \<times> remote" where
  "accept_swap sess r w =
     (let (old, reg') = set_swap (reg w) sess (leafCertOf (req_TLS r)) in (old, w\<lparr>reg := reg'\<rparr>))"

definition takeover_warning :: "proxy_env \<Rightarrow> request \<Rightarrow> string" where
  "takeover_warning env r =
     ''warning: new tunnel from '' @ GetPeerSubjectCN (wide env) (req_TLS r) @
     '' replaced a still-live tunnel '' @ [CHR 0xE2, CHR 0x80, CHR 0x94] @
     '' duplicate endpoint or possible tunnel-key compromise''"

definition accept_close_old :: "proxy_env \<Rightarrow> sid option \<Rightarrow> request \<Rightarrow> remote \<Rightarrow> remote" where
  "accept_close_old env old r w =
     (let (replacedLive, closed') = set_close_old old (closed w);
          w1 = w\<lparr>closed := closed'\<rparr>;
          w2 = (if replacedLive then logf (takeover_warning env r) w1 else w1)
      in logf (''tunnel connected from '' @ GetPeerSubjectCN (wide env) (req_TLS r)) w2)"

definition accept_finish :: "sid \<Rightarrow> bool \<Rightarrow> remote \<Rightarrow> remote" where
  "accept_finish sess was_cancelled w =
     (let w1 = logf (if was_cancelled then ''tunnel closed on shutdown'' else ''tunnel disconnected'') w
      in w1\<lparr>reg := RegClear (reg w1) sess\<rparr>)"

definition accept_failed :: "string \<Rightarrow> remote \<Rightarrow> remote" where
  "accept_failed err w = logf (''tunnel accept failed: '' @ err) w"

text \<open>
  \<open>acceptTunnel\<close> in one goroutine's view: \<open>acc\<close> is what \<open>AcceptTunnel\<close> returned, \<open>during\<close>
  what the others did to the shared state while it waited, \<open>None\<close> if the wait does not end.
\<close>

definition acceptTunnel ::
  "proxy_env \<Rightarrow> bool \<Rightarrow> (string, sid) result \<Rightarrow> (remote \<Rightarrow> bool \<times> remote) \<Rightarrow> request \<Rightarrow> remote \<Rightarrow> remote option"
where
  "acceptTunnel env pick_ctx acc during r w =
     (case acc of
        Inl err \<Rightarrow> Some (accept_failed err w)
      | Inr sess \<Rightarrow>
          (let (old, w1) = accept_swap sess r w;
               w2 = accept_close_old env old r w1;
               (ctx_cancelled, w3) = during w2
           in case waitForTunnelClose pick_ctx ctx_cancelled sess (closed w3) of
                None \<Rightarrow> None
              | Some (was_cancelled, closed') \<Rightarrow>
                  Some (accept_finish sess was_cancelled (w3\<lparr>closed := closed'\<rparr>))))"

text \<open>The handler's dispatch on the path.\<close>

definition is_tunnel_request :: "RemoteProxyPolicy \<Rightarrow> request \<Rightarrow> bool" where
  "is_tunnel_request pol r \<longleftrightarrow> URL_Path r = pol_TunnelPath pol"

text \<open>What \<open>NewRemoteReverseProxy\<close> sets up for the handler.\<close>

definition NewRemoteReverseProxy ::
  "RemoteProxyPolicy \<Rightarrow> SessionRegistry \<Rightarrow> RevocationList option \<Rightarrow> remote"
where
  "NewRemoteReverseProxy pol r0 denied_serials =
     \<lparr>reg = r0, closed = {}, revocation = denied_serials, perCert = newPerCertLimiter (pol_MaxStreamsPerCert pol),
      sem = make_sem (pol_MaxConcurrentStreams pol), log = []\<rparr>"

section \<open>What each guard lets through\<close>

lemma guard_role_Inr:
  "guard_role env r w = Inr w' \<longleftrightarrow> w' = w \<and> VerifyPeerRole (req_TLS r) OUDevice = None"
  by (auto simp: guard_role_def split: option.splits)

lemma guard_device_Inr:
  "guard_device env f1 f2 r w = Inr w' \<longleftrightarrow>
     (case revocation w of
        None \<Rightarrow> w' = w
      | Some rl \<Rightarrow> \<exists>leaf. leafCertOf (req_TLS r) = Some leaf \<and>
          serialOf leaf \<notin> rl_serials (reload f1 f2 rl) \<and> w' = w\<lparr>revocation := Some (reload f1 f2 rl)\<rparr>)"
  by (auto simp: guard_device_def IsRevoked_def Let_def split: option.splits)

lemma guard_tunnel_Inr:
  "guard_tunnel f1 f2 w = Inr w' \<longleftrightarrow>
     (case CloseCurrentIfRevoked f1 f2 (reg w) (revocation w) (closed w) of
        (hit, closed', rl') \<Rightarrow> \<not> hit \<and> w' = w\<lparr>closed := closed', revocation := rl'\<rparr>)"
  by (auto simp: guard_tunnel_def split_beta Let_def)

lemma guard_path_Inr:
  "guard_path env pol r w = Inr w' \<longleftrightarrow>
     w' = w \<and> path_guards (pol_AllowedPathPrefixes pol) (URL_Path r)"
  by (auto simp: guard_path_def path_guards_def)

lemmas guards_Inr = guard_role_Inr guard_device_Inr guard_tunnel_Inr guard_path_Inr

lemma CloseCurrent_no_hit:
  "CloseCurrentIfRevoked f1 f2 r rl cl = (False, cl', rl') \<Longrightarrow> cl' = cl"
  by (auto simp: CloseCurrentIfRevoked_def close_snapshot_if_revoked_def split_beta Let_def
      split: option.splits if_splits)

text \<open>The remote half's instance of the gate contract: its path guard, any other state.\<close>

interpretation remote_gate: path_gate
  "\<lambda>ps path. is_ok (guard_path env (pol\<lparr>pol_AllowedPathPrefixes := ps\<rparr>) (r\<lparr>URL_Path := path\<rparr>) w)"
  for env pol r w
  by unfold_locales (auto simp: guard_path_Inr path_guards_def)

text \<open>Everything but the log, the closed sessions and the denylist is as before.\<close>

definition same_slots :: "remote \<Rightarrow> remote \<Rightarrow> bool" where
  "same_slots w w' \<longleftrightarrow> reg w' = reg w \<and> perCert w' = perCert w \<and> sem w' = sem w"

lemma guards_keep_slots:
  "case guard_role env r w of Inl (rep, w') \<Rightarrow> same_slots w w' | Inr w' \<Rightarrow> same_slots w w'"
  "case guard_device env f1 f2 r w of Inl (rep, w') \<Rightarrow> same_slots w w' | Inr w' \<Rightarrow> same_slots w w'"
  "case guard_tunnel f1 f2 w of Inl (rep, w') \<Rightarrow> same_slots w w' | Inr w' \<Rightarrow> same_slots w w'"
  "case guard_path env pol r w of Inl (rep, w') \<Rightarrow> same_slots w w' | Inr w' \<Rightarrow> same_slots w w'"
  by (simp_all add: guard_role_def guard_device_def guard_tunnel_def guard_path_def same_slots_def
      reject_def logf_def split_beta Let_def split: option.splits)

lemma same_slots_trans: "same_slots a b \<Longrightarrow> same_slots b c \<Longrightarrow> same_slots a c"
  by (simp add: same_slots_def)

text \<open>A chain of guards keeps what each of them keeps.\<close>

lemma and_then_keeps:
  assumes "case x of Inl (rep, w') \<Rightarrow> P w' | Inr w' \<Rightarrow> P w'"
    and "\<And>v. P v \<Longrightarrow> case f v of Inl (rep, w') \<Rightarrow> P w' | Inr w' \<Rightarrow> P w'"
  shows "case and_then x f of Inl (rep, w') \<Rightarrow> P w' | Inr w' \<Rightarrow> P w'"
  using assms by (cases x) simp_all

lemma device_guards_keep_slots:
  "case device_guards env pol obs r w of Inl (rep, w') \<Rightarrow> same_slots w w' | Inr w' \<Rightarrow> same_slots w w'"
proof -
  obtain f1 f2 f3 f4 where obs: "obs = (f1, f2, f3, f4)" by (metis prod_cases4)
  have step: "case x of Inl (rep, w') \<Rightarrow> same_slots w w' | Inr w' \<Rightarrow> same_slots w w'"
    if "case x of Inl (rep, w') \<Rightarrow> same_slots v w' | Inr w' \<Rightarrow> same_slots v w'" "same_slots w v" for x v
    using that by (auto split: sum.splits intro: same_slots_trans)
  show ?thesis
    unfolding device_guards_def obs prod.case
    by (intro and_then_keeps guards_keep_slots step [OF guards_keep_slots(2)]
        step [OF guards_keep_slots(3)] step [OF guards_keep_slots(4)])
qed

section \<open>The admission decision\<close>

text \<open>
  What the pipeline is meant to require of a device request, over the state it finds and the
  file observations of its two revocation checks.
\<close>

definition tunnel_revoked :: "string set \<Rightarrow> remote \<Rightarrow> bool" where
  "tunnel_revoked bad w \<longleftrightarrow>
     (case live_tunnel (reg w, closed w) of
        Some (s, Some cert) \<Rightarrow> serialOf cert \<in> bad
      | _ \<Rightarrow> False)"

definition not_revoked :: "fs \<times> fs \<times> fs \<times> fs \<Rightarrow> certificate \<Rightarrow> remote \<Rightarrow> bool" where
  "not_revoked obs leaf w \<longleftrightarrow>
     (case (revocation w, obs) of
        (None, _) \<Rightarrow> True
      | (Some rl, f1, f2, f3, f4) \<Rightarrow>
          serialOf leaf \<notin> rl_serials (reload f1 f2 rl) \<and>
          \<not> tunnel_revoked (rl_serials (reload f3 f4 (reload f1 f2 rl))) w)"

definition admissible ::
  "RemoteProxyPolicy \<Rightarrow> fs \<times> fs \<times> fs \<times> fs \<Rightarrow> request \<Rightarrow> certificate \<Rightarrow> remote \<Rightarrow> bool"
where
  "admissible pol obs r leaf w \<longleftrightarrow>
     leafCertOf (req_TLS r) = Some leaf \<and> OUDevice \<in> set (OrganizationalUnit leaf) \<and>
     not_revoked obs leaf w \<and> path_guards (pol_AllowedPathPrefixes pol) (URL_Path r)"

lemma CloseCurrent_hit:
  "fst (CloseCurrentIfRevoked f1 f2 (reg w) rl (closed w)) \<longleftrightarrow>
     (case rl of None \<Rightarrow> False | Some l \<Rightarrow> tunnel_revoked (rl_serials (reload f1 f2 l)) w)"
  by (auto simp: CloseCurrentIfRevoked_def close_snapshot_if_revoked_def tunnel_revoked_def live_tunnel_def
      IsRevoked_def split_beta Let_def split: option.splits)

lemma device_guards_ok:
  "is_ok (device_guards env pol obs r w) \<longleftrightarrow> (\<exists>leaf. admissible pol obs r leaf w)"
proof -
  obtain f1 f2 f3 f4 where obs: "obs = (f1, f2, f3, f4)" by (metis prod_cases4)
  have tunnel: "is_ok (guard_tunnel f1 f2 v) \<longleftrightarrow>
      (case revocation v of None \<Rightarrow> True | Some l \<Rightarrow> \<not> tunnel_revoked (rl_serials (reload f1 f2 l)) v)" for f1 f2 v
    using CloseCurrent_hit [of f1 f2 v "revocation v"]
    by (auto simp: guard_tunnel_Inr split_beta split: option.splits)
  have frame: "tunnel_revoked bad (v\<lparr>revocation := x\<rparr>) = tunnel_revoked bad v" for bad v x
    by (simp add: tunnel_revoked_def)
  have "is_ok (device_guards env pol obs r w) \<longleftrightarrow>
      VerifyPeerRole (req_TLS r) OUDevice = None \<and>
      (\<exists>v. guard_device env f1 f2 r w = Inr v \<and> is_ok (guard_tunnel f3 f4 v)) \<and>
      path_guards (pol_AllowedPathPrefixes pol) (URL_Path r)"
    by (auto simp: device_guards_def obs and_then_Inr guard_role_Inr guard_path_Inr)
  also have "\<dots> \<longleftrightarrow> (\<exists>leaf. admissible pol obs r leaf w)"
    unfolding tunnel admissible_def not_revoked_def obs VerifyPeerRole_ok guard_device_Inr
    by (cases "revocation w") (auto simp: frame)
  finally show ?thesis .
qed

lemma device_guards_refuse:
  "device_guards env pol obs r w = Inl (rep, w') \<Longrightarrow>
   rep = NilDereference \<and> leafCertOf (req_TLS r) = None \<and> VerifyPeerRole (req_TLS r) OUDevice = None \<or>
   (\<exists>status line. rep = HttpError status (StatusText status) \<and> status \<in> {400, 403, 503} \<and>
      log w' = log w @ [line])"
  by (cases obs)
    (auto simp: device_guards_def and_then_Inl guards_Inr guard_role_def guard_device_def guard_tunnel_def
      guard_path_def reject_def logf_def split_beta Let_def
      split: option.splits if_splits)

lemma device_guards_log:
  "device_guards env pol obs r w = Inr w' \<Longrightarrow> log w' = log w"
  by (cases obs)
    (auto simp: device_guards_def and_then_Inr guards_Inr split: option.splits prod.splits)

section \<open>The budgets of one request\<close>

lemma release_acquire:
  assumes "lim_cap p \<le> 0 \<or> lim_inv p" and "acquire p s = (True, p')"
  shows "release p' s = p"
proof (cases "lim_cap p \<le> 0")
  case True
  then show ?thesis using assms by (auto simp: acquire_def release_def)
next
  case False
  then have inv: "lim_inv p" using assms by simp
  have p': "p' = p\<lparr>inUse := (inUse p)(s \<mapsto> in_use p s + 1)\<rparr>"
    using assms(2) False by (auto simp: acquire_def split: if_splits)
  have entry: "inUse p s = (if in_use p s = 0 then None else Some (in_use p s))"
    using limiter_entry [OF inv, of s] in_use_bounds [OF inv, of s] by auto
  show ?thesis
    using False entry in_use_bounds [OF inv, of s] p'
    by (auto simp: release_def fun_upd_idem)
qed

lemma receive_send: "try_send c = Some c' \<Longrightarrow> receive c' = Some c"
  by (auto simp: try_send_def receive_def split: if_splits)

lemma proxy_ServeHTTP_cases:
  assumes "proxy_ServeHTTP env r w = x"
  obtains (endless) "x = None" "out_timeout (remote_Rewrite r) = None"
      "round_trip env (remote_Rewrite r) = None \<or>
       (\<exists>resp. round_trip env (remote_Rewrite r) = Some (Inr resp) \<and> body_copy env (remote_Rewrite r) = None)"
    | (failed) line where "x = Some (HttpError 503 ''no tunnel connected'', logf line w)"
    | (begun) resp how rep ls where "x = Some (rep, w\<lparr>log := log w @ ls\<rparr>)"
      "round_trip env (remote_Rewrite r) = Some (Inr resp)" "copy_response how resp = (rep, ls)"
      "body_copy env (remote_Rewrite r) = Some how \<or>
       body_copy env (remote_Rewrite r) = None \<and> how = ReadBroke DeadlineExceeded"
proof -
  let ?out = "remote_Rewrite r"
  have fails: thesis if "x = Some (remote_ErrorHandler ?out err w)" for err
    using failed that unfolding remote_ErrorHandler_def by blast
  consider (dial) err where "proxy_dial env ?out w = Inl err"
    | (hangs) "proxy_dial env ?out w = Inr ()" "proxy_round_trip env ?out = None"
    | (trip) err where "proxy_dial env ?out w = Inr ()" "proxy_round_trip env ?out = Some (Inl err)"
    | (resp) resp where "proxy_dial env ?out w = Inr ()" "proxy_round_trip env ?out = Some (Inr resp)"
    by (metis (full_types) obj_sumE old.unit.exhaust option.exhaust)
  then show thesis
  proof cases
    case (dial err)
    then show thesis using fails [of err] assms by (simp add: proxy_ServeHTTP_def)
  next
    case hangs
    then have "x = None" using assms by (simp add: proxy_ServeHTTP_def)
    moreover have "round_trip env ?out = None" "out_timeout ?out = None"
      using hangs(2) by (simp_all add: proxy_round_trip_def by_deadline_None)
    ultimately show thesis using endless by blast
  next
    case (trip err)
    then show thesis using fails [of err] assms by (simp add: proxy_ServeHTTP_def)
  next
    case (resp resp)
    have came: "round_trip env ?out = Some (Inr resp)"
      using resp(2) by (simp add: proxy_round_trip_def by_deadline_Some)
    show thesis
    proof (cases "proxy_body_copy env ?out")
      case None
      then have "x = None" using assms resp by (simp add: proxy_ServeHTTP_def)
      moreover have "body_copy env ?out = None" "out_timeout ?out = None"
        using None by (simp_all add: proxy_body_copy_def by_deadline_None)
      ultimately show thesis using endless came by blast
    next
      case (Some how)
      obtain rep ls where "copy_response how resp = (rep, ls)" by fastforce
      then have "x = Some (rep, w\<lparr>log := log w @ ls\<rparr>)"
        using Some assms resp by (simp add: proxy_ServeHTTP_def proxy_copied_def)
      moreover have "body_copy env ?out = Some how \<or>
          body_copy env ?out = None \<and> how = ReadBroke DeadlineExceeded"
        using Some unfolding proxy_body_copy_def by_deadline_Some by blast
      ultimately show thesis using begun [of rep ls resp how] came \<open>copy_response how resp = (rep, ls)\<close> by blast
    qed
  qed
qed

lemma proxy_ServeHTTP_frame:
  assumes "proxy_ServeHTTP env r w = Some (rep, w')"
  shows "\<exists>ls. w' = w\<lparr>log := log w @ ls\<rparr>"
  using assms by (cases rule: proxy_ServeHTTP_cases) (auto simp: logf_def)

lemma take_cert_cases:
  "take_cert_slot env pol r leaf w =
     (if fst (acquire (perCert w) (serialOf leaf))
      then Inr (w\<lparr>perCert := snd (acquire (perCert w) (serialOf leaf))\<rparr>)
      else Inl (reject 503 (rejected_from env r
             (''per-certificate stream cap of '' @ dec_text (pol_MaxStreamsPerCert pol) @ '' reached'')) w))"
  by (auto simp: take_cert_slot_def acquire_def split_beta Let_def)

text \<open>The whole request once it is admitted.\<close>

lemma deviceRequest_admitted:
  assumes "device_guards env pol obs r w = Inr w1" and "leafCertOf (req_TLS r) = Some leaf"
  shows "deviceRequest env pol obs r w =
    (if \<not> fst (acquire (perCert w1) (serialOf leaf)) then
       Some (reject 503 (rejected_from env r
         (''per-certificate stream cap of '' @ dec_text (pol_MaxStreamsPerCert pol) @ '' reached'')) w1)
     else
       let w2 = w1\<lparr>perCert := snd (acquire (perCert w1) (serialOf leaf))\<rparr> in
       (case try_send (sem w1) of
          None \<Rightarrow> Some (HttpError 503 (StatusText 503),
            drop_cert_slot leaf (logf (rejected_from env r
              (dec_text (pol_MaxConcurrentStreams pol) @ '' concurrent requests already in flight'')) w2))
        | Some sem' \<Rightarrow>
            (case proxy_ServeHTTP env (bounded_request pol r) (w2\<lparr>sem := sem'\<rparr>) of
               None \<Rightarrow> None
             | Some (rep, w4) \<Rightarrow> Some (rep, drop_cert_slot leaf (w4\<lparr>sem := sem w1\<rparr>)))))"
proof -
  have given: "drop_sem_slot w4 = Some (w4\<lparr>sem := sem w1\<rparr>)"
    if "proxy_ServeHTTP env q (w1\<lparr>perCert := l, sem := sem'\<rparr>) = Some (rep, w4)" "try_send (sem w1) = Some sem'"
    for q l sem' rep w4
    using proxy_ServeHTTP_frame [OF that(1)] receive_send [OF that(2)] by (auto simp: drop_sem_slot_def)
  show ?thesis
    unfolding deviceRequest_def take_cert_cases take_sem_slot_def assms(1) assms(2)
    by (auto simp: reject_def given split: option.splits)
qed

lemma deviceRequest_refused:
  "device_guards env pol obs r w = Inl done \<Longrightarrow> deviceRequest env pol obs r w = Some done"
  by (simp add: deviceRequest_def)

text \<open>One lemma per guard on the nil certificate: the role check has excluded it.\<close>

lemma device_guards_no_nil:
  "device_guards env pol obs r w = Inl (rep, w') \<Longrightarrow> rep \<noteq> NilDereference"
  using device_guards_refuse [of env pol obs r w rep w'] VerifyPeerRole_ok [of "req_TLS r" OUDevice]
  by fastforce

lemma drops_log [simp]: "log (drop_cert_slot leaf w) = log w"
  by (simp add: drop_cert_slot_def)

section \<open>Properties\<close>

text \<open>The request \<open>out\<close> that \<open>r\<close> became has passed every guard and both budgets, and is bounded.\<close>

definition mediated ::
  "RemoteProxyPolicy \<Rightarrow> fs \<times> fs \<times> fs \<times> fs \<Rightarrow> request \<Rightarrow> remote \<Rightarrow> outgoing \<Rightarrow> bool"
where
  "mediated pol obs r w out \<longleftrightarrow>
     (\<exists>leaf. admissible pol obs r leaf w \<and> fst (acquire (perCert w) (serialOf leaf))) \<and>
     sem_len (sem w) < sem_cap (sem w) \<and> out_body_cap out = Some (pol_MaxRequestBytes pol) \<and>
     out_timeout out = (if 0 <s pol_MaxStreamDuration pol then Some (pol_MaxStreamDuration pol) else timeout r) \<and>
     out_Path out = singleJoiningSlash [] (URL_Path r) \<and> out_Host out = req_Host r"


text \<open>
  A device request that has been answered leaves both stream budgets and the registry
  exactly as it found them, whichever guard refused it or however the forward ended: no slot is
  leaked and none is freed twice.
\<close>

theorem device_request_returns_its_slots:
  assumes "lim_cap (perCert w) \<le> 0 \<or> lim_inv (perCert w)"
  shows "case deviceRequest env pol obs r w of
      None \<Rightarrow> True
    | Some (rep, w') \<Rightarrow> perCert w' = perCert w \<and> sem w' = sem w \<and> reg w' = reg w"
proof (cases "device_guards env pol obs r w")
  case (Inl a)
  then show ?thesis
    using device_guards_keep_slots [where env = env and pol = pol and obs = obs and r = r and w = w]
    by (cases a) (simp add: deviceRequest_refused same_slots_def)
next
  case (Inr w1)
  then obtain leaf where "admissible pol obs r leaf w" using device_guards_ok by blast
  then have leaf: "leafCertOf (req_TLS r) = Some leaf" by (simp add: admissible_def)
  have same: "perCert w1 = perCert w" "sem w1 = sem w" "reg w1 = reg w"
    using device_guards_keep_slots [where env = env and pol = pol and obs = obs and r = r and w = w] Inr
    by (simp_all add: same_slots_def)
  let ?a = "acquire (perCert w1) (serialOf leaf)"
  have returned: "release (snd ?a) (serialOf leaf) = perCert w1" if "fst ?a"
    using release_acquire [of "perCert w1" "serialOf leaf" "snd ?a"] assms same(1) that
    by (simp add: prod_eq_iff)
  show ?thesis
  proof (cases "fst ?a \<and> try_send (sem w1) \<noteq> None")
    case False
    then show ?thesis using returned same
      by (auto simp: deviceRequest_admitted [OF Inr leaf] reject_def logf_def drop_cert_slot_def)
  next
    case True
    then obtain sem' where send: "fst ?a" "try_send (sem w1) = Some sem'" by auto
    let ?x = "proxy_ServeHTTP env (bounded_request pol r) (w1\<lparr>perCert := snd ?a, sem := sem'\<rparr>)"
    have "\<exists>ls. w4 = w1\<lparr>perCert := snd ?a, sem := sem', log := ls\<rparr>" if "?x = Some (rep, w4)" for rep w4
      using proxy_ServeHTTP_frame [OF that] by auto
    then show ?thesis using send returned same
      by (auto simp: deviceRequest_admitted [OF Inr leaf] drop_cert_slot_def split: option.split)
  qed
qed

section \<open>Log lines\<close>

lemma radix_digits: "c \<in> set (radix_text 10 n) \<Longrightarrow> \<exists>d<16. c = digit_char d"
proof (induction "10 :: nat" n rule: radix_text.induct)
  case (1 n)
  have small: "n mod 10 < 16" by (rule less_trans [OF mod_less_divisor]) simp_all
  consider "n < 10" "c = digit_char n" | "\<not> n < 10" "c \<in> set (radix_text 10 (n div 10))"
    | "c = digit_char (n mod 10)"
    using 1(2) by (subst (asm) radix_text.simps) (auto split: if_splits)
  then show ?case
  proof cases
    case 1
    then show ?thesis by (intro exI [of _ n]) simp
  next
    case 2
    then show ?thesis using "1.hyps" by simp
  qed (use small in blast)
qed

lemma dec_text_log_safe: "log_safe (dec_text i)"
proof -
  have "log_safe (radix_text 10 n)" for n
    using radix_digits [of _ n] digit_char_plain by (auto simp: log_safe_def list_all_iff plain_char_def)
  then show ?thesis by (simp add: dec_text_def control_def)
qed

lemma pipeline_literals:
  "log_safe ''rejected request from ''" "log_safe '': ''" "log_safe ''certificate revoked''"
  "log_safe ''closed tunnel: its certificate is now revoked''" "log_safe ''non-normalized path ''"
  "log_safe ''path ''" "log_safe '' is not on the allowlist''" "log_safe ''per-certificate stream cap of ''"
  "log_safe '' reached''" "log_safe '' concurrent requests already in flight''"
  "log_safe ''rejected tunnel upgrade from ''" "log_safe ''tunnel connected from ''" "log_safe ''tunnel accept failed: ''"
  "log_safe ''warning: new tunnel from ''" "log_safe '' replaced a still-live tunnel ''"
  "log_safe [CHR 0xE2, CHR 0x80, CHR 0x94]"
  "log_safe '' duplicate endpoint or possible tunnel-key compromise''"
  by (simp_all add: control_def)

lemmas log_safe_parts =
  pipeline_literals log_safe_append GetPeerSubjectCN_log_safe Quote_log_safe dec_text_log_safe

text \<open>The line a refusal logged last.\<close>

definition refusal_safe :: "(reply \<times> remote, remote) result \<Rightarrow> bool" where
  "refusal_safe x = (case x of Inl (rep, w') \<Rightarrow> rep = NilDereference \<or> log_safe (last (log w')) | Inr _ \<Rightarrow> True)"

lemma refusal_safe_reject [simp]: "refusal_safe (Inl (reject status line w)) \<longleftrightarrow> log_safe line"
  by (simp add: refusal_safe_def reject_def logf_def)

lemma refusal_safe_other [simp]: "refusal_safe (Inr w)" "refusal_safe (Inl (NilDereference, w))"
  by (simp_all add: refusal_safe_def)

lemma rejected_from_safe: "log_safe (rejected_from env r why) \<longleftrightarrow> log_safe why"
  by (simp only: rejected_from_def log_safe_parts simp_thms)

lemma rejected_upgrade_safe: "log_safe (rejected_upgrade env r err) \<longleftrightarrow> log_safe (auth_error_text (wide env) err)"
  by (simp only: rejected_upgrade_def log_safe_parts simp_thms)

lemma refusal_safe_and_then:
  "refusal_safe x \<Longrightarrow> (\<And>v. refusal_safe (f v)) \<Longrightarrow> refusal_safe (and_then x f)"
  by (cases x) (simp_all add: refusal_safe_def)

lemma guards_refuse_safely:
  "refusal_safe (guard_role env r w)" "refusal_safe (guard_device env f1 f2 r w)"
  "refusal_safe (guard_tunnel f1 f2 w)" "refusal_safe (guard_path env pol r w)"
proof -
  show "refusal_safe (guard_role env r w)"
    using auth_error_log_safe [OF VerifyPeerRole_wrong]
    by (auto simp: guard_role_def rejected_from_safe split: option.splits)
  show "refusal_safe (guard_device env f1 f2 r w)" "refusal_safe (guard_tunnel f1 f2 w)"
    by (simp_all only: guard_device_def guard_tunnel_def Let_def split_beta refusal_safe_reject
        refusal_safe_other rejected_from_safe pipeline_literals split: option.split if_split) simp_all
  show "refusal_safe (guard_path env pol r w)"
    by (simp only: guard_path_def refusal_safe_reject refusal_safe_other rejected_from_safe
        log_safe_parts simp_thms split: if_split)
qed

text \<open>A concrete state: no tunnel, no denylist, room for one stream.\<close>

definition idle_remote :: remote where
  "idle_remote = \<lparr>reg = NewSessionRegistry, closed = {}, revocation = None,
     perCert = newPerCertLimiter 1, sem = make_sem 1, log = []\<rparr>"

definition api_policy :: RemoteProxyPolicy where
  "api_policy = \<lparr>pol_TunnelPath = ''/tunnel'', pol_MaxConcurrentStreams = 1, pol_MaxRequestBytes = 10,
     pol_TunnelCN = ''home'', pol_AllowedPathPrefixes = [''/api''], pol_MaxStreamDuration = 0,
     pol_MaxStreamsPerCert = 1\<rparr>"

definition phone_cert :: certificate where
  "phone_cert = \<lparr>SerialNumber = 7, CommonName = ''phone'', OrganizationalUnit = [OUDevice]\<rparr>"

definition phone_request :: "string \<Rightarrow> request" where
  "phone_request p = \<lparr>URL_Path = p, req_Host = ''proxy'',
     req_TLS = Some \<lparr>PeerCertificates = [phone_cert], VerifiedChains = []\<rparr>, body_cap = None, timeout = None\<rparr>"

definition quiet_env :: proxy_env where
  "quiet_env = \<lparr>wide = (\<lambda>r. False), idle_stream = (\<lambda>out. False), open_stream = (\<lambda>s. Inl ''shutdown''),
     round_trip = (\<lambda>out. Some (Inl ''EOF'')), body_copy = (\<lambda>out. Some Copied),
     handshake = (\<lambda>r. Some (Inr ()))\<rparr>"

lemmas sample_defs =
  idle_remote_def api_policy_def phone_cert_def phone_request_def quiet_env_def NewSessionRegistry_def

theorem device_request_returns_its_slots_witness:
  "case deviceRequest quiet_env api_policy (listing_fs 1 [], listing_fs 1 [], listing_fs 1 [], listing_fs 1 [])
      (phone_request ''/api'') idle_remote of
     None \<Rightarrow> True
   | Some (rep, w') \<Rightarrow> perCert w' = perCert idle_remote \<and> sem w' = sem idle_remote \<and> reg w' = reg idle_remote"
  by (rule device_request_returns_its_slots) (simp add: lim_inv_def idle_remote_def newPerCertLimiter_def)

lemma phone_leaf: "leafCertOf (req_TLS (phone_request p)) = Some phone_cert"
  by (simp add: leafCertOf_def phone_request_def)

lemma phone_role: "VerifyPeerRole (req_TLS (phone_request p)) OUDevice = None"
  by (simp add: VerifyPeerRole_def phone_leaf) (simp add: phone_cert_def)

lemma phone_admitted:
  assumes "path_guards (pol_AllowedPathPrefixes pol) p"
  shows "device_guards env pol obs (phone_request p) idle_remote = Inr idle_remote"
proof -
  have "revocation idle_remote = None" "URL_Path (phone_request p) = p"
    by (simp_all add: idle_remote_def phone_request_def)
  then have "guard_role env (phone_request p) idle_remote = Inr idle_remote"
    "guard_device env f1 f2 (phone_request p) idle_remote = Inr idle_remote"
    "guard_tunnel f3 f4 idle_remote = Inr idle_remote"
    "guard_path env pol (phone_request p) idle_remote = Inr idle_remote" for f1 f2 f3 f4
    using assms by (simp_all add: guards_Inr phone_role CloseCurrentIfRevoked_def)
  then show ?thesis by (cases obs) (simp add: device_guards_def)
qed

lemma phone_without_tunnel:
  assumes "path_guards (pol_AllowedPathPrefixes pol) p" and "HasPrefix p ''/''"
  shows "deviceRequest quiet_env pol obs (phone_request p) idle_remote =
    Some (HttpError 503 ''no tunnel connected'',
      idle_remote\<lparr>log := [''proxy error for '' @ p @ '': no tunnel connected'']\<rparr>)"
proof -
  have "acquire (perCert idle_remote) s = (True, (perCert idle_remote)\<lparr>inUse := [s \<mapsto> 1]\<rparr>)" for s
    by (simp add: acquire_def in_use_def idle_remote_def newPerCertLimiter_def)
  moreover have "try_send (sem idle_remote) = Some ((sem idle_remote)\<lparr>sem_len := 1\<rparr>)"
    by (simp add: try_send_def idle_remote_def make_sem_def)
  moreover have "out_Path (remote_Rewrite (bounded_request pol (phone_request p))) = p"
    using assms(2) by (simp add: bounded_request_def phone_request_def remote_Rewrite_def joined_rooted Let_def)
  ultimately show ?thesis
    by (subst deviceRequest_admitted [OF phone_admitted [OF assms(1)] phone_leaf])
      (simp add: proxy_ServeHTTP_def proxy_dial_def DialContext_def RegGet_def remote_ErrorHandler_def logf_def
        quiet_env_def drop_cert_slot_def release_def in_use_def
        idle_remote_def NewSessionRegistry_def newPerCertLimiter_def make_sem_def Let_def)
qed

text \<open>
  C38. Every refusal of the pipeline (the guards of a device request, both stream budgets, the
  tunnel upgrade) and every line about an accepted tunnel, from its connection to its end, is
  logged without control characters, whatever the peer put into its certificate or the path of its
  request. The line about a tunnel that could not be accepted prints the library's error with \<open>%v\<close>, and
  is exactly as safe as the text of that error.
\<close>

theorem refusals_log_safely:
  "refusal_safe (device_guards env pol obs r w) \<and> refusal_safe (take_cert_slot env pol r leaf w) \<and>
   refusal_safe (take_sem_slot env pol r w) \<and> refusal_safe (tunnel_guards env pol r w) \<and>
   log_safe (last (log (accept_close_old env old r w))) \<and> log_safe (takeover_warning env r) \<and>
   log_safe (last (log (accept_finish sess c w))) \<and>
   (log_safe (last (log (accept_failed err w))) \<longleftrightarrow> log_safe err)"
proof (intro conjI)
  show "log_safe (last (log (accept_finish sess c w)))"
    by (simp add: accept_finish_def logf_def control_def)
  have "last (log (accept_failed err w)) = ''tunnel accept failed: '' @ err"
    by (simp add: accept_failed_def logf_def)
  then show "log_safe (last (log (accept_failed err w))) \<longleftrightarrow> log_safe err"
    by (simp only: log_safe_parts simp_thms)
  obtain f1 f2 f3 f4 where obs: "obs = (f1, f2, f3, f4)" by (metis prod_cases4)
  show "refusal_safe (device_guards env pol obs r w)"
    unfolding device_guards_def obs prod.case by (intro refusal_safe_and_then guards_refuse_safely)
  show "refusal_safe (take_cert_slot env pol r leaf w)"
    by (simp only: take_cert_cases refusal_safe_reject refusal_safe_other rejected_from_safe
        log_safe_parts simp_thms split: if_split)
  show "refusal_safe (take_sem_slot env pol r w)"
    by (simp only: take_sem_slot_def refusal_safe_reject refusal_safe_other rejected_from_safe
        log_safe_parts simp_thms split: option.split)
  show "refusal_safe (tunnel_guards env pol r w)"
    using auth_error_log_safe [OF VerifyPeerRole_wrong] auth_error_log_safe [OF VerifyPeerCN_wrong]
    by (auto simp: tunnel_guards_def rejected_upgrade_safe split: option.splits)
  show "log_safe (takeover_warning env r)"
    by (simp only: takeover_warning_def log_safe_parts simp_thms)
  show "log_safe (last (log (accept_close_old env old r w)))"
  proof -
    have "\<exists>ls. log (accept_close_old env old r w) =
        ls @ [''tunnel connected from '' @ GetPeerSubjectCN (wide env) (req_TLS r)]"
      by (simp add: accept_close_old_def logf_def split_beta Let_def)
    then obtain ls where ls: "log (accept_close_old env old r w) =
        ls @ [''tunnel connected from '' @ GetPeerSubjectCN (wide env) (req_TLS r)]" by blast
    show ?thesis by (simp only: ls last_snoc log_safe_parts simp_thms)
  qed
qed

text \<open>
  C39. The error handler of the proxy does not keep to that: it prints the path with \<open>%s\<close>, so
  with the tunnel down, a device whose path passes every guard, the allowlist \<open>/api\<close>
  included, gets a line feed of its choice into the log, and a forged line behind it.
\<close>

theorem proxy_error_line_can_be_forged:
  "let p = ''/api/x'' @ [CHR 0x0A] @ ''tunnel connected from '' @ [CHR 0x22] @ ''home'' @ [CHR 0x22];
       (rep, w') = the (deviceRequest quiet_env api_policy obs (phone_request p) idle_remote)
   in deviceRequest quiet_env api_policy obs (phone_request p) idle_remote \<noteq> None \<and>
      rep = HttpError 503 ''no tunnel connected'' \<and>
      log w' = [''proxy error for '' @ p @ '': no tunnel connected''] \<and> \<not> log_safe (last (log w'))"
proof -
  let ?p = "''/api/x'' @ [CHR 0x0A] @ ''tunnel connected from '' @ [CHR 0x22] @ ''home'' @ [CHR 0x22]"
  have "path_guards (pol_AllowedPathPrefixes api_policy) ?p"
    by (simp add: path_guards_def pathIsNormalized_def Clean_def clean_elem_def pathAllowed_def
        api_policy_def HasPrefix_def TrimSuffix_def HasSuffix_def)
  from phone_without_tunnel [OF this, of obs] show ?thesis
    by (simp add: split_beta control_def HasPrefix_def)
qed

text \<open>
  A tunnel upgrade is let through exactly for a leaf certificate with the tunnel role whose
  Common Name is the pinned one (any, when none is pinned); every other request is answered
  403 and leaves the registry and the sessions as they are. Letting one through changes nothing yet.
\<close>

theorem only_the_pinned_home_gets_a_tunnel:
  "(is_ok (tunnel_guards env pol r w) \<longleftrightarrow>
      (\<exists>leaf. leafCertOf (req_TLS r) = Some leaf \<and> OUTunnel \<in> set (OrganizationalUnit leaf) \<and>
         (pol_TunnelCN pol = [] \<or> CommonName leaf = pol_TunnelCN pol))) \<and>
   (case tunnel_guards env pol r w of
      Inr w' \<Rightarrow> w' = w
    | Inl (rep, w') \<Rightarrow> rep = HttpError 403 ''Forbidden'' \<and> (\<exists>line. w' = w\<lparr>log := log w @ [line]\<rparr>))"
  using VerifyPeerRole_ok [of "req_TLS r" OUTunnel] VerifyPeerCN_ok [of "req_TLS r" "pol_TunnelCN pol"]
  by (auto simp: tunnel_guards_def reject_def logf_def StatusText_def split: option.splits)

text \<open>
  Accepting a tunnel: once its registration is done, the registry holds the new session with
  the certificate it authenticated with, the replaced session is closed, and the takeover is
  logged exactly when that one was live. When the handler has returned, for whatever the others
  did meanwhile, the session is closed and no longer registered, and a newer one is untouched.
\<close>

theorem accepted_tunnel_lifecycle:
  "(let (old, w1) = accept_swap sess r w; w2 = accept_close_old env old r w1 in
      reg_sess (reg w2) = Some sess \<and> reg_cert (reg w2) = leafCertOf (req_TLS r) \<and>
      closed w2 = closed w \<union> set_option (reg_sess (reg w)) \<and>
      log w2 = log w @ (if RegGet (reg w) (closed w) = None then [] else [takeover_warning env r]) @
        [''tunnel connected from '' @ GetPeerSubjectCN (wide env) (req_TLS r)]) \<and>
   (case acceptTunnel env pick_ctx (Inr sess) during r w of
      None \<Rightarrow> True
    | Some w' \<Rightarrow> sess \<in> closed w' \<and> reg_sess (reg w') \<noteq> Some sess) \<and>
   reg (accept_finish sess c w) = (if reg_sess (reg w) = Some sess then NewSessionRegistry else reg w)"
proof (intro conjI)
  show "case acceptTunnel env pick_ctx (Inr sess) during r w of
      None \<Rightarrow> True | Some w' \<Rightarrow> sess \<in> closed w' \<and> reg_sess (reg w') \<noteq> Some sess"
    by (auto simp: acceptTunnel_def accept_finish_def waitForTunnelClose_def RegClear_def logf_def
        split_beta Let_def split: option.splits if_splits)
qed (auto simp: accept_swap_def set_swap_def accept_close_old_def set_close_old_def logf_def RegGet_def
    accept_finish_def RegClear_def NewSessionRegistry_def split_beta Let_def split: option.splits if_splits)

end
