(* ===== verification/Remote_System.thy ===== *)
theory Remote_System
  imports Remote_Proxy
begin

text \<open>
  The remote half as net/http runs it: any number of requests, each in a goroutine of its own,
  interleaved at every point where the code releases a lock or blocks. A goroutine is the point
  it has reached; one step of it is one of the atomic pieces of the request pipeline. Sessions
  die and the process is told to stop at any time.
\<close>

section \<open>Goroutines\<close>

datatype proc =
    DStart request                        \<comment> \<open>a device request, at the role check\<close>
  | DRole request                         \<comment> \<open>at its revocation check\<close>
  | DLive request                         \<comment> \<open>at CloseCurrentIfRevoked, before the lock\<close>
  | DSnap request "sid option \<times> certificate option"   \<comment> \<open>behind the lock\<close>
  | DPath request                         \<comment> \<open>at the path checks\<close>
  | DAdmitted request                     \<comment> \<open>at perCert.acquire\<close>
  | DCounted request certificate          \<comment> \<open>at the semaphore\<close>
  | DForwarding request certificate       \<comment> \<open>in the reverse proxy, before it has a stream\<close>
  | DSent request certificate             \<comment> \<open>waiting for the response\<close>
  | DCopying request certificate string   \<comment> \<open>copying its body\<close>
  | DReturning reply certificate          \<comment> \<open>at the deferred receive\<close>
  | DLeaving reply certificate            \<comment> \<open>at the deferred release\<close>
  | TStart request                        \<comment> \<open>a tunnel upgrade, at its checks\<close>
  | TUpgrade request                      \<comment> \<open>in AcceptTunnel\<close>
  | TAccepted request sid                 \<comment> \<open>before the swap in Set\<close>
  | TSwapped request sid "sid option"     \<comment> \<open>before Set closes the old session\<close>
  | TServing request sid                  \<comment> \<open>in waitForTunnelClose\<close>
  | TWoken request sid bool               \<comment> \<open>before the log line and Clear\<close>
  | Answered reply
  | TunnelDone

record shared =
  rem :: remote
  issued :: "sid set"     \<comment> \<open>the sessions AcceptTunnel has made\<close>
  stopping :: bool        \<comment> \<open>ctx is cancelled\<close>

text \<open>A guard either answers the request or lets it go on.\<close>

definition settle :: "(reply \<times> remote, remote) result \<Rightarrow> (reply \<Rightarrow> proc) \<Rightarrow> proc \<Rightarrow> shared \<Rightarrow> proc \<times> shared" where
  "settle x refused ok g =
     (case x of
        Inl (rep, w) \<Rightarrow> (refused rep, g\<lparr>rem := w\<rparr>)
      | Inr w \<Rightarrow> (ok, g\<lparr>rem := w\<rparr>))"

definition snapshot_guard ::
  "fs \<Rightarrow> fs \<Rightarrow> sid option \<times> certificate option \<Rightarrow> remote \<Rightarrow> (reply \<times> remote, remote) result"
where
  "snapshot_guard f1 f2 snap w =
     (case revocation w of
        None \<Rightarrow> Inr w
      | Some rl \<Rightarrow>
          (let (hit, closed', rl') = close_snapshot_if_revoked f1 f2 rl snap (closed w);
               w' = w\<lparr>closed := closed', revocation := Some rl'\<rparr>
           in if hit then Inl (reject 503 ''closed tunnel: its certificate is now revoked'' w')
              else Inr w'))"

text \<open>
  One goroutine's next step: where it was, the state, where it is then, the state then. Where the
  code waits, the step has the end of the wait as its premise: for the network, that it answers or
  the deadline of the request has passed; for the deferred receive, that the channel holds a token;
  for \<open>waitForTunnelClose\<close>, that the session or the process ends.
\<close>

abbreviation sent_on :: "RemoteProxyPolicy \<Rightarrow> request \<Rightarrow> outgoing" where
  "sent_on pol r \<equiv> remote_Rewrite (bounded_request pol r)"

inductive act :: "proxy_env \<Rightarrow> RemoteProxyPolicy \<Rightarrow> proc \<Rightarrow> shared \<Rightarrow> proc \<times> shared \<Rightarrow> bool"
  for env pol where
  role: "act env pol (DStart r) g (settle (guard_role env r (rem g)) Answered (DRole r) g)"
| device: "act env pol (DRole r) g (settle (guard_device env f1 f2 r (rem g)) Answered (DLive r) g)"
| no_list: "revocation (rem g) = None \<Longrightarrow> act env pol (DLive r) g (DPath r, g)"
| snapshot: "revocation (rem g) = Some rl \<Longrightarrow>
    act env pol (DLive r) g (DSnap r (reg_sess (reg (rem g)), reg_cert (reg (rem g))), g)"
| tunnel: "act env pol (DSnap r snap) g (settle (snapshot_guard f1 f2 snap (rem g)) Answered (DPath r) g)"
| path: "act env pol (DPath r) g (settle (guard_path env pol r (rem g)) Answered (DAdmitted r) g)"
| nil_leaf: "leafCertOf (req_TLS r) = None \<Longrightarrow> act env pol (DAdmitted r) g (Answered NilDereference, g)"
| cert_slot: "leafCertOf (req_TLS r) = Some leaf \<Longrightarrow>
    act env pol (DAdmitted r) g (settle (take_cert_slot env pol r leaf (rem g)) Answered (DCounted r leaf) g)"
| sem_slot: "act env pol (DCounted r leaf) g
    (settle (take_sem_slot env pol r (rem g)) (\<lambda>rep. DLeaving rep leaf) (DForwarding r leaf) g)"
| dial_fails: "proxy_dial env (sent_on pol r) (rem g) = Inl err \<Longrightarrow>
    remote_ErrorHandler (sent_on pol r) err (rem g) = (rep, w) \<Longrightarrow>
    act env pol (DForwarding r leaf) g (DReturning rep leaf, g\<lparr>rem := w\<rparr>)"
| dial: "proxy_dial env (sent_on pol r) (rem g) = Inr () \<Longrightarrow>
    act env pol (DForwarding r leaf) g (DSent r leaf, g)"
| trip_fails: "proxy_round_trip env (sent_on pol r) = Some (Inl err) \<Longrightarrow>
    remote_ErrorHandler (sent_on pol r) err (rem g) = (rep, w) \<Longrightarrow>
    act env pol (DSent r leaf) g (DReturning rep leaf, g\<lparr>rem := w\<rparr>)"
| begins: "proxy_round_trip env (sent_on pol r) = Some (Inr resp) \<Longrightarrow>
    act env pol (DSent r leaf) g (DCopying r leaf resp, g)"
| copied: "proxy_body_copy env (sent_on pol r) = Some how \<Longrightarrow> proxy_copied how resp (rem g) = (rep, w) \<Longrightarrow>
    act env pol (DCopying r leaf resp) g (DReturning rep leaf, g\<lparr>rem := w\<rparr>)"
| sem_back: "drop_sem_slot (rem g) = Some w \<Longrightarrow>
    act env pol (DReturning rep leaf) g (DLeaving rep leaf, g\<lparr>rem := w\<rparr>)"
| cert_back: "act env pol (DLeaving rep leaf) g (Answered rep, g\<lparr>rem := drop_cert_slot leaf (rem g)\<rparr>)"
| upgrade: "act env pol (TStart r) g (settle (tunnel_guards env pol r (rem g)) Answered (TUpgrade r) g)"
| accept_fails: "handshake env r = Some (Inl err) \<Longrightarrow>
    act env pol (TUpgrade r) g (TunnelDone, g\<lparr>rem := accept_failed err (rem g)\<rparr>)"
| accept: "handshake env r = Some (Inr ()) \<Longrightarrow> sess \<notin> issued g \<Longrightarrow> sess \<notin> closed (rem g) \<Longrightarrow>
    act env pol (TUpgrade r) g (TAccepted r sess, g\<lparr>issued := insert sess (issued g)\<rparr>)"
| swap: "accept_swap sess r (rem g) = (old, w) \<Longrightarrow>
    act env pol (TAccepted r sess) g (TSwapped r sess old, g\<lparr>rem := w\<rparr>)"
| close_old: "act env pol (TSwapped r sess old) g
    (TServing r sess, g\<lparr>rem := accept_close_old env old r (rem g)\<rparr>)"
| wake: "waitForTunnelClose pick_ctx (stopping g) sess (closed (rem g)) = Some (c, closed') \<Longrightarrow>
    act env pol (TServing r sess) g (TWoken r sess c, g\<lparr>rem := (rem g)\<lparr>closed := closed'\<rparr>\<rparr>)"
| finish: "act env pol (TWoken r sess c) g (TunnelDone, g\<lparr>rem := accept_finish sess c (rem g)\<rparr>)"

inductive_cases actE: "act env pol p g x"

section \<open>The system\<close>

record system =
  sh :: shared
  procs :: "proc list"

definition dispatch :: "RemoteProxyPolicy \<Rightarrow> request \<Rightarrow> proc" where
  "dispatch pol r = (if is_tunnel_request pol r then TStart r else DStart r)"

definition system_start :: "RemoteProxyPolicy \<Rightarrow> RevocationList option \<Rightarrow> system" where
  "system_start pol rl =
     \<lparr>sh = \<lparr>rem = NewRemoteReverseProxy pol NewSessionRegistry rl, issued = {}, stopping = False\<rparr>, procs = []\<rparr>"

text \<open>In every step that reads it the network may behave differently; which runes print stays the same.\<close>

inductive sys_step :: "proxy_env \<Rightarrow> RemoteProxyPolicy \<Rightarrow> system \<Rightarrow> system \<Rightarrow> bool"
  for env pol where
  arrives: "sys_step env pol s (s\<lparr>procs := procs s @ [dispatch pol r]\<rparr>)"
| runs: "i < length (procs s) \<Longrightarrow> wide net = wide env \<Longrightarrow> act net pol (procs s ! i) (sh s) (p, g) \<Longrightarrow>
    sys_step env pol s \<lparr>sh = g, procs = (procs s)[i := p]\<rparr>"
| session_dies: "sess \<in> issued (sh s) \<Longrightarrow>
    sys_step env pol s (s\<lparr>sh := (sh s)\<lparr>rem := (rem (sh s))\<lparr>closed := insert sess (closed (rem (sh s)))\<rparr>\<rparr>\<rparr>)"
| told_to_stop: "sys_step env pol s (s\<lparr>sh := (sh s)\<lparr>stopping := True\<rparr>\<rparr>)"

inductive_cases sys_stepE: "sys_step env pol s t"

definition reachable :: "proxy_env \<Rightarrow> RemoteProxyPolicy \<Rightarrow> RevocationList option \<Rightarrow> system \<Rightarrow> bool" where
  "reachable env pol rl s \<longleftrightarrow> (sys_step env pol)\<^sup>*\<^sup>* (system_start pol rl) s"

lemma reachable_induct [consumes 1, case_names start step]:
  assumes "reachable env pol rl s" and "P (system_start pol rl)"
    and "\<And>s t. P s \<Longrightarrow> sys_step env pol s t \<Longrightarrow> P t"
  shows "P s"
  using assms(1) unfolding reachable_def
  by (induction rule: rtranclp_induct) (use assms(2,3) in auto)

section \<open>What one step does to the budgets\<close>

fun cert_of :: "proc \<Rightarrow> certificate option" where
  "cert_of (DCounted r leaf) = Some leaf"
| "cert_of (DForwarding r leaf) = Some leaf"
| "cert_of (DSent r leaf) = Some leaf"
| "cert_of (DCopying r leaf resp) = Some leaf"
| "cert_of (DReturning rep leaf) = Some leaf"
| "cert_of (DLeaving rep leaf) = Some leaf"
| "cert_of _ = None"

fun in_flight :: "proc \<Rightarrow> bool" where
  "in_flight (DForwarding r leaf) = True"
| "in_flight (DSent r leaf) = True"
| "in_flight (DCopying r leaf resp) = True"
| "in_flight (DReturning rep leaf) = True"
| "in_flight _ = False"

text \<open>The request a goroutine has inside the reverse proxy, and the upgrade a goroutine has let through.\<close>

fun forwarded :: "proc \<Rightarrow> (request \<times> certificate) option" where
  "forwarded (DForwarding r leaf) = Some (r, leaf)"
| "forwarded (DSent r leaf) = Some (r, leaf)"
| "forwarded (DCopying r leaf resp) = Some (r, leaf)"
| "forwarded _ = None"

fun upgraded :: "proc \<Rightarrow> request option" where
  "upgraded (TUpgrade r) = Some r"
| "upgraded (TAccepted r s) = Some r"
| "upgraded (TSwapped r s old) = Some r"
| "upgraded (TServing r s) = Some r"
| "upgraded (TWoken r s c) = Some r"
| "upgraded _ = None"

lemma settle_cases:
  assumes "settle x refused ok g = (p, g')"
  obtains (refused) rep w where "x = Inl (rep, w)" "p = refused rep" "g' = g\<lparr>rem := w\<rparr>"
    | (ok) w where "x = Inr w" "p = ok" "g' = g\<lparr>rem := w\<rparr>"
  using assms by (auto simp: settle_def split: sum.splits)

lemma settle_keeps:
  assumes "settle x refused ok g = (p, g')" and "case x of Inl (rep, w) \<Rightarrow> P w | Inr w \<Rightarrow> P w"
  shows "P (rem g')" and "issued g' = issued g" and "stopping g' = stopping g"
  using assms by (auto elim!: settle_cases)

lemma snapshot_guard_keeps_slots:
  "case snapshot_guard f1 f2 snap w of Inl (rep, w') \<Rightarrow> same_slots w w' | Inr w' \<Rightarrow> same_slots w w'"
  by (simp add: snapshot_guard_def same_slots_def reject_def logf_def split_beta Let_def split: option.splits)

lemma tunnel_guards_keep_slots:
  "case tunnel_guards env pol r w of Inl (rep, w') \<Rightarrow> same_slots w w' | Inr w' \<Rightarrow> same_slots w w'"
  by (simp add: tunnel_guards_def same_slots_def reject_def logf_def split: option.splits)

lemmas step_keeps_slots = guards_keep_slots snapshot_guard_keeps_slots tunnel_guards_keep_slots

lemma slotless_steps:
  "same_slots w (accept_failed err w)" "same_slots w (logf line w)"
  "same_slots w (snd (remote_ErrorHandler out err w))" "same_slots w (snd (proxy_copied how resp w))"
  "perCert (accept_close_old env old r w) = perCert w"
  "sem (accept_close_old env old r w) = sem w" "reg (accept_close_old env old r w) = reg w"
  "perCert (accept_finish s c w) = perCert w" "sem (accept_finish s c w) = sem w"
  "perCert (snd (accept_swap s r w)) = perCert w" "sem (snd (accept_swap s r w)) = sem w"
  "sem (drop_cert_slot leaf w) = sem w" "reg (drop_cert_slot leaf w) = reg w"
  by (simp_all add: same_slots_def accept_failed_def logf_def accept_close_old_def accept_finish_def
      accept_swap_def drop_cert_slot_def remote_ErrorHandler_def proxy_copied_def
      split_beta Let_def split: option.splits sum.splits)

lemma drop_sem_effect:
  "drop_sem_slot w = Some w' \<Longrightarrow>
     w' = w\<lparr>sem := sem_give () (sem w)\<rparr>"
  by (auto simp: drop_sem_slot_def sem_give_def split: option.splits)

text \<open>What the reverse proxy does to the shared state is to log.\<close>

lemma proxy_only_logs:
  "remote_ErrorHandler out err w = (rep, w') \<Longrightarrow>
     rep = HttpError 503 ''no tunnel connected'' \<and> (\<exists>ls. w' = w\<lparr>log := ls\<rparr>)"
  "proxy_copied how resp w = (rep, w') \<Longrightarrow>
     (rep = Backend resp \<or> rep = Aborted resp) \<and> (\<exists>ls. w' = w\<lparr>log := ls\<rparr>)"
  by (auto simp: remote_ErrorHandler_def logf_def proxy_copied_def dest: copy_response_result split: prod.splits)

lemma take_sem_cases:
  "take_sem_slot env pol r w = Inr w' \<Longrightarrow> \<exists>c. try_send (sem w) = Some c \<and> w' = w\<lparr>sem := c\<rparr>"
  "take_sem_slot env pol r w = Inl (rep, w') \<Longrightarrow> same_slots w w'"
  by (auto simp: take_sem_slot_def reject_def logf_def same_slots_def split: option.splits)

lemma take_cert_effect:
  "take_cert_slot env pol r leaf w = Inr w' \<Longrightarrow>
     acquire (perCert w) (serialOf leaf) = (True, perCert w') \<and> sem w' = sem w \<and> reg w' = reg w"
  "take_cert_slot env pol r leaf w = Inl (rep, w') \<Longrightarrow> same_slots w w'"
  by (auto simp: take_cert_cases reject_def logf_def same_slots_def prod_eq_iff split: if_splits)

text \<open>The steps that only check: every outcome leaves the slots as they are.\<close>

fun guarding :: "proc \<Rightarrow> bool" where
  "guarding (DStart r) = True"
| "guarding (DRole r) = True"
| "guarding (DLive r) = True"
| "guarding (DSnap r snap) = True"
| "guarding (DPath r) = True"
| "guarding (TStart r) = True"
| "guarding _ = False"

lemma settle_guard:
  assumes "(p', g') = settle x Answered ok g" and "cert_of ok = None" and "\<not> in_flight ok"
    and "case x of Inl (rep, w') \<Rightarrow> same_slots (rem g) w' | Inr w' \<Rightarrow> same_slots (rem g) w'"
  shows "same_slots (rem g) (rem g') \<and> cert_of p' = None \<and> \<not> in_flight p' \<and>
    issued g' = issued g \<and> stopping g' = stopping g"
  using assms(4) assms(1) [symmetric] by (auto elim!: settle_cases simp: assms(2,3))

lemma act_checking:
  assumes "act env pol p g (p', g')" and "guarding p"
  shows "same_slots (rem g) (rem g') \<and> cert_of p' = None \<and> \<not> in_flight p' \<and>
    issued g' = issued g \<and> stopping g' = stopping g"
  using assms
proof cases
  case (role r)
  show ?thesis by (rule settle_guard [OF role(2) _ _ guards_keep_slots(1)]) simp_all
next
  case (device f1 f2 r)
  show ?thesis by (rule settle_guard [OF device(2) _ _ guards_keep_slots(2)]) simp_all
next
  case (tunnel r snap f1 f2)
  show ?thesis by (rule settle_guard [OF tunnel(2) _ _ snapshot_guard_keeps_slots]) simp_all
next
  case (path r)
  show ?thesis by (rule settle_guard [OF path(2) _ _ guards_keep_slots(4)]) simp_all
next
  case (upgrade r)
  show ?thesis by (rule settle_guard [OF upgrade(2) _ _ tunnel_guards_keep_slots]) simp_all
qed (simp_all add: same_slots_def)

lemma checking_holds_nothing: "guarding p \<Longrightarrow> cert_of p = None \<and> \<not> in_flight p"
  by (cases p) simp_all

text \<open>A step keeps the per-certificate counters, or takes one slot, or gives one back.\<close>

lemma act_cert_effect:
  assumes "act env pol p g (p', g')"
  shows "cert_of p' = cert_of p \<and> perCert (rem g') = perCert (rem g) \<or>
    (\<exists>leaf. cert_of p = None \<and> cert_of p' = Some leaf \<and>
       acquire (perCert (rem g)) (serialOf leaf) = (True, perCert (rem g'))) \<or>
    (\<exists>leaf. cert_of p = Some leaf \<and> cert_of p' = None \<and>
       perCert (rem g') = release (perCert (rem g)) (serialOf leaf))"
proof (cases "guarding p")
  case True
  then show ?thesis using act_checking [OF assms] checking_holds_nothing by (simp add: same_slots_def)
next
  case False
  from assms show ?thesis
  proof cases
    case (cert_slot r leaf)
    from cert_slot(2) [symmetric] show ?thesis
      by (rule settle_cases) (use cert_slot take_cert_effect in \<open>auto simp: same_slots_def\<close>)
  next
    case (sem_slot r leaf)
    from sem_slot(2) [symmetric] show ?thesis
      by (rule settle_cases) (use sem_slot take_sem_cases in \<open>fastforce simp: same_slots_def\<close>)+
  next
    case (dial_fails r err rep w leaf)
    then show ?thesis using proxy_only_logs(1) [OF dial_fails(5)] by auto
  next
    case (trip_fails r err rep w leaf)
    then show ?thesis using proxy_only_logs(1) [OF trip_fails(5)] by auto
  next
    case (copied r how resp rep w leaf)
    then show ?thesis using proxy_only_logs(2) [OF copied(5)] by auto
  next
    case (swap sess r old w)
    then show ?thesis using slotless_steps(10) [of sess r "rem g"] by simp
  next
    case (sem_back w rep leaf)
    then show ?thesis using drop_sem_effect [OF sem_back(4)] by simp
  next
    case (cert_back rep leaf)
    then show ?thesis by (simp add: drop_cert_slot_def)
  qed (use False slotless_steps in \<open>simp_all add: same_slots_def\<close>)
qed

text \<open>Likewise for the global semaphore.\<close>

lemma act_sem_effect:
  assumes "act env pol p g (p', g')"
  shows "in_flight p' = in_flight p \<and> sem (rem g') = sem (rem g) \<or>
    \<not> in_flight p \<and> in_flight p' \<and> try_send (sem (rem g)) = Some (sem (rem g')) \<or>
    in_flight p \<and> \<not> in_flight p' \<and> sem (rem g') = sem_give () (sem (rem g))"
proof (cases "guarding p")
  case True
  then show ?thesis using act_checking [OF assms] checking_holds_nothing by (simp add: same_slots_def)
next
  case False
  from assms show ?thesis
  proof cases
    case (cert_slot r leaf)
    from cert_slot(2) [symmetric] show ?thesis
      by (rule settle_cases) (use cert_slot take_cert_effect in \<open>auto simp: same_slots_def\<close>)
  next
    case (sem_slot r leaf)
    from sem_slot(2) [symmetric] show ?thesis
      by (rule settle_cases) (use sem_slot take_sem_cases in \<open>fastforce simp: same_slots_def\<close>)+
  next
    case (dial_fails r err rep w leaf)
    then show ?thesis using proxy_only_logs(1) [OF dial_fails(5)] by auto
  next
    case (trip_fails r err rep w leaf)
    then show ?thesis using proxy_only_logs(1) [OF trip_fails(5)] by auto
  next
    case (copied r how resp rep w leaf)
    then show ?thesis using proxy_only_logs(2) [OF copied(5)] by auto
  next
    case (swap sess r old w)
    then show ?thesis using slotless_steps(11) [of sess r "rem g"] by simp
  next
    case (sem_back w rep leaf)
    then show ?thesis using drop_sem_effect [OF sem_back(4)] by simp
  qed (use False slotless_steps in \<open>simp_all add: same_slots_def\<close>)
qed

section \<open>The budgets count the goroutines that hold them\<close>

definition holds :: "string \<Rightarrow> proc \<Rightarrow> bool" where
  "holds k p = (case cert_of p of None \<Rightarrow> False | Some leaf \<Rightarrow> serialOf leaf = k)"

definition held_by :: "string \<Rightarrow> proc list \<Rightarrow> nat" where
  "held_by k ps = length (filter (holds k) ps)"

definition forwards :: "proc list \<Rightarrow> nat" where
  "forwards ps = length (filter in_flight ps)"

lemma acquire_take: "acquire p k = (True, p') \<Longrightarrow> lim_take k p = Some p'"
  by (simp add: lim_take_def)

lemma limiter_caps [simp]:
  "acquire p k = (ok, p') \<Longrightarrow> lim_cap p' = lim_cap p" "lim_cap (release p k) = lim_cap p"
  by (auto simp: acquire_def release_def split: if_splits)

lemma cert_budget_step:
  assumes act: "act env pol (ps ! i) g (p', g')" and i: "i < length ps"
    and inv: "lim_inv (perCert (rem g))" and held: "\<And>k. lim_held (perCert (rem g)) k = held_by k ps"
  shows "lim_inv (perCert (rem g')) \<and> (\<forall>k. lim_held (perCert (rem g')) k = held_by k (ps[i := p']))"
  using act_cert_effect [OF act]
proof (elim disjE exE conjE)
  assume "cert_of p' = cert_of (ps ! i)" and "perCert (rem g') = perCert (rem g)"
  moreover from this have "holds k (ps ! i) = holds k p'" for k by (simp add: holds_def)
  ultimately show ?thesis using inv held i by (simp add: held_by_def length_filter_update_same)
next
  fix leaf
  assume c: "cert_of (ps ! i) = None" "cert_of p' = Some leaf"
    and a: "acquire (perCert (rem g)) (serialOf leaf) = (True, perCert (rem g'))"
  note t = acquire_take [OF a]
  have "held_by k (ps[i := p']) = (if k = serialOf leaf then held_by k ps + 1 else held_by k ps)" for k
    using c i by (auto simp: held_by_def holds_def intro!: length_filter_updates)
  then show ?thesis using limiter.tk_inv [OF inv t] limiter.tk_held [OF inv t] held by simp
next
  fix leaf
  assume c: "cert_of (ps ! i) = Some leaf" "cert_of p' = None"
    and r: "perCert (rem g') = release (perCert (rem g)) (serialOf leaf)"
  have "holds (serialOf leaf) (ps ! i)" using c by (simp add: holds_def)
  then have pos: "0 < lim_held (perCert (rem g)) (serialOf leaf)"
    unfolding held held_by_def by (rule length_filter_pos [OF i])
  have "held_by k (ps[i := p']) = (if k = serialOf leaf then held_by k ps - 1 else held_by k ps)" for k
    using length_filter_update [OF i, of "holds k" p'] c by (auto simp: held_by_def holds_def)
  then show ?thesis using limiter.gv_inv [OF inv pos] limiter.gv_held [OF inv pos] held r by simp
qed

lemma sem_budget_step:
  assumes act: "act env pol (ps ! i) g (p', g')" and i: "i < length ps"
    and inv: "sem_inv (sem (rem g))" and held: "sem_len (sem (rem g)) = forwards ps"
  shows "sem_inv (sem (rem g')) \<and> sem_len (sem (rem g')) = forwards (ps[i := p']) \<and>
    sem_cap (sem (rem g')) = sem_cap (sem (rem g))"
  using act_sem_effect [OF act]
proof (elim disjE conjE)
  assume "in_flight p' = in_flight (ps ! i)" and "sem (rem g') = sem (rem g)"
  then show ?thesis using inv held i by (simp add: forwards_def length_filter_update_same)
next
  assume f: "\<not> in_flight (ps ! i)" "in_flight p'" and t: "try_send (sem (rem g)) = Some (sem (rem g'))"
  have "forwards (ps[i := p']) = forwards ps + 1"
    using f i by (simp add: forwards_def length_filter_update_gain)
  then show ?thesis using global.tk_inv [OF inv t] global.tk_held [OF inv t] held by (simp add: fun_eq_iff)
next
  assume f: "in_flight (ps ! i)" "\<not> in_flight p'" and r: "sem (rem g') = sem_give () (sem (rem g))"
  have "forwards (ps[i := p']) = forwards ps - 1"
    using length_filter_update_lose [OF i, of in_flight p'] f unfolding forwards_def by linarith
  moreover have "0 < sem_len (sem (rem g))"
    unfolding held forwards_def by (rule length_filter_pos [of i ps in_flight, OF i f(1)])
  ultimately show ?thesis
    using global.gv_inv [OF inv, of "()"] global.gv_held [OF inv, of "()"] held r by (simp add: fun_eq_iff)
qed

definition budgets_inv :: "RemoteProxyPolicy \<Rightarrow> system \<Rightarrow> bool" where
  "budgets_inv pol s \<longleftrightarrow>
     lim_cap (perCert (rem (sh s))) = pol_MaxStreamsPerCert pol \<and>
     (0 < pol_MaxStreamsPerCert pol \<longrightarrow> lim_inv (perCert (rem (sh s))) \<and>
        (\<forall>k. lim_held (perCert (rem (sh s))) k = held_by k (procs s))) \<and>
     sem_inv (sem (rem (sh s))) \<and> sem_len (sem (rem (sh s))) = forwards (procs s) \<and>
     sem_cap (sem (rem (sh s))) = nat (pol_MaxConcurrentStreams pol)"

lemma act_lim_cap: "act env pol p g (p', g') \<Longrightarrow> lim_cap (perCert (rem g')) = lim_cap (perCert (rem g))"
  using act_cert_effect [of env pol p g p' g'] by auto

lemma dispatch_holds_nothing: "\<not> holds k (dispatch pol r)" "\<not> in_flight (dispatch pol r)"
  by (simp_all add: dispatch_def holds_def)

lemma budgets_inv_step: "budgets_inv pol s \<Longrightarrow> sys_step env pol s t \<Longrightarrow> budgets_inv pol t"
proof (erule sys_stepE)
  fix i net p g
  assume inv: "budgets_inv pol s" and t: "t = \<lparr>sh = g, procs = (procs s)[i := p]\<rparr>"
    and i: "i < length (procs s)" and act: "act net pol (procs s ! i) (sh s) (p, g)"
  show "budgets_inv pol t"
    using inv cert_budget_step [OF act i] sem_budget_step [OF act i] act_lim_cap [OF act]
    by (simp add: budgets_inv_def t)
qed (auto simp: budgets_inv_def held_by_def forwards_def dispatch_holds_nothing)

lemma reachable_budgets: "reachable env pol rl s \<Longrightarrow> budgets_inv pol s"
proof (induction rule: reachable_induct)
  case start
  show ?case
    by (simp add: budgets_inv_def system_start_def NewRemoteReverseProxy_def newPerCertLimiter_def lim_inv_def
        lim_held_def in_use_def held_by_def forwards_def sem_inv_def make_sem_def)
qed (rule budgets_inv_step)

section \<open>What every goroutine has passed\<close>

text \<open>Facts of a goroutine's own request at the point it has reached.\<close>

definition pinned :: "RemoteProxyPolicy \<Rightarrow> certificate \<Rightarrow> bool" where
  "pinned pol cert \<longleftrightarrow>
     OUTunnel \<in> set (OrganizationalUnit cert) \<and> (pol_TunnelCN pol = [] \<or> CommonName cert = pol_TunnelCN pol)"

definition device_leaf :: "request \<Rightarrow> certificate \<Rightarrow> bool" where
  "device_leaf r leaf \<longleftrightarrow> leafCertOf (req_TLS r) = Some leaf \<and> OUDevice \<in> set (OrganizationalUnit leaf)"

definition home_request :: "RemoteProxyPolicy \<Rightarrow> request \<Rightarrow> bool" where
  "home_request pol r \<longleftrightarrow> (\<exists>leaf. leafCertOf (req_TLS r) = Some leaf \<and> pinned pol leaf)"

fun passed :: "RemoteProxyPolicy \<Rightarrow> proc \<Rightarrow> bool" where
  "passed pol (DRole r) = (\<exists>leaf. device_leaf r leaf)"
| "passed pol (DLive r) = (\<exists>leaf. device_leaf r leaf)"
| "passed pol (DSnap r snap) = (\<exists>leaf. device_leaf r leaf)"
| "passed pol (DPath r) = (\<exists>leaf. device_leaf r leaf)"
| "passed pol (DAdmitted r) =
     ((\<exists>leaf. device_leaf r leaf) \<and> path_guards (pol_AllowedPathPrefixes pol) (URL_Path r))"
| "passed pol (DCounted r leaf) = (device_leaf r leaf \<and> path_guards (pol_AllowedPathPrefixes pol) (URL_Path r))"
| "passed pol (DForwarding r leaf) = (device_leaf r leaf \<and> path_guards (pol_AllowedPathPrefixes pol) (URL_Path r))"
| "passed pol (DSent r leaf) = (device_leaf r leaf \<and> path_guards (pol_AllowedPathPrefixes pol) (URL_Path r))"
| "passed pol (DCopying r leaf resp) =
     (device_leaf r leaf \<and> path_guards (pol_AllowedPathPrefixes pol) (URL_Path r))"
| "passed pol (DReturning rep leaf) = (rep \<noteq> NilDereference)"
| "passed pol (DLeaving rep leaf) = (rep \<noteq> NilDereference)"
| "passed pol (Answered rep) = (rep \<noteq> NilDereference)"
| "passed pol (TUpgrade r) = home_request pol r"
| "passed pol (TAccepted r s) = home_request pol r"
| "passed pol (TSwapped r s old) = home_request pol r"
| "passed pol (TServing r s) = home_request pol r"
| "passed pol (TWoken r s c) = home_request pol r"
| "passed pol _ = True"

lemma guard_device_Inl:
  "guard_device env f1 f2 r w = Inl (rep, w') \<Longrightarrow> device_leaf r leaf \<Longrightarrow> rep \<noteq> NilDereference"
  by (auto simp: guard_device_def reject_def device_leaf_def split_beta Let_def split: option.splits if_splits)

lemma other_guards_Inl:
  "guard_role env r w = Inl (rep, w') \<Longrightarrow> rep \<noteq> NilDereference"
  "snapshot_guard f1 f2 snap w = Inl (rep, w') \<Longrightarrow> rep \<noteq> NilDereference"
  "guard_path env pol r w = Inl (rep, w') \<Longrightarrow> rep \<noteq> NilDereference"
  "take_cert_slot env pol r leaf w = Inl (rep, w') \<Longrightarrow> rep \<noteq> NilDereference"
  "take_sem_slot env pol r w = Inl (rep, w') \<Longrightarrow> rep \<noteq> NilDereference"
  "tunnel_guards env pol r w = Inl (rep, w') \<Longrightarrow> rep \<noteq> NilDereference"
  by (auto simp: guard_role_def snapshot_guard_def guard_path_def take_cert_cases take_sem_slot_def
      tunnel_guards_def reject_def split_beta Let_def split: option.splits if_splits)

lemma tunnel_guards_home: "tunnel_guards env pol r w = Inr w' \<Longrightarrow> home_request pol r"
  using VerifyPeerRole_ok [of "req_TLS r" OUTunnel] VerifyPeerCN_ok [of "req_TLS r" "pol_TunnelCN pol"]
  by (auto simp: tunnel_guards_def home_request_def pinned_def split: option.splits if_splits)

lemma proxy_no_nil:
  "remote_ErrorHandler out err w = (rep, w') \<Longrightarrow> rep \<noteq> NilDereference"
  "proxy_copied how resp w = (rep, w') \<Longrightarrow> rep \<noteq> NilDereference"
  by (auto dest: proxy_only_logs)

lemma passed_forwarded:
  "passed pol p \<Longrightarrow> forwarded p = Some (r, leaf) \<Longrightarrow>
     device_leaf r leaf \<and> path_guards (pol_AllowedPathPrefixes pol) (URL_Path r)"
  "passed pol p \<Longrightarrow> upgraded p = Some r \<Longrightarrow> home_request pol r"
  by (cases p; simp)+

lemma settle_passed:
  assumes "(p', g') = settle x refused ok g"
    and "\<And>rep w. x = Inl (rep, w) \<Longrightarrow> passed pol (refused rep)" and "\<And>w. x = Inr w \<Longrightarrow> passed pol ok"
  shows "passed pol p'"
  using assms(1) [symmetric] by (rule settle_cases) (auto simp: assms(2,3))

lemma act_passed:
  assumes "act env pol p g (p', g')" and "passed pol p"
  shows "passed pol p'"
  using assms
proof cases
  case (role r)
  show ?thesis
    by (rule settle_passed [OF role(2)])
      (auto simp: guard_role_Inr VerifyPeerRole_ok device_leaf_def dest: other_guards_Inl)
next
  case (device r f1 f2)
  then obtain leaf where leaf: "device_leaf r leaf" using assms(2) by auto
  show ?thesis
    by (rule settle_passed [OF device(2)]) (use leaf guard_device_Inl [OF _ leaf] in auto)
next
  case (tunnel r snap f1 f2)
  show ?thesis
    by (rule settle_passed [OF tunnel(2)]) (use assms(2) tunnel other_guards_Inl in auto)
next
  case (path r)
  show ?thesis
    by (rule settle_passed [OF path(2)]) (use assms(2) path other_guards_Inl guard_path_Inr in auto)
next
  case (cert_slot r leaf)
  show ?thesis
    by (rule settle_passed [OF cert_slot(2)])
      (use assms(2) cert_slot other_guards_Inl in \<open>auto simp: device_leaf_def\<close>)
next
  case (sem_slot r leaf)
  show ?thesis
    by (rule settle_passed [OF sem_slot(2)]) (use assms(2) sem_slot other_guards_Inl in auto)
next
  case (upgrade r)
  show ?thesis
    by (rule settle_passed [OF upgrade(2)]) (use other_guards_Inl tunnel_guards_home in auto)
qed (use proxy_no_nil assms(2) in \<open>auto simp: device_leaf_def\<close>)

lemma reachable_passed: "reachable env pol rl s \<Longrightarrow> list_all (passed pol) (procs s)"
proof (induction rule: reachable_induct)
  case (step s t)
  from step(2) show ?case
  proof (rule sys_stepE)
    fix i net p g
    assume t: "t = \<lparr>sh = g, procs = (procs s)[i := p]\<rparr>" and i: "i < length (procs s)"
      and act: "act net pol (procs s ! i) (sh s) (p, g)"
    have "passed pol (procs s ! i)" using step(1) i by (simp add: list_all_length)
    then show ?thesis using list_all_update [OF step(1) act_passed [OF act]] t by simp
  qed (use step(1) in \<open>simp_all add: dispatch_def\<close>)
qed (simp add: system_start_def)

section \<open>What happens to the sessions\<close>

text \<open>
  The session a goroutine has registered and will clear, and the sessions it still has to
  register or to close.
\<close>

fun owner :: "proc \<Rightarrow> sid option" where
  "owner (TSwapped r s old) = Some s"
| "owner (TServing r s) = Some s"
| "owner (TWoken r s c) = Some s"
| "owner _ = None"

fun in_hand :: "proc \<Rightarrow> sid set" where
  "in_hand (TAccepted r s) = {s}"
| "in_hand (TSwapped r s old) = set_option old"
| "in_hand _ = {}"

text \<open>A step keeps the registry, makes a session, registers the one in hand, or clears its own.\<close>

definition keeps_sessions :: "proc \<Rightarrow> shared \<Rightarrow> proc \<Rightarrow> shared \<Rightarrow> bool" where
  "keeps_sessions p g p' g' \<longleftrightarrow>
     reg (rem g') = reg (rem g) \<and> issued g' = issued g \<and> closed (rem g) \<subseteq> closed (rem g') \<and>
     owner p' = owner p \<and> in_hand p \<subseteq> in_hand p' \<union> closed (rem g') \<and>
     (\<forall>r s c. p' = TWoken r s c \<longrightarrow> s \<in> closed (rem g')) \<and> (\<forall>r s. p' \<noteq> TAccepted r s)"

lemma keeps_cases:
  "case guard_role env r w of Inl (rep, w') \<Rightarrow> closed w \<subseteq> closed w' | Inr w' \<Rightarrow> closed w \<subseteq> closed w'"
  "case guard_device env f1 f2 r w of Inl (rep, w') \<Rightarrow> closed w \<subseteq> closed w' | Inr w' \<Rightarrow> closed w \<subseteq> closed w'"
  "case snapshot_guard f1 f2 snap w of Inl (rep, w') \<Rightarrow> closed w \<subseteq> closed w' | Inr w' \<Rightarrow> closed w \<subseteq> closed w'"
  "case guard_path env pol r w of Inl (rep, w') \<Rightarrow> closed w \<subseteq> closed w' | Inr w' \<Rightarrow> closed w \<subseteq> closed w'"
  "case tunnel_guards env pol r w of Inl (rep, w') \<Rightarrow> closed w \<subseteq> closed w' | Inr w' \<Rightarrow> closed w \<subseteq> closed w'"
  "case take_cert_slot env pol r leaf w of Inl (rep, w') \<Rightarrow> closed w \<subseteq> closed w' \<and> reg w' = reg w
     | Inr w' \<Rightarrow> closed w \<subseteq> closed w' \<and> reg w' = reg w"
  "case take_sem_slot env pol r w of Inl (rep, w') \<Rightarrow> closed w \<subseteq> closed w' \<and> reg w' = reg w
     | Inr w' \<Rightarrow> closed w \<subseteq> closed w' \<and> reg w' = reg w"
  by (auto simp: guard_role_def guard_device_def guard_path_def take_cert_cases take_sem_slot_def
      tunnel_guards_def reject_def logf_def split_beta Let_def split: option.splits)
    (auto simp: snapshot_guard_def close_snapshot_if_revoked_def reject_def logf_def split_beta Let_def
      split: option.splits)

lemma settle_sessions:
  assumes "(p', g') = settle x refused ok g"
    and "case x of Inl (rep, w') \<Rightarrow> closed (rem g) \<subseteq> closed w' \<and> reg w' = reg (rem g)
       | Inr w' \<Rightarrow> closed (rem g) \<subseteq> closed w' \<and> reg w' = reg (rem g)"
    and "owner p = None" "in_hand p = {}"
    and "\<And>q. q = ok \<or> (\<exists>rep. q = refused rep) \<Longrightarrow> owner q = None \<and> (\<forall>r s. q \<noteq> TAccepted r s)"
  shows "keeps_sessions p g p' g'"
proof -
  have "reg (rem g') = reg (rem g) \<and> closed (rem g) \<subseteq> closed (rem g') \<and> issued g' = issued g"
    using settle_keeps [OF assms(1) [symmetric], of "\<lambda>w'. closed (rem g) \<subseteq> closed w' \<and> reg w' = reg (rem g)"]
      assms(2) by simp
  moreover have "p' = ok \<or> (\<exists>rep. p' = refused rep)"
    using assms(1) [symmetric] by (auto elim: settle_cases)
  then have "owner p' = None \<and> (\<forall>r s. p' \<noteq> TAccepted r s)" by (rule assms(5))
  moreover from this have "\<And>r s c. p' \<noteq> TWoken r s c" by auto
  ultimately show ?thesis using assms(3,4) by (simp add: keeps_sessions_def)
qed

text \<open>Two facts about an outcome, put together.\<close>

lemma outcome_conj:
  assumes "case x of Inl (rep, w') \<Rightarrow> P w' | Inr w' \<Rightarrow> P w'" and "case x of Inl (rep, w') \<Rightarrow> Q w' | Inr w' \<Rightarrow> Q w'"
    and "\<And>w'. P w' \<Longrightarrow> Q w' \<Longrightarrow> R w'"
  shows "case x of Inl (rep, w') \<Rightarrow> R w' | Inr w' \<Rightarrow> R w'"
  using assms by (auto split: sum.splits)

lemma act_keeps_sessions:
  assumes "act env pol p g (p', g')"
  shows "keeps_sessions p g p' g' \<or>
    (\<exists>r s. p = TUpgrade r \<and> p' = TAccepted r s \<and> rem g' = rem g \<and> issued g' = insert s (issued g)) \<or>
    (\<exists>r s. p = TAccepted r s \<and> p' = TSwapped r s (reg_sess (reg (rem g))) \<and>
       reg (rem g') = \<lparr>reg_sess = Some s, reg_cert = leafCertOf (req_TLS r)\<rparr> \<and>
       closed (rem g') = closed (rem g) \<and> issued g' = issued g) \<or>
    (\<exists>r s c. p = TWoken r s c \<and> p' = TunnelDone \<and> reg (rem g') = RegClear (reg (rem g)) s \<and>
       closed (rem g') = closed (rem g) \<and> issued g' = issued g)"
    (is "_ \<or> ?rest")
  using assms
proof cases
  case (role r)
  have "keeps_sessions p g p' g'"
    by (rule settle_sessions [OF role(2) outcome_conj [OF keeps_cases(1) guards_keep_slots(1)]])
      (use role in \<open>auto simp: same_slots_def\<close>)
  then show ?thesis ..
next
  case (device r f1 f2)
  have "keeps_sessions p g p' g'"
    by (rule settle_sessions [OF device(2) outcome_conj [OF keeps_cases(2) guards_keep_slots(2)]])
      (use device in \<open>auto simp: same_slots_def\<close>)
  then show ?thesis ..
next
  case (tunnel r snap f1 f2)
  have "keeps_sessions p g p' g'"
    by (rule settle_sessions [OF tunnel(2) outcome_conj [OF keeps_cases(3) snapshot_guard_keeps_slots]])
      (use tunnel in \<open>auto simp: same_slots_def\<close>)
  then show ?thesis ..
next
  case (path r)
  have "keeps_sessions p g p' g'"
    by (rule settle_sessions [OF path(2) outcome_conj [OF keeps_cases(4) guards_keep_slots(4)]])
      (use path in \<open>auto simp: same_slots_def\<close>)
  then show ?thesis ..
next
  case (upgrade r)
  have "keeps_sessions p g p' g'"
    by (rule settle_sessions [OF upgrade(2) outcome_conj [OF keeps_cases(5) tunnel_guards_keep_slots]])
      (use upgrade in \<open>auto simp: same_slots_def\<close>)
  then show ?thesis ..
next
  case (cert_slot r leaf)
  have "keeps_sessions p g p' g'"
    by (rule settle_sessions [OF cert_slot(2) keeps_cases(6)]) (use cert_slot in auto)
  then show ?thesis ..
next
  case (sem_slot r leaf)
  have "keeps_sessions p g p' g'"
    by (rule settle_sessions [OF sem_slot(2) keeps_cases(7)]) (use sem_slot in auto)
  then show ?thesis ..
next
  case (dial_fails r err rep w leaf)
  then show ?thesis using proxy_only_logs(1) [OF dial_fails(5)] by (auto simp: keeps_sessions_def)
next
  case (trip_fails r err rep w leaf)
  then show ?thesis using proxy_only_logs(1) [OF trip_fails(5)] by (auto simp: keeps_sessions_def)
next
  case (copied r how resp rep w leaf)
  then show ?thesis using proxy_only_logs(2) [OF copied(5)] by (auto simp: keeps_sessions_def)
next
  case (sem_back w rep leaf)
  then show ?thesis using drop_sem_effect [OF sem_back(4)] by (simp add: keeps_sessions_def)
next
  case (swap sess r old w)
  then have ?rest by (auto simp: accept_swap_def set_swap_def)
  then show ?thesis ..
next
  case (close_old r sess old)
  then show ?thesis
    by (simp add: keeps_sessions_def accept_close_old_def set_close_old_def logf_def split_beta Let_def
        split: option.splits) blast
next
  case (finish r sess c)
  then have ?rest by (simp add: accept_finish_def logf_def)
  then show ?thesis ..
next
  case (wake pick_ctx sess c closed' r)
  then show ?thesis by (auto simp: keeps_sessions_def waitForTunnelClose_def split: if_splits)
qed (auto simp: keeps_sessions_def accept_failed_def logf_def drop_cert_slot_def)

definition sessions_inv :: "RemoteProxyPolicy \<Rightarrow> shared \<Rightarrow> proc list \<Rightarrow> bool" where
  "sessions_inv pol g ps \<longleftrightarrow>
     (\<forall>x. reg_sess (reg (rem g)) = Some x \<longrightarrow>
        x \<in> issued g \<and> (\<exists>p\<in>set ps. owner p = Some x) \<and>
        (\<exists>cert. reg_cert (reg (rem g)) = Some cert \<and> pinned pol cert)) \<and>
     (\<forall>x\<in>issued g. x \<in> closed (rem g) \<or> reg_sess (reg (rem g)) = Some x \<or> (\<exists>p\<in>set ps. x \<in> in_hand p)) \<and>
     (\<forall>p\<in>set ps. (\<forall>r x. p = TAccepted r x \<longrightarrow> x \<in> issued g) \<and>
        (\<forall>r x c. p = TWoken r x c \<longrightarrow> x \<in> closed (rem g)))"

lemma sessions_invD:
  assumes "sessions_inv pol g ps"
  shows "reg_sess (reg (rem g)) = Some x \<Longrightarrow> x \<in> issued g"
    and "reg_sess (reg (rem g)) = Some x \<Longrightarrow> \<exists>p\<in>set ps. owner p = Some x"
    and "reg_sess (reg (rem g)) = Some x \<Longrightarrow> \<exists>cert. reg_cert (reg (rem g)) = Some cert \<and> pinned pol cert"
    and "x \<in> issued g \<Longrightarrow> x \<in> closed (rem g) \<or> reg_sess (reg (rem g)) = Some x \<or> (\<exists>p\<in>set ps. x \<in> in_hand p)"
    and "TAccepted r x \<in> set ps \<Longrightarrow> x \<in> issued g" and "TWoken r x c \<in> set ps \<Longrightarrow> x \<in> closed (rem g)"
  using assms unfolding sessions_inv_def by blast+

lemma sessions_inv_act:
  assumes act: "act env pol (ps ! i) g (p', g')" and i: "i < length ps"
    and inv: "sessions_inv pol g ps" and passed: "passed pol (ps ! i)"
  shows "sessions_inv pol g' (ps[i := p'])"
proof -
  note D = sessions_invD [OF inv]
  have mem: "ps ! i \<in> set ps" using i by simp
  have sub: "q \<in> set (ps[i := p']) \<Longrightarrow> q = p' \<or> q \<in> set ps" for q
    using set_update_subset_insert [of ps i p'] by auto
  have owned: "\<exists>q\<in>set (ps[i := p']). owner q = Some x"
    if "reg_sess (reg (rem g)) = Some x" "owner (ps ! i) = Some x \<Longrightarrow> owner p' = Some x" for x
    using Bex_update [OF D(2) [OF that(1)] i that(2)] .
  have handed: "\<exists>q\<in>set (ps[i := p']). x \<in> in_hand q"
    if "\<exists>q\<in>set ps. x \<in> in_hand q" "x \<in> in_hand (ps ! i) \<Longrightarrow> x \<in> in_hand p'" for x
    using Bex_update [OF that(1) i that(2)] .
  from act_keeps_sessions [OF act] consider
      (keeps) "keeps_sessions (ps ! i) g p' g'"
    | (accept) r s where "ps ! i = TUpgrade r" "p' = TAccepted r s" "rem g' = rem g" "issued g' = insert s (issued g)"
    | (swap) r s where "ps ! i = TAccepted r s" "p' = TSwapped r s (reg_sess (reg (rem g)))"
        "reg (rem g') = \<lparr>reg_sess = Some s, reg_cert = leafCertOf (req_TLS r)\<rparr>"
        "closed (rem g') = closed (rem g)" "issued g' = issued g"
    | (clear) r s c where "ps ! i = TWoken r s c" "p' = TunnelDone" "reg (rem g') = RegClear (reg (rem g)) s"
        "closed (rem g') = closed (rem g)" "issued g' = issued g"
    by blast
  then show ?thesis
  proof cases
    case keeps
    note k = keeps [unfolded keeps_sessions_def]
    show ?thesis
      unfolding sessions_inv_def
    proof (intro conjI allI ballI impI)
      fix x
      assume x: "x \<in> issued g'"
      show "x \<in> closed (rem g') \<or> reg_sess (reg (rem g')) = Some x \<or> (\<exists>q\<in>set (ps[i := p']). x \<in> in_hand q)"
      proof (cases "x \<in> closed (rem g')")
        case False
        then have "reg_sess (reg (rem g)) = Some x \<or> (\<exists>q\<in>set ps. x \<in> in_hand q)"
          using D(4) [of x] x k by auto
        then show ?thesis using handed [of x] k False by auto
      qed simp
    qed (use owned D(1,3,5,6) k sub in \<open>(auto; blast)+\<close>)
  next
    case (accept r s)
    show ?thesis
      unfolding sessions_inv_def
    proof (intro conjI allI ballI impI)
      fix x
      assume x: "x \<in> issued g'"
      have new: "\<exists>q\<in>set (ps[i := p']). s \<in> in_hand q"
        using Bex_updateI [OF i, of "\<lambda>q. s \<in> in_hand q" p'] accept by simp
      show "x \<in> closed (rem g') \<or> reg_sess (reg (rem g')) = Some x \<or> (\<exists>q\<in>set (ps[i := p']). x \<in> in_hand q)"
        using new D(4) [of x] x accept handed [of x] by auto
    qed (use owned D(1,3,5,6) accept sub in \<open>(auto; blast)+\<close>)
  next
    case (swap r s)
    have own: "\<exists>q\<in>set (ps[i := p']). owner q = Some s"
      using Bex_updateI [OF i, of "\<lambda>q. owner q = Some s" p'] swap by simp
    have old: "\<exists>q\<in>set (ps[i := p']). x \<in> in_hand q" if "reg_sess (reg (rem g)) = Some x" for x
      using Bex_updateI [OF i, of "\<lambda>q. x \<in> in_hand q" p'] swap that by simp
    show ?thesis
      unfolding sessions_inv_def
    proof (intro conjI allI ballI impI)
      fix x
      assume x: "x \<in> issued g'"
      show "x \<in> closed (rem g') \<or> reg_sess (reg (rem g')) = Some x \<or> (\<exists>q\<in>set (ps[i := p']). x \<in> in_hand q)"
        using old [of x] D(4) [of x] x swap handed [of x] by auto
    next
      fix q r' x
      assume "q \<in> set (ps[i := p'])" and "q = TAccepted r' x"
      then show "x \<in> issued g'" using sub [of q] D(5) [of r' x] swap by auto
    next
      fix q r' x c
      assume "q \<in> set (ps[i := p'])" and "q = TWoken r' x c"
      then show "x \<in> closed (rem g')" using sub [of q] D(6) [of r' x c] swap by auto
    qed (use own D(5,6) swap sub mem passed in \<open>(auto simp: home_request_def; metis)+\<close>)
  next
    case (clear r s c)
    have dead: "s \<in> closed (rem g)" using D(6) [of r s c] clear mem by simp
    show ?thesis
      unfolding sessions_inv_def
    proof (intro conjI allI ballI impI)
      fix x
      assume x: "x \<in> issued g'"
      show "x \<in> closed (rem g') \<or> reg_sess (reg (rem g')) = Some x \<or> (\<exists>q\<in>set (ps[i := p']). x \<in> in_hand q)"
        using D(4) [of x] x clear handed [of x] dead by (auto simp: RegClear_def)
    qed (use owned D(1,3,5,6) clear sub in \<open>(auto simp: RegClear_def split: if_splits; blast)+\<close>)
  qed
qed

lemma reachable_sessions: "reachable env pol rl s \<Longrightarrow> sessions_inv pol (sh s) (procs s) \<and> list_all (passed pol) (procs s)"
proof (induction rule: reachable_induct)
  case start
  show ?case
    by (simp add: system_start_def sessions_inv_def NewRemoteReverseProxy_def NewSessionRegistry_def)
next
  case (step s t)
  from step(1) have inv: "sessions_inv pol (sh s) (procs s)" and passed: "list_all (passed pol) (procs s)" by auto
  from step(2) show ?case
  proof (rule sys_stepE)
    fix i net p g
    assume t: "t = \<lparr>sh = g, procs = (procs s)[i := p]\<rparr>" and i: "i < length (procs s)"
      and act: "act net pol (procs s ! i) (sh s) (p, g)"
    have "passed pol (procs s ! i)" using passed i by (simp add: list_all_length)
    then show ?thesis
      using sessions_inv_act [OF act i inv] list_all_update [OF passed act_passed [OF act]] t by simp
  next
    fix r
    assume "t = s\<lparr>procs := procs s @ [dispatch pol r]\<rparr>"
    then show ?thesis using inv passed
      by (auto simp: sessions_inv_def dispatch_def split: if_splits)
  next
    fix x
    assume "t = s\<lparr>sh := (sh s)\<lparr>rem := (rem (sh s))\<lparr>closed := insert x (closed (rem (sh s)))\<rparr>\<rparr>\<rparr>"
    then show ?thesis using inv passed by (auto simp: sessions_inv_def)
  next
    assume "t = s\<lparr>sh := (sh s)\<lparr>stopping := True\<rparr>\<rparr>"
    then show ?thesis using inv passed by (simp add: sessions_inv_def)
  qed
qed

section \<open>A run\<close>

text \<open>One request from the phone, forwarded, not yet answered.\<close>

definition one_forward :: system where
  "one_forward =
     \<lparr>sh = \<lparr>rem = idle_remote\<lparr>perCert := snd (acquire (newPerCertLimiter 1) (serialOf phone_cert)),
              sem := \<lparr>sem_len = 1, sem_cap = 1\<rparr>\<rparr>, issued = {}, stopping = False\<rparr>,
      procs = [DForwarding (phone_request ''/api'') phone_cert]\<rparr>"

lemma api_admitted: "path_guards (pol_AllowedPathPrefixes api_policy) ''/api''"
  by (simp add: path_guards_def clean_examples pathAllowed_def api_policy_def)

lemma sys_steps_run:
  "reachable env pol rl \<lparr>sh = g, procs = [p]\<rparr> \<Longrightarrow> act env pol p g (p', g') \<Longrightarrow>
   reachable env pol rl \<lparr>sh = g', procs = [p']\<rparr>"
  unfolding reachable_def
  using runs [of 0 "\<lparr>sh = g, procs = [p]\<rparr>" env env pol p' g'] by (simp add: rtranclp.rtrancl_into_rtrancl)

lemma settle_Inr: "settle (Inr w) refused ok g = (ok, g\<lparr>rem := w\<rparr>)"
  by (simp add: settle_def)

lemma one_forward_reachable: "reachable quiet_env api_policy None one_forward"
proof -
  let ?r = "phone_request ''/api''" and ?g = "\<lparr>rem = idle_remote, issued = {}, stopping = False\<rparr>"
  have start: "system_start api_policy None = \<lparr>sh = ?g, procs = []\<rparr>"
    by (simp add: system_start_def NewRemoteReverseProxy_def idle_remote_def api_policy_def)
  have "dispatch api_policy ?r = DStart ?r"
    by (simp add: dispatch_def is_tunnel_request_def api_policy_def phone_request_def)
  then have "reachable quiet_env api_policy None \<lparr>sh = ?g, procs = [DStart ?r]\<rparr>"
    using arrives [of quiet_env api_policy "system_start api_policy None" ?r] start
    by (simp add: reachable_def r_into_rtranclp)
  moreover have "act quiet_env api_policy (DStart ?r) ?g (DRole ?r, ?g)"
    using role [of quiet_env api_policy ?r ?g] guard_role_Inr [of quiet_env ?r idle_remote idle_remote]
    by (simp add: phone_role settle_Inr)
  moreover have "act quiet_env api_policy (DRole ?r) ?g (DLive ?r, ?g)"
    using device [of quiet_env api_policy ?r ?g] guard_device_Inr [of quiet_env _ _ ?r idle_remote idle_remote]
    by (simp add: settle_Inr idle_remote_def)
  moreover have "act quiet_env api_policy (DLive ?r) ?g (DPath ?r, ?g)"
    by (rule no_list) (simp add: idle_remote_def)
  moreover have "act quiet_env api_policy (DPath ?r) ?g (DAdmitted ?r, ?g)"
    using path [of quiet_env api_policy ?r ?g] guard_path_Inr [of quiet_env api_policy ?r idle_remote idle_remote]
      api_admitted by (simp add: settle_Inr phone_request_def)
  moreover have "act quiet_env api_policy (DAdmitted ?r) ?g
      (DCounted ?r phone_cert,
       ?g\<lparr>rem := idle_remote\<lparr>perCert := snd (acquire (newPerCertLimiter 1) (serialOf phone_cert))\<rparr>\<rparr>)"
    using cert_slot [OF phone_leaf, of quiet_env api_policy "''/api''" ?g]
    by (simp add: take_cert_cases settle_Inr idle_remote_def acquire_def in_use_def newPerCertLimiter_def)
  moreover have "act quiet_env api_policy (DCounted ?r phone_cert)
      (?g\<lparr>rem := idle_remote\<lparr>perCert := snd (acquire (newPerCertLimiter 1) (serialOf phone_cert))\<rparr>\<rparr>)
      (DForwarding ?r phone_cert, sh one_forward)"
    using sem_slot [of quiet_env api_policy ?r phone_cert
        "?g\<lparr>rem := idle_remote\<lparr>perCert := snd (acquire (newPerCertLimiter 1) (serialOf phone_cert))\<rparr>\<rparr>"]
    by (simp add: take_sem_slot_def try_send_def settle_Inr one_forward_def idle_remote_def make_sem_def)
  ultimately have "reachable quiet_env api_policy None
      \<lparr>sh = sh one_forward, procs = [DForwarding ?r phone_cert]\<rparr>"
    by (meson sys_steps_run)
  then show ?thesis by (simp add: one_forward_def)
qed

text \<open>The home's tunnel, accepted and registered.\<close>

definition home_upgrade :: request where
  "home_upgrade = \<lparr>URL_Path = ''/tunnel'', req_Host = ''proxy'',
     req_TLS = Some \<lparr>PeerCertificates = [\<lparr>SerialNumber = 3, CommonName = ''home'', OrganizationalUnit = [OUTunnel]\<rparr>],
       VerifiedChains = []\<rparr>, body_cap = None, timeout = None\<rparr>"

definition one_tunnel :: system where
  "one_tunnel =
     \<lparr>sh = \<lparr>rem = accept_close_old quiet_env None home_upgrade (snd (accept_swap 0 home_upgrade idle_remote)),
            issued = {0}, stopping = False\<rparr>, procs = [TServing home_upgrade 0]\<rparr>"

lemma one_tunnel_reachable: "reachable quiet_env api_policy None one_tunnel"
proof -
  let ?r = home_upgrade and ?g = "\<lparr>rem = idle_remote, issued = {}, stopping = False\<rparr>"
  let ?g1 = "?g\<lparr>issued := {0}\<rparr>" and ?w = "snd (accept_swap 0 home_upgrade idle_remote)"
  have start: "system_start api_policy None = \<lparr>sh = ?g, procs = []\<rparr>"
    by (simp add: system_start_def NewRemoteReverseProxy_def idle_remote_def api_policy_def)
  have "dispatch api_policy ?r = TStart ?r"
    by (simp add: dispatch_def is_tunnel_request_def api_policy_def home_upgrade_def)
  then have "reachable quiet_env api_policy None \<lparr>sh = ?g, procs = [TStart ?r]\<rparr>"
    using arrives [of quiet_env api_policy "system_start api_policy None" ?r] start
    by (simp add: reachable_def r_into_rtranclp)
  moreover have "tunnel_guards quiet_env api_policy ?r idle_remote = Inr idle_remote"
    by (simp add: tunnel_guards_def VerifyPeerRole_def VerifyPeerCN_def leafCertOf_def home_upgrade_def api_policy_def)
  then have "act quiet_env api_policy (TStart ?r) ?g (TUpgrade ?r, ?g)"
    using upgrade [of quiet_env api_policy ?r ?g] by (simp add: settle_Inr)
  moreover have "act quiet_env api_policy (TUpgrade ?r) ?g (TAccepted ?r 0, ?g1)"
    using accept [of quiet_env ?r 0 ?g api_policy] by (simp add: idle_remote_def quiet_env_def)
  moreover have "act quiet_env api_policy (TAccepted ?r 0) ?g1 (TSwapped ?r 0 None, ?g1\<lparr>rem := ?w\<rparr>)"
    by (rule swap) (simp add: accept_swap_def set_swap_def idle_remote_def NewSessionRegistry_def)
  moreover have "act quiet_env api_policy (TSwapped ?r 0 None) (?g1\<lparr>rem := ?w\<rparr>) (TServing ?r 0, sh one_tunnel)"
    using close_old [of quiet_env api_policy ?r 0 None "?g1\<lparr>rem := ?w\<rparr>"] by (simp add: one_tunnel_def)
  ultimately have "reachable quiet_env api_policy None \<lparr>sh = sh one_tunnel, procs = [TServing ?r 0]\<rparr>"
    by (meson sys_steps_run)
  then show ?thesis by (simp add: one_tunnel_def)
qed

section \<open>Properties\<close>

text \<open>
  C5. Under every interleaving of any number of requests, the global semaphore counts exactly the
  requests inside the reverse proxy, at most \<open>MaxConcurrentStreams\<close> of them, and the deferred
  receive of such a request cannot block; with a positive per-certificate cap, a serial's counter
  is the number of goroutines that hold a slot for it, at most the cap, and the map has an entry
  for it exactly while there is one.
\<close>

theorem budgets_hold_under_concurrency:
  assumes "reachable env pol rl s"
  shows "sem_len (sem (rem (sh s))) = forwards (procs s) \<and>
    forwards (procs s) \<le> nat (pol_MaxConcurrentStreams pol) \<and>
    (0 < forwards (procs s) \<longrightarrow> receive (sem (rem (sh s))) \<noteq> None) \<and>
    (0 < pol_MaxStreamsPerCert pol \<longrightarrow>
       held_by k (procs s) \<le> nat (pol_MaxStreamsPerCert pol) \<and>
       inUse (perCert (rem (sh s))) k =
         (if held_by k (procs s) = 0 then None else Some (int (held_by k (procs s)))))"
proof -
  have inv: "budgets_inv pol s" by (rule reachable_budgets [OF assms])
  let ?p = "perCert (rem (sh s))"
  have "held_by k (procs s) \<le> nat (pol_MaxStreamsPerCert pol) \<and>
      inUse ?p k = (if held_by k (procs s) = 0 then None else Some (int (held_by k (procs s))))"
    if "0 < pol_MaxStreamsPerCert pol"
  proof -
    have li: "lim_inv ?p" and held: "held_by k (procs s) = nat (in_use ?p k)"
      and cap: "lim_cap ?p = pol_MaxStreamsPerCert pol"
      using inv that by (auto simp: budgets_inv_def lim_held_def)
    show ?thesis
      using limiter.held_le [OF li, of k] limiter_entry [OF li, of k] by (simp add: held cap lim_held_def)
  qed
  moreover have "forwards (procs s) \<le> nat (pol_MaxConcurrentStreams pol)"
    using inv by (simp add: budgets_inv_def sem_inv_def)
  ultimately show ?thesis using inv by (auto simp: budgets_inv_def receive_def)
qed

theorem budgets_hold_under_concurrency_witness:
  "sem_len (sem (rem (sh one_forward))) = forwards (procs one_forward) \<and>
   forwards (procs one_forward) = 1 \<and> forwards (procs one_forward) \<le> nat (pol_MaxConcurrentStreams api_policy) \<and>
   inUse (perCert (rem (sh one_forward))) (serialOf phone_cert) = Some 1"
  using budgets_hold_under_concurrency [OF one_forward_reachable, of "serialOf phone_cert"]
  by (simp add: one_forward_def forwards_def held_by_def holds_def api_policy_def)

text \<open>
  C6. In every reachable state, every request inside the reverse proxy, be it before its stream, on
  the wire or in the copying of its response, comes from a certificate with the device role and has a
  normalized, allowed path; every goroutine that is past the checks of a tunnel upgrade, from its
  handshake to the closing of its session, is there for a certificate with the tunnel role and the
  pinned name; no request is answered, or about to be, by a nil dereference; and the registered tunnel
  is one that \<open>AcceptTunnel\<close> made, with such a certificate kept beside it for the revocation checks.
\<close>

theorem only_admitted_requests_are_in_flight:
  assumes "reachable env pol rl s"
  shows "(\<forall>p\<in>set (procs s). \<forall>r leaf. forwarded p = Some (r, leaf) \<longrightarrow>
      leafCertOf (req_TLS r) = Some leaf \<and> OUDevice \<in> set (OrganizationalUnit leaf) \<and>
      pathIsNormalized (URL_Path r) \<and> pathAllowed (pol_AllowedPathPrefixes pol) (URL_Path r)) \<and>
    (\<forall>p\<in>set (procs s). \<forall>r. upgraded p = Some r \<longrightarrow>
      (\<exists>cert. leafCertOf (req_TLS r) = Some cert \<and> OUTunnel \<in> set (OrganizationalUnit cert) \<and>
         (pol_TunnelCN pol = [] \<or> CommonName cert = pol_TunnelCN pol))) \<and>
    (\<forall>p\<in>set (procs s). p \<noteq> Answered NilDereference \<and>
      (\<forall>leaf. p \<noteq> DReturning NilDereference leaf \<and> p \<noteq> DLeaving NilDereference leaf)) \<and>
    (\<forall>x. reg_sess (reg (rem (sh s))) = Some x \<longrightarrow> x \<in> issued (sh s) \<and>
      (\<exists>cert. reg_cert (reg (rem (sh s))) = Some cert \<and> OUTunnel \<in> set (OrganizationalUnit cert) \<and>
         (pol_TunnelCN pol = [] \<or> CommonName cert = pol_TunnelCN pol)))"
proof -
  have inv: "sessions_inv pol (sh s) (procs s)" and passed: "\<And>p. p \<in> set (procs s) \<Longrightarrow> passed pol p"
    using reachable_sessions [OF assms] by (simp_all add: list_all_iff)
  show ?thesis
  proof (intro conjI ballI allI impI)
    fix p r leaf
    assume "p \<in> set (procs s)" and f: "forwarded p = Some (r, leaf)"
    then have "passed pol p" by (simp add: passed)
    from passed_forwarded(1) [OF this f]
    show "leafCertOf (req_TLS r) = Some leaf" "OUDevice \<in> set (OrganizationalUnit leaf)"
      "pathIsNormalized (URL_Path r)" "pathAllowed (pol_AllowedPathPrefixes pol) (URL_Path r)"
      by (simp_all add: device_leaf_def path_guards_def)
  next
    fix p r
    assume "p \<in> set (procs s)" and u: "upgraded p = Some r"
    then have "passed pol p" by (simp add: passed)
    from passed_forwarded(2) [OF this u]
    show "\<exists>cert. leafCertOf (req_TLS r) = Some cert \<and> OUTunnel \<in> set (OrganizationalUnit cert) \<and>
        (pol_TunnelCN pol = [] \<or> CommonName cert = pol_TunnelCN pol)"
      by (simp add: home_request_def pinned_def)
  next
    fix p leaf
    assume "p \<in> set (procs s)"
    then have "passed pol p" by (rule passed)
    then show "p \<noteq> Answered NilDereference" "p \<noteq> DReturning NilDereference leaf" "p \<noteq> DLeaving NilDereference leaf"
      by auto
  next
    fix x
    assume "reg_sess (reg (rem (sh s))) = Some x"
    then show "x \<in> issued (sh s)" "\<exists>cert. reg_cert (reg (rem (sh s))) = Some cert \<and>
        OUTunnel \<in> set (OrganizationalUnit cert) \<and> (pol_TunnelCN pol = [] \<or> CommonName cert = pol_TunnelCN pol)"
      using sessions_invD(1,3) [OF inv] by (auto simp: pinned_def)
  qed
qed

theorem only_admitted_requests_are_in_flight_witness:
  "leafCertOf (req_TLS (phone_request ''/api'')) = Some phone_cert \<and>
   pathAllowed (pol_AllowedPathPrefixes api_policy) (URL_Path (phone_request ''/api'')) \<and>
   (\<exists>cert. leafCertOf (req_TLS home_upgrade) = Some cert \<and> CommonName cert = ''home'')"
  using only_admitted_requests_are_in_flight [OF one_forward_reachable]
    only_admitted_requests_are_in_flight [OF one_tunnel_reachable]
  by (simp add: one_forward_def) (auto simp: one_tunnel_def api_policy_def)

text \<open>
  C7. No session is lost: in every reachable state, each session that \<open>AcceptTunnel\<close> made is
  closed, or registered, or in the hands of a goroutine that is about to register it or to close
  it; so outside a takeover at most one tunnel is live. The registered session always has its
  own goroutine, which clears the slot when the session ends.
\<close>

theorem no_session_is_lost:
  assumes "reachable env pol rl s"
  shows "(\<forall>x\<in>issued (sh s). x \<in> closed (rem (sh s)) \<or> reg_sess (reg (rem (sh s))) = Some x \<or>
      (\<exists>p\<in>set (procs s). x \<in> in_hand p)) \<and>
    (\<forall>x\<in>issued (sh s) - closed (rem (sh s)). \<forall>y\<in>issued (sh s) - closed (rem (sh s)).
      list_all (\<lambda>p. in_hand p = {}) (procs s) \<longrightarrow> x = y) \<and>
    (\<forall>x. reg_sess (reg (rem (sh s))) = Some x \<longrightarrow> (\<exists>p\<in>set (procs s). owner p = Some x))"
proof -
  have inv: "sessions_inv pol (sh s) (procs s)" using reachable_sessions [OF assms] by simp
  have "reg_sess (reg (rem (sh s))) = Some x"
    if "x \<in> issued (sh s) - closed (rem (sh s))" "list_all (\<lambda>p. in_hand p = {}) (procs s)" for x
    using sessions_invD(4) [OF inv, of x] that by (auto simp: list_all_iff)
  then show ?thesis using sessions_invD(2,4) [OF inv] by (metis option.inject)
qed

lemma start_reachable: "reachable env pol rl (system_start pol rl)"
  by (simp add: reachable_def)

theorem no_session_is_lost_witness:
  "0 \<in> issued (sh one_tunnel) \<and>
   (0 \<in> closed (rem (sh one_tunnel)) \<or> reg_sess (reg (rem (sh one_tunnel))) = Some 0 \<or>
     (\<exists>p\<in>set (procs one_tunnel). 0 \<in> in_hand p))"
  using no_session_is_lost [OF one_tunnel_reachable] by (simp add: one_tunnel_def)

definition finished :: "proc \<Rightarrow> bool" where
  "finished p = (case p of Answered rep \<Rightarrow> True | TunnelDone \<Rightarrow> True | _ \<Rightarrow> False)"

lemma finished_holds_nothing:
  "finished p \<Longrightarrow> owner p = None \<and> in_hand p = {} \<and> cert_of p = None \<and> \<not> in_flight p"
  by (cases p) (simp_all add: finished_def)

text \<open>
  C9. Nothing is left behind: once every goroutine has finished, no tunnel is registered, every
  session ever made is closed, and both budgets are free.
\<close>

theorem quiescent_state_is_clean:
  assumes "reachable env pol rl s" and "list_all finished (procs s)"
  shows "reg_sess (reg (rem (sh s))) = None \<and> issued (sh s) \<subseteq> closed (rem (sh s)) \<and>
    sem_len (sem (rem (sh s))) = 0 \<and>
    (if 0 < pol_MaxStreamsPerCert pol then inUse (perCert (rem (sh s))) k = None else True)"
proof -
  have inv: "sessions_inv pol (sh s) (procs s)" using reachable_sessions [OF assms(1)] by simp
  have bud: "budgets_inv pol s" by (rule reachable_budgets [OF assms(1)])
  have none: "owner p = None \<and> in_hand p = {} \<and> \<not> holds k p \<and> \<not> in_flight p" if "p \<in> set (procs s)" for p k
    using finished_holds_nothing [of p] assms(2) that by (simp add: list_all_iff holds_def)
  then have zero: "held_by k (procs s) = 0" "forwards (procs s) = 0" for k
    by (auto simp: held_by_def forwards_def filter_empty_conv)
  have unregistered: "reg_sess (reg (rem (sh s))) = None"
    using sessions_invD(2) [OF inv] none by (cases "reg_sess (reg (rem (sh s)))") fastforce+
  have "inUse (perCert (rem (sh s))) k = None" if "0 < pol_MaxStreamsPerCert pol"
  proof -
    have li: "lim_inv (perCert (rem (sh s)))" and "lim_held (perCert (rem (sh s))) k = 0"
      using bud that zero(1) [of k] by (simp_all add: budgets_inv_def)
    then show ?thesis using limiter_entry [OF li, of k] by (simp add: lim_held_def)
  qed
  then show ?thesis
    using sessions_invD(4) [OF inv] none unregistered bud zero(2) by (auto simp: budgets_inv_def)
qed

theorem quiescent_state_is_clean_witness:
  "\<exists>s. reachable quiet_env api_policy None s \<and> length (procs s) = 1 \<and> list_all finished (procs s) \<and>
    reg_sess (reg (rem (sh s))) = None \<and> issued (sh s) \<subseteq> closed (rem (sh s)) \<and>
    sem_len (sem (rem (sh s))) = 0 \<and> inUse (perCert (rem (sh s))) (serialOf phone_cert) = None"
proof -
  let ?r = "phone_request ''/api''" and ?g = "sh one_forward"
  have "proxy_dial quiet_env (sent_on api_policy ?r) (rem ?g) = Inl ''no tunnel connected''"
    by (simp add: proxy_dial_def DialContext_def RegGet_def quiet_env_def one_forward_def idle_remote_def
        NewSessionRegistry_def)
  moreover obtain rep w where p: "remote_ErrorHandler (sent_on api_policy ?r) ''no tunnel connected'' (rem ?g) = (rep, w)"
    by fastforce
  ultimately have fails: "act quiet_env api_policy (DForwarding ?r phone_cert) ?g
      (DReturning rep phone_cert, ?g\<lparr>rem := w\<rparr>)" by (rule dial_fails)
  have "sem w = \<lparr>sem_len = 1, sem_cap = 1\<rparr>"
    using proxy_only_logs(1) [OF p] by (auto simp: one_forward_def)
  then obtain w' where "drop_sem_slot w = Some w'" by (simp add: drop_sem_slot_def receive_def)
  then have given: "act quiet_env api_policy (DReturning rep phone_cert) (?g\<lparr>rem := w\<rparr>)
      (DLeaving rep phone_cert, ?g\<lparr>rem := w\<rparr>\<lparr>rem := w'\<rparr>)" by (intro sem_back) simp
  have "reachable quiet_env api_policy None \<lparr>sh = ?g, procs = [DForwarding ?r phone_cert]\<rparr>"
    using one_forward_reachable by (simp add: one_forward_def)
  then obtain g where g: "reachable quiet_env api_policy None \<lparr>sh = g, procs = [Answered rep]\<rparr>"
    using fails given cert_back by (meson sys_steps_run)
  have fin: "list_all finished (procs \<lparr>sh = g, procs = [Answered rep]\<rparr>)" by (simp add: finished_def)
  show ?thesis
    using quiescent_state_is_clean [OF g fin, of "serialOf phone_cert"] g fin
    by (intro exI [of _ "\<lparr>sh = g, procs = [Answered rep]\<rparr>"]) (simp add: api_policy_def)
qed

section \<open>Progress\<close>

fun rank :: "proc \<Rightarrow> nat" where
  "rank (DStart r) = 12"
| "rank (DRole r) = 11"
| "rank (DLive r) = 10"
| "rank (DSnap r snap) = 9"
| "rank (DPath r) = 8"
| "rank (DAdmitted r) = 7"
| "rank (DCounted r leaf) = 6"
| "rank (DForwarding r leaf) = 5"
| "rank (DSent r leaf) = 4"
| "rank (DCopying r leaf resp) = 3"
| "rank (DReturning rep leaf) = 2"
| "rank (DLeaving rep leaf) = 1"
| "rank (TStart r) = 6"
| "rank (TUpgrade r) = 5"
| "rank (TAccepted r s) = 4"
| "rank (TSwapped r s old) = 3"
| "rank (TServing r s) = 2"
| "rank (TWoken r s c) = 1"
| "rank (Answered rep) = 0"
| "rank TunnelDone = 0"

text \<open>Where a goroutine waits for a live tunnel, and where for a network that never answers it.\<close>

definition waits :: "proc \<Rightarrow> shared \<Rightarrow> bool" where
  "waits p g = (case p of TServing r s \<Rightarrow> s \<notin> closed (rem g) \<and> \<not> stopping g | _ \<Rightarrow> False)"

definition hangs :: "proxy_env \<Rightarrow> RemoteProxyPolicy \<Rightarrow> proc \<Rightarrow> bool" where
  "hangs net pol p =
     (case p of
        DSent r leaf \<Rightarrow> out_timeout (sent_on pol r) = None \<and> round_trip net (sent_on pol r) = None
      | DCopying r leaf resp \<Rightarrow> out_timeout (sent_on pol r) = None \<and> body_copy net (sent_on pol r) = None
      | TUpgrade r \<Rightarrow> handshake net r = None
      | _ \<Rightarrow> False)"

lemma settle_rank: "(p', g') = settle x refused ok g \<Longrightarrow> p' = ok \<or> (\<exists>rep. p' = refused rep)"
  by (auto simp: settle_def split: sum.splits)

lemma act_rank: "act env pol p g (p', g') \<Longrightarrow> rank p' < rank p"
  by (erule act.cases) (auto dest: settle_rank)

text \<open>Only finitely many sessions are ever made or closed, so there is always a fresh one.\<close>

definition few_sessions :: "shared \<Rightarrow> bool" where
  "few_sessions g \<longleftrightarrow> finite (issued g) \<and> finite (closed (rem g))"

lemma settle_few:
  assumes "(p', g') = settle x refused ok g" and "few_sessions g"
    and "case x of Inl (rep, w') \<Rightarrow> closed w' \<subseteq> closed (rem g) \<union> S | Inr w' \<Rightarrow> closed w' \<subseteq> closed (rem g) \<union> S"
    and "finite S"
  shows "few_sessions g'"
  using assms(1) [symmetric]
  by (rule settle_cases) (use assms(2-4) in \<open>auto simp: few_sessions_def intro: finite_subset\<close>)

lemma closes_few:
  "case guard_role env r w of Inl (rep, w') \<Rightarrow> closed w' \<subseteq> closed w \<union> {} | Inr w' \<Rightarrow> closed w' \<subseteq> closed w \<union> {}"
  "case guard_device env f1 f2 r w of Inl (rep, w') \<Rightarrow> closed w' \<subseteq> closed w \<union> {}
     | Inr w' \<Rightarrow> closed w' \<subseteq> closed w \<union> {}"
  "case snapshot_guard f1 f2 snap w of Inl (rep, w') \<Rightarrow> closed w' \<subseteq> closed w \<union> set_option (fst snap)
     | Inr w' \<Rightarrow> closed w' \<subseteq> closed w \<union> set_option (fst snap)"
  "case guard_path env pol r w of Inl (rep, w') \<Rightarrow> closed w' \<subseteq> closed w \<union> {} | Inr w' \<Rightarrow> closed w' \<subseteq> closed w \<union> {}"
  "case tunnel_guards env pol r w of Inl (rep, w') \<Rightarrow> closed w' \<subseteq> closed w \<union> {} | Inr w' \<Rightarrow> closed w' \<subseteq> closed w \<union> {}"
  "case take_cert_slot env pol r leaf w of Inl (rep, w') \<Rightarrow> closed w' \<subseteq> closed w \<union> {}
     | Inr w' \<Rightarrow> closed w' \<subseteq> closed w \<union> {}"
  "case take_sem_slot env pol r w of Inl (rep, w') \<Rightarrow> closed w' \<subseteq> closed w \<union> {}
     | Inr w' \<Rightarrow> closed w' \<subseteq> closed w \<union> {}"
  by (auto simp: guard_role_def guard_device_def guard_path_def take_cert_cases take_sem_slot_def
      tunnel_guards_def reject_def logf_def split_beta Let_def split: option.splits)
    (auto simp: snapshot_guard_def close_snapshot_if_revoked_def reject_def logf_def split_beta Let_def
      split: option.splits if_splits)

lemmas settle_fews = settle_few [OF _ _ closes_few(1)] settle_few [OF _ _ closes_few(2)]
  settle_few [OF _ _ closes_few(3)] settle_few [OF _ _ closes_few(4)] settle_few [OF _ _ closes_few(5)]
  settle_few [OF _ _ closes_few(6)] settle_few [OF _ _ closes_few(7)]

lemma act_few:
  assumes "act env pol p g (p', g')" and "few_sessions g"
  shows "few_sessions g'"
  using assms(1)
proof cases
  case (dial_fails r err rep w leaf)
  then show ?thesis using proxy_only_logs(1) [OF dial_fails(5)] assms(2) by (auto simp: few_sessions_def)
next
  case (trip_fails r err rep w leaf)
  then show ?thesis using proxy_only_logs(1) [OF trip_fails(5)] assms(2) by (auto simp: few_sessions_def)
next
  case (copied r how resp rep w leaf)
  then show ?thesis using proxy_only_logs(2) [OF copied(5)] assms(2) by (auto simp: few_sessions_def)
next
  case (sem_back w rep leaf)
  then show ?thesis using drop_sem_effect [OF sem_back(4)] assms(2) by (simp add: few_sessions_def)
next
  case (wake pick_ctx sess c closed' r)
  then show ?thesis using assms(2) by (auto simp: few_sessions_def waitForTunnelClose_def split: if_splits)
qed (use settle_fews [OF _ assms(2)] assms(2) in
    \<open>auto simp: few_sessions_def accept_failed_def accept_swap_def accept_close_old_def accept_finish_def
      set_close_old_def logf_def drop_cert_slot_def split_beta Let_def split: option.splits\<close>)

lemma reachable_few: "reachable env pol rl s \<Longrightarrow> few_sessions (sh s)"
proof (induction rule: reachable_induct)
  case start
  show ?case by (simp add: few_sessions_def system_start_def NewRemoteReverseProxy_def)
next
  case (step s t)
  from step(2) show ?case
  proof (rule sys_stepE)
    fix i net p g
    assume "t = \<lparr>sh = g, procs = (procs s)[i := p]\<rparr>" and "act net pol (procs s ! i) (sh s) (p, g)"
    then show ?thesis using act_few [OF _ step(1)] by simp
  qed (use step(1) in \<open>simp_all add: few_sessions_def\<close>)
qed

lemma fresh_session: "few_sessions g \<Longrightarrow> \<exists>x. x \<notin> issued g \<and> x \<notin> closed (rem g)"
  using ex_new_if_finite [of "issued g \<union> closed (rem g)"] by (auto simp: few_sessions_def)

text \<open>In these cases, and in no others, a goroutine has no step.\<close>

lemma act_blocked: "finished p \<or> waits p g \<or> hangs net pol p \<Longrightarrow> \<not> act net pol p g y"
  by (auto simp: finished_def waits_def hangs_def waitForTunnelClose_def proxy_round_trip_def proxy_body_copy_def
      by_deadline_def elim!: act.cases split: proc.splits if_splits)

lemma wake_enabled:
  "\<not> waits (TServing r s) g \<Longrightarrow> \<exists>c cl. waitForTunnelClose True (stopping g) s (closed (rem g)) = Some (c, cl)"
  by (auto simp: waits_def waitForTunnelClose_def)

lemma act_enabled:
  assumes "\<not> finished p" and "\<not> waits p g" and "\<not> hangs net pol p" and "few_sessions g"
    and token: "in_flight p \<Longrightarrow> receive (sem (rem g)) \<noteq> None"
  shows "\<exists>y. act net pol p g y"
proof (cases p)
  case (DLive r)
  then show ?thesis
    using no_list [of g net pol r] snapshot [of g _ net pol r] by (cases "revocation (rem g)") blast+
next
  case (DAdmitted r)
  then show ?thesis
    using nil_leaf [of r net pol g] cert_slot [of r _ net pol g] by (cases "leafCertOf (req_TLS r)") blast+
next
  case (DForwarding r leaf)
  show ?thesis
  proof (cases "proxy_dial net (sent_on pol r) (rem g)")
    case (Inl err)
    obtain rep w where "remote_ErrorHandler (sent_on pol r) err (rem g) = (rep, w)" by fastforce
    from dial_fails [OF Inl this] DForwarding show ?thesis by blast
  next
    case (Inr u)
    then show ?thesis using dial [of net pol r g leaf] DForwarding by auto
  qed
next
  case (DSent r leaf)
  then obtain x where x: "proxy_round_trip net (sent_on pol r) = Some x"
    using assms(3) by (cases "proxy_round_trip net (sent_on pol r)")
      (auto simp: hangs_def proxy_round_trip_def by_deadline_None)
  show ?thesis
  proof (cases x)
    case (Inl err)
    obtain rep w where "remote_ErrorHandler (sent_on pol r) err (rem g) = (rep, w)" by fastforce
    from trip_fails [OF x [unfolded Inl] this] DSent show ?thesis by blast
  next
    case (Inr resp)
    from begins [OF x [unfolded Inr]] DSent show ?thesis by blast
  qed
next
  case (DCopying r leaf resp)
  then obtain how where how: "proxy_body_copy net (sent_on pol r) = Some how"
    using assms(3) by (cases "proxy_body_copy net (sent_on pol r)")
      (auto simp: hangs_def proxy_body_copy_def by_deadline_None)
  obtain rep w where "proxy_copied how resp (rem g) = (rep, w)" by fastforce
  from copied [OF how this] DCopying show ?thesis by blast
next
  case (DReturning rep leaf)
  then have "drop_sem_slot (rem g) \<noteq> None" using token by (simp add: drop_sem_slot_def split: option.splits)
  then obtain w where "drop_sem_slot (rem g) = Some w" by blast
  from sem_back [OF this] DReturning show ?thesis by blast
next
  case (TUpgrade r)
  then obtain x where x: "handshake net r = Some x" using assms(3) by (auto simp: hangs_def)
  obtain sess where "sess \<notin> issued g" "sess \<notin> closed (rem g)" using fresh_session [OF assms(4)] by blast
  then show ?thesis
    using accept_fails [of net r _ pol g] accept [of net r sess g pol] x TUpgrade by (cases x) auto
next
  case (TAccepted r s)
  obtain old w where "accept_swap s r (rem g) = (old, w)" by fastforce
  from swap [OF this] TAccepted show ?thesis by blast
next
  case (TServing r s)
  then obtain c cl where "waitForTunnelClose True (stopping g) s (closed (rem g)) = Some (c, cl)"
    using wake_enabled assms(2) by blast
  from wake [OF this] TServing show ?thesis by blast
qed (use assms(1) in \<open>auto simp: finished_def simp del: split_paired_Ex intro: act.intros\<close>)



end
