(* ===== verification/TLS_Config.thy ===== *)
theory TLS_Config
  imports Revocation
begin

text \<open>
  The two TLS configurations of \<^verbatim>\<open>tlsconf.go\<close>, and what they admit. Parsing PEM bundles and key
  pairs is Go's crypto library, the parameter \<open>tls_lib\<close>.
\<close>

section \<open>Protocol parameters\<close>

datatype tls_version = VersionTLS10 | VersionTLS11 | VersionTLS12 | VersionTLS13

primrec version_number :: "tls_version \<Rightarrow> nat" where
  "version_number VersionTLS10 = 769"
| "version_number VersionTLS11 = 770"
| "version_number VersionTLS12 = 771"
| "version_number VersionTLS13 = 772"

instantiation tls_version :: linorder
begin

definition less_eq_tls_version :: "tls_version \<Rightarrow> tls_version \<Rightarrow> bool" where
  "less_eq_tls_version a b \<longleftrightarrow> version_number a \<le> version_number b"

definition less_tls_version :: "tls_version \<Rightarrow> tls_version \<Rightarrow> bool" where
  "less_tls_version a b \<longleftrightarrow> version_number a < version_number b"

instance
proof
  fix a b c :: tls_version
  show "a \<le> b \<Longrightarrow> b \<le> a \<Longrightarrow> a = b"
    by (cases a; cases b) (simp_all add: less_eq_tls_version_def)
qed (auto simp: less_eq_tls_version_def less_tls_version_def)

end

text \<open>The suites and curves the code names, with what the names say of them.\<close>

datatype cipher_suite =
    TLS_ECDHE_ECDSA_WITH_AES_128_GCM_SHA256
  | TLS_ECDHE_ECDSA_WITH_AES_256_GCM_SHA384
  | TLS_ECDHE_ECDSA_WITH_CHACHA20_POLY1305_SHA256
  | OtherSuite nat

datatype curve = X25519 | CurveP256 | OtherCurve nat

datatype client_auth = NoClientCert | RequestClientCert | RequireAnyClientCert | VerifyClientCertIfGiven
  | RequireAndVerifyClientCert

definition minTLSVersion :: tls_version where
  "minTLSVersion = VersionTLS12"

definition tlsCipherSuites :: "cipher_suite list" where
  "tlsCipherSuites =
     [TLS_ECDHE_ECDSA_WITH_AES_128_GCM_SHA256, TLS_ECDHE_ECDSA_WITH_AES_256_GCM_SHA384,
      TLS_ECDHE_ECDSA_WITH_CHACHA20_POLY1305_SHA256]"

definition tlsCurvePreferences :: "curve list" where
  "tlsCurvePreferences = [X25519, CurveP256]"

section \<open>Building the configurations\<close>

record CertPaths =
  path_CA :: string
  path_Cert :: string
  path_Key :: string

text \<open>
  The crypto library: the certificates \<open>AppendCertsFromPEM\<close> finds in a text, and
  \<open>LoadX509KeyPair\<close> on two paths.
\<close>

record ('ca, 'pair) tls_lib =
  ReadFile :: "string \<Rightarrow> (string, string) result"
  certs_in_PEM :: "string \<Rightarrow> 'ca list"
  LoadX509KeyPair :: "string \<Rightarrow> string \<Rightarrow> (string, 'pair) result"

record ('ca, 'pair) tls_config =
  Certificates :: "'pair list"
  ClientCAs :: "'ca list option"
  RootCAs :: "'ca list option"
  ServerName :: string
  ClientAuth :: client_auth
  MinVersion :: tls_version
  CipherSuites :: "cipher_suite list"
  CurvePreferences :: "curve list"
  VerifyConnection ::
    "(fs \<Rightarrow> fs \<Rightarrow> RevocationList \<Rightarrow> ConnectionState \<Rightarrow> auth_error option \<times> RevocationList) option"

datatype tls_error =
    ReadCABundle string
  | NoCertificatesInCA string
  | LoadKeypair string string

definition LoadCAPool :: "('ca, 'pair) tls_lib \<Rightarrow> string \<Rightarrow> (tls_error, 'ca list) result" where
  "LoadCAPool lib caPath =
     (case ReadFile lib caPath of
        Inl err \<Rightarrow> Inl (ReadCABundle err)
      | Inr pem \<Rightarrow>
          if certs_in_PEM lib pem = [] then Inl (NoCertificatesInCA caPath) else Inr (certs_in_PEM lib pem))"

definition loadPoolAndCert ::
  "('ca, 'pair) tls_lib \<Rightarrow> CertPaths \<Rightarrow> string \<Rightarrow> (tls_error, 'ca list \<times> 'pair) result"
where
  "loadPoolAndCert lib certs label =
     and_then (LoadCAPool lib (path_CA certs)) (\<lambda>pool.
       case LoadX509KeyPair lib (path_Cert certs) (path_Key certs) of
         Inl err \<Rightarrow> Inl (LoadKeypair label err)
       | Inr cert \<Rightarrow> Inr (pool, cert))"

definition NewServerTLSConfig ::
  "('ca, 'pair) tls_lib \<Rightarrow> CertPaths \<Rightarrow> RevocationList option \<Rightarrow> (tls_error, ('ca, 'pair) tls_config) result"
where
  "NewServerTLSConfig lib certs revocation =
     and_then (loadPoolAndCert lib certs ''server'') (\<lambda>(pool, cert).
       Inr \<lparr>Certificates = [cert], ClientCAs = Some pool, RootCAs = None, ServerName = [],
            ClientAuth = RequireAndVerifyClientCert, MinVersion = minTLSVersion,
            CipherSuites = tlsCipherSuites, CurvePreferences = tlsCurvePreferences,
            VerifyConnection = verifyNotRevoked revocation\<rparr>)"

definition NewClientTLSConfig ::
  "('ca, 'pair) tls_lib \<Rightarrow> CertPaths \<Rightarrow> string \<Rightarrow> (tls_error, ('ca, 'pair) tls_config) result"
where
  "NewClientTLSConfig lib certs serverName =
     and_then (loadPoolAndCert lib certs ''client'') (\<lambda>(pool, cert).
       Inr \<lparr>Certificates = [cert], ClientCAs = None, RootCAs = Some pool, ServerName = serverName,
            ClientAuth = NoClientCert, MinVersion = minTLSVersion,
            CipherSuites = tlsCipherSuites, CurvePreferences = tlsCurvePreferences,
            VerifyConnection = None\<rparr>)"

lemma loadPoolAndCert_Inr:
  "loadPoolAndCert lib certs label = Inr (pool, cert) \<longleftrightarrow>
     LoadCAPool lib (path_CA certs) = Inr pool \<and> LoadX509KeyPair lib (path_Cert certs) (path_Key certs) = Inr cert"
  by (cases "LoadX509KeyPair lib (path_Cert certs) (path_Key certs)")
    (auto simp: loadPoolAndCert_def and_then_Inr)

section \<open>Who gets through a handshake\<close>

text \<open>
  The documented server side of \<open>crypto/tls\<close>, as far as these fields decide it: the version is
  at least \<open>MinVersion\<close>, below 1.3 the suite is a configured one, a client certificate is
  required and its chain must end in a certificate of \<open>ClientCAs\<close> when \<open>ClientAuth\<close> says so,
  and then \<open>VerifyConnection\<close> must not fail. \<open>chains_to\<close> is x509 path validation.
\<close>

record 'ca hello =
  hello_version :: tls_version
  hello_suite :: cipher_suite
  hello_chains :: "'ca list \<Rightarrow> certificate list list"    \<comment> \<open>verified chains for given roots\<close>
  hello_certs :: "certificate list"

definition handshake ::
  "('ca, 'pair) tls_config \<Rightarrow> fs \<Rightarrow> fs \<Rightarrow> RevocationList option \<Rightarrow> 'ca hello \<Rightarrow> ConnectionState option"
where
  "handshake cfg w_stat w_load revocation h =
     (let roots = (case ClientCAs cfg of None \<Rightarrow> [] | Some pool \<Rightarrow> pool);
          cs = \<lparr>PeerCertificates = hello_certs h, VerifiedChains = hello_chains h roots\<rparr>
      in if hello_version h < MinVersion cfg then None
         else if hello_version h \<le> VersionTLS12 \<and> \<not> List.member (CipherSuites cfg) (hello_suite h) then None
         else if ClientAuth cfg = RequireAndVerifyClientCert \<and> (hello_certs h = [] \<or> hello_chains h roots = [])
         then None
         else
           case (VerifyConnection cfg, revocation) of
             (Some verify, Some rl) \<Rightarrow>
               if fst (verify w_stat w_load rl cs) = None then Some cs else None
           | _ \<Rightarrow> Some cs)"

section \<open>Properties\<close>


end
