(* ===== verification/Headers.thy ===== *)
theory Headers
  imports Remote_Proxy Local_Client
begin

text \<open>
  Response and request headers: the version headers of \<^verbatim>\<open>WithVersionHeader\<close> (\<^verbatim>\<open>main.go\<close>), the hooks
  the two halves give to \<^verbatim>\<open>httputil.ReverseProxy\<close> (\<^verbatim>\<open>remote.go\<close>, \<^verbatim>\<open>local.go\<close>), and what it does with
  them, as \<^verbatim>\<open>httputil\<close> documents it, to the headers of a request and of a response.
\<close>

section \<open>\<open>http.Header\<close>\<close>

text \<open>The values of each canonical key, none for a key that is not there.\<close>

type_synonym header = "string \<Rightarrow> string list"

definition no_headers :: header where
  "no_headers = (\<lambda>k. [])"

definition letter_in :: "nat \<Rightarrow> nat \<Rightarrow> char \<Rightarrow> bool" where
  "letter_in a b c = (let n = (of_char c :: nat) in a \<le> n \<and> n \<le> b)"

definition token_char :: "char \<Rightarrow> bool" where
  "token_char c \<longleftrightarrow> letter_in 97 122 c \<or> letter_in 65 90 c \<or> letter_in 48 57 c \<or>
     c \<in> set (CHR 0x27 # ''!#$%&*+-.^_`|~'')"

definition ascii_upper :: "char \<Rightarrow> char" where
  "ascii_upper c = (if letter_in 97 122 c then char_of ((of_char c :: nat) - 32) else c)"

text \<open>\<open>CanonicalMIMEHeaderKey\<close>: a letter is upper case at the start and after a hyphen.\<close>

fun capitalise :: "bool \<Rightarrow> string \<Rightarrow> string" where
  "capitalise upper [] = []"
| "capitalise upper (c # s) = (if upper then ascii_upper c else ascii_lower c) # capitalise (c = CHR ''-'') s"

definition CanonicalKey :: "string \<Rightarrow> string" where
  "CanonicalKey k = (if list_all token_char k then capitalise True k else k)"

definition Set_header :: "string \<Rightarrow> string \<Rightarrow> header \<Rightarrow> header" where
  "Set_header k v h = h(CanonicalKey k := [v])"

definition Del_header :: "string \<Rightarrow> header \<Rightarrow> header" where
  "Del_header k h = h(CanonicalKey k := [])"

definition Get_header :: "header \<Rightarrow> string \<Rightarrow> string" where
  "Get_header h k = (case h (CanonicalKey k) of [] \<Rightarrow> [] | v # vs \<Rightarrow> v)"

definition copyHeader :: "header \<Rightarrow> header \<Rightarrow> header" where
  "copyHeader dst src = (\<lambda>k. dst k @ src k)"

section \<open>Lists of tokens\<close>

fun split_on :: "char \<Rightarrow> string \<Rightarrow> string list" where
  "split_on sep [] = [[]]"
| "split_on sep (c # s) =
     (if c = sep then [] # split_on sep s
      else case split_on sep s of [] \<Rightarrow> [[c]] | t # ts \<Rightarrow> (c # t) # ts)"

definition trim :: "string \<Rightarrow> string \<Rightarrow> string" where
  "trim blanks s = rev (dropWhile (\<lambda>c. c \<in> set blanks) (rev (dropWhile (\<lambda>c. c \<in> set blanks) s)))"

definition TrimString :: "string \<Rightarrow> string" where
  "TrimString = trim [CHR '' '', CHR 0x09, CHR 0x0A, CHR 0x0D]"

definition trimOWS :: "string \<Rightarrow> string" where
  "trimOWS = trim [CHR '' '', CHR 0x09]"

definition HeaderValuesContainsToken :: "string list \<Rightarrow> string \<Rightarrow> bool" where
  "HeaderValuesContainsToken vs t \<longleftrightarrow>
     list_ex (\<lambda>v. list_ex (\<lambda>w. map ascii_lower (trimOWS w) = map ascii_lower t) (split_on (CHR '','') v)) vs"

section \<open>Hop-by-hop headers\<close>

definition hopHeaders :: "string list" where
  "hopHeaders = [''Connection'', ''Proxy-Connection'', ''Keep-Alive'', ''Proxy-Authenticate'', ''Proxy-Authorization'',
     ''Te'', ''Trailer'', ''Transfer-Encoding'', ''Upgrade'']"

text \<open>The keys the \<open>Connection\<close> header lists.\<close>

definition connection_keys :: "header \<Rightarrow> string list" where
  "connection_keys h =
     filter (\<lambda>k. k \<noteq> []) (map TrimString (concat (map (split_on (CHR '','')) (h ''Connection''))))"

definition removeHopByHopHeaders :: "header \<Rightarrow> header" where
  "removeHopByHopHeaders h = fold Del_header hopHeaders (fold Del_header (connection_keys h) h)"

section \<open>The request that is sent on\<close>

definition forwarding_headers :: "string list" where
  "forwarding_headers = [''Forwarded'', ''X-Forwarded-For'', ''X-Forwarded-Host'', ''X-Forwarded-Proto'']"

definition upgradeType :: "header \<Rightarrow> string" where
  "upgradeType h =
     (if HeaderValuesContainsToken (h ''Connection'') ''Upgrade'' then Get_header h ''Upgrade'' else [])"

definition ascii_print :: "string \<Rightarrow> bool" where
  "ascii_print s = list_all (letter_in 32 126) s"

text \<open>
  What a user of the reverse proxy configures: a \<open>Rewrite\<close>, which is given the request that came in and the
  headers of the one to send, without the forwarding headers of the client, or a \<open>Director\<close>, which is
  given the headers as they came.
\<close>

datatype hook =
    Rewrite "request \<Rightarrow> header \<Rightarrow> outgoing \<times> header"
  | Director "request \<Rightarrow> header \<Rightarrow> outgoing \<times> header"

text \<open>The hooks of the two halves. Neither touches a header.\<close>

definition remote_hook :: hook where
  "remote_hook = Rewrite (\<lambda>r h. (remote_Rewrite r, h))"

definition local_hook :: "url \<Rightarrow> hook" where
  "local_hook target = Rewrite (\<lambda>r h. (local_Rewrite target r, h))"

text \<open>
  \<open>ServeHTTP\<close> of the reverse proxy up to the transport: hop-by-hop headers go, but for a request for
  trailers or for an upgrade; then the forwarding headers, and \<open>Rewrite\<close> runs, or, behind a
  \<open>Director\<close>, the address of the client is added to them. \<open>None\<close>: the request is answered by
  the error handler.
\<close>

definition end_to_end :: "header \<Rightarrow> header" where
  "end_to_end h =
     (let h1 = removeHopByHopHeaders h;
          h2 = (if HeaderValuesContainsToken (h ''Te'') ''trailers'' then Set_header ''Te'' ''trailers'' h1 else h1)
      in if upgradeType h \<noteq> []
         then Set_header ''Upgrade'' (upgradeType h) (Set_header ''Connection'' ''Upgrade'' h2) else h2)"

definition with_user_agent :: "header \<Rightarrow> header" where
  "with_user_agent h = (if h ''User-Agent'' = [] then Set_header ''User-Agent'' [] h else h)"

definition forward :: "hook \<Rightarrow> string \<Rightarrow> request \<Rightarrow> header \<Rightarrow> (outgoing \<times> header) option" where
  "forward hk clientIP r h =
     (case hk of
        Rewrite f \<Rightarrow>
          if \<not> ascii_print (upgradeType h) then None
          else (case f r (fold Del_header forwarding_headers (end_to_end h)) of
                  (out, h') \<Rightarrow> Some (out, with_user_agent h'))
      | Director f \<Rightarrow>
          (case f r h of
             (out, h0) \<Rightarrow>
               if \<not> ascii_print (upgradeType h0) then None
               else (let h1 = end_to_end h0; known = concat (map (\<lambda>v. v @ '', '') (h1 ''X-Forwarded-For''))
                     in Some (out, with_user_agent (Set_header ''X-Forwarded-For'' (known @ clientIP) h1)))))"

text \<open>The headers that go on through a \<open>Rewrite\<close> that leaves them alone.\<close>

definition forward_headers :: "header \<Rightarrow> header option" where
  "forward_headers h =
     (if \<not> ascii_print (upgradeType h) then None
      else Some (with_user_agent (fold Del_header forwarding_headers (end_to_end h))))"

section \<open>The response\<close>

definition RemoteVersionHeader :: string where
  "RemoteVersionHeader = ''X-Opencode-Proxy-Remote-Version''"

definition LocalVersionHeader :: string where
  "LocalVersionHeader = ''X-Opencode-Proxy-Local-Version''"

text \<open>A handler with the response headers set before it runs.\<close>

definition WithVersionHeader :: "string \<Rightarrow> string \<Rightarrow> ('r \<Rightarrow> 'a) \<Rightarrow> header \<Rightarrow> 'r \<Rightarrow> header \<times> 'a" where
  "WithVersionHeader header version nxt w r = (Set_header header version w, nxt r)"

text \<open>\<open>http.Error\<close>.\<close>

definition error_headers :: "header \<Rightarrow> header" where
  "error_headers w =
     Set_header ''X-Content-Type-Options'' ''nosniff''
       (Set_header ''Content-Type'' ''text/plain; charset=utf-8'' (Del_header ''Content-Length'' w))"

text \<open>
  How a handler answers: itself, with \<open>http.Error\<close>, or through the reverse proxy with a response of
  the backend. Before its final response a backend may send informational ones: the reverse proxy
  passes each on at once with the headers set so far, and then clears them all
  (\<open>Got1xxResponse\<close>). A switch of protocols keeps the hop-by-hop headers.
\<close>

datatype answer = Refuses | Responds int header

fun informational_headers :: "header \<Rightarrow> header list \<Rightarrow> header list" where
  "informational_headers w [] = []"
| "informational_headers w (i # rest) = copyHeader w i # informational_headers no_headers rest"

definition response_headers :: "header \<Rightarrow> header list \<Rightarrow> answer \<Rightarrow> header" where
  "response_headers w infos a =
     (let w1 = (if infos = [] then w else no_headers)
      in case a of
           Refuses \<Rightarrow> error_headers w1
         | Responds status h \<Rightarrow> copyHeader w1 (if status = 101 then h else removeHopByHopHeaders h))"

section \<open>Facts about headers\<close>

lemma canonical_names:
  "list_all (\<lambda>k. CanonicalKey k = k)
     (hopHeaders @ forwarding_headers @ [''User-Agent'', ''Content-Length'', ''Content-Type'', ''X-Content-Type-Options'',
       RemoteVersionHeader, LocalVersionHeader, ''Close'', ''Keep-Alive''])"
  by code_simp

lemma canonical [simp]:
  "CanonicalKey ''Te'' = ''Te''" "CanonicalKey ''Connection'' = ''Connection''" "CanonicalKey ''Upgrade'' = ''Upgrade''"
  "CanonicalKey ''User-Agent'' = ''User-Agent''" "CanonicalKey ''Content-Length'' = ''Content-Length''"
  "CanonicalKey ''Content-Type'' = ''Content-Type''"
  "CanonicalKey ''X-Content-Type-Options'' = ''X-Content-Type-Options''"
  "CanonicalKey RemoteVersionHeader = RemoteVersionHeader" "CanonicalKey LocalVersionHeader = LocalVersionHeader"
  using canonical_names by (simp_all add: hopHeaders_def)

lemma canonical_image [simp]:
  "CanonicalKey ` set hopHeaders = set hopHeaders" "CanonicalKey ` set forwarding_headers = set forwarding_headers"
  using canonical_names by (auto simp: list_all_iff)

lemma fold_Del: "fold Del_header ks h k = (if k \<in> CanonicalKey ` set ks then [] else h k)"
  by (induction ks arbitrary: h) (auto simp: Del_header_def)

lemma removeHopByHop_at:
  "removeHopByHopHeaders h k =
     (if k \<in> set hopHeaders \<or> k \<in> CanonicalKey ` set (connection_keys h) then [] else h k)"
  by (simp add: removeHopByHopHeaders_def fold_Del)

lemma own_headers_differ:
  "''Te'' \<notin> set forwarding_headers" "''Connection'' \<notin> set forwarding_headers" "''Upgrade'' \<notin> set forwarding_headers"
  "''User-Agent'' \<notin> set forwarding_headers" "''User-Agent'' \<notin> set hopHeaders"
  "''Te'' \<in> set hopHeaders" "''Connection'' \<in> set hopHeaders" "''Upgrade'' \<in> set hopHeaders"
  "RemoteVersionHeader \<notin> set hopHeaders" "LocalVersionHeader \<notin> set hopHeaders"
  by (simp_all add: hopHeaders_def forwarding_headers_def RemoteVersionHeader_def LocalVersionHeader_def)

lemma version_headers_differ:
  "RemoteVersionHeader \<noteq> LocalVersionHeader" "RemoteVersionHeader \<noteq> ''Connection''" "LocalVersionHeader \<noteq> ''Connection''"
  "RemoteVersionHeader \<noteq> ''Content-Type''" "LocalVersionHeader \<noteq> ''Content-Type''"
  "RemoteVersionHeader \<noteq> ''Content-Length''" "LocalVersionHeader \<noteq> ''Content-Length''"
  "RemoteVersionHeader \<noteq> ''X-Content-Type-Options''" "LocalVersionHeader \<noteq> ''X-Content-Type-Options''"
  by (simp_all add: RemoteVersionHeader_def LocalVersionHeader_def)

text \<open>The request headers that go on, key by key.\<close>

lemma forward_headers_at:
  assumes "forward_headers h = Some h'"
  shows "h' ''Te'' = (if HeaderValuesContainsToken (h ''Te'') ''trailers'' then [''trailers''] else [])"
    and "h' ''Connection'' = (if upgradeType h = [] then [] else [''Upgrade''])"
    and "h' ''Upgrade'' = (if upgradeType h = [] then [] else [upgradeType h])"
    and "h' ''User-Agent'' = (if removeHopByHopHeaders h ''User-Agent'' = [] then [[]] else removeHopByHopHeaders h ''User-Agent'')"
    and "k \<notin> {''Te'', ''Connection'', ''Upgrade'', ''User-Agent''} \<Longrightarrow>
      h' k = (if k \<in> set forwarding_headers then [] else removeHopByHopHeaders h k)"
    and "ascii_print (upgradeType h)"
proof -
  show "ascii_print (upgradeType h)" using assms by (auto simp: forward_headers_def Let_def split: if_splits)
  let ?h1 = "removeHopByHopHeaders h"
  have h'': "h' = with_user_agent (fold Del_header forwarding_headers (end_to_end h))"
    using assms by (auto simp: forward_headers_def split: if_splits)
  have h': "h' = (let h2 = (if HeaderValuesContainsToken (h ''Te'') ''trailers'' then Set_header ''Te'' ''trailers'' ?h1 else ?h1);
                h3 = (if upgradeType h \<noteq> [] then Set_header ''Upgrade'' (upgradeType h) (Set_header ''Connection'' ''Upgrade'' h2) else h2);
                h4 = fold Del_header forwarding_headers h3
            in if h4 ''User-Agent'' = [] then Set_header ''User-Agent'' [] h4 else h4)"
    by (simp add: h'' with_user_agent_def end_to_end_def Let_def)
  have hop: "?h1 ''Te'' = []" "?h1 ''Connection'' = []" "?h1 ''Upgrade'' = []"
    by (simp_all add: removeHopByHop_at own_headers_differ)
  note at = h' Let_def Set_header_def fold_Del own_headers_differ hop
  show "h' ''Te'' = (if HeaderValuesContainsToken (h ''Te'') ''trailers'' then [''trailers''] else [])"
    "h' ''Connection'' = (if upgradeType h = [] then [] else [''Upgrade''])"
    "h' ''Upgrade'' = (if upgradeType h = [] then [] else [upgradeType h])"
    "h' ''User-Agent'' = (if ?h1 ''User-Agent'' = [] then [[]] else ?h1 ''User-Agent'')"
    by (simp_all add: at)
  show "k \<notin> {''Te'', ''Connection'', ''Upgrade'', ''User-Agent''} \<Longrightarrow>
      h' k = (if k \<in> set forwarding_headers then [] else ?h1 k)"
    by (auto simp: at)
qed

text \<open>An empty \<open>User-Agent\<close> is not written to the wire.\<close>

definition sent_headers :: "header \<Rightarrow> header" where
  "sent_headers h = h(''User-Agent'' := (if h ''User-Agent'' = [[]] then [] else h ''User-Agent''))"

lemma token_examples:
  "HeaderValuesContainsToken [''Upgrade''] ''Upgrade''" "HeaderValuesContainsToken [''trailers''] ''trailers''"
  "\<not> HeaderValuesContainsToken [] t" "map TrimString (split_on (CHR '','') ''Upgrade'') = [''Upgrade'']"
  "map TrimString (split_on (CHR '','') ''close'') = [''close'']"
  "map TrimString (split_on (CHR '','') ''keep-alive'') = [''keep-alive'']"
  by (code_simp, code_simp, simp add: HeaderValuesContainsToken_def, code_simp, code_simp, code_simp)

lemma forwarded_again:
  assumes "forward_headers h = Some h'"
  shows "forward_headers (sent_headers h') = Some h'"
proof -
  note at = forward_headers_at [OF assms]
  let ?g = "sent_headers h'"
  have g: "?g k = h' k" if "k \<noteq> ''User-Agent''" for k using that by (simp add: sent_headers_def)
  have up: "upgradeType ?g = upgradeType h"
    using at(2,3) token_examples by (simp add: upgradeType_def [of ?g] g Get_header_def)
  have keys: "set (connection_keys ?g) \<subseteq> {''Upgrade''}"
    using at(2) token_examples by (simp add: connection_keys_def g)
  have clean: "removeHopByHopHeaders ?g k = (if k \<in> set hopHeaders then [] else ?g k)" for k
    using keys own_headers_differ by (auto simp: removeHopByHop_at)
  have te: "HeaderValuesContainsToken (?g ''Te'') ''trailers'' = HeaderValuesContainsToken (h ''Te'') ''trailers''"
    using at(1) token_examples by (simp add: g)
  obtain g' where g': "forward_headers ?g = Some g'"
    using up at(6) by (simp add: forward_headers_def Let_def)
  note at' = forward_headers_at [OF g']
  have "g' k = h' k" for k
  proof (cases "k \<in> {''Te'', ''Connection'', ''Upgrade'', ''User-Agent''}")
    case True
    moreover have "h' ''User-Agent'' \<noteq> []" using at(4) by auto
    then have "g' ''User-Agent'' = h' ''User-Agent''"
      using at'(4) clean own_headers_differ by (auto simp: sent_headers_def)
    ultimately show ?thesis using at(1-3) at'(1-3) te up by auto
  next
    case False
    then have "h' k = (if k \<in> set forwarding_headers then [] else removeHopByHopHeaders h k)" using at(5) by blast
    then have "k \<in> set hopHeaders \<union> set forwarding_headers \<Longrightarrow> h' k = []" by (auto simp: removeHopByHop_at)
    then show ?thesis using at'(5) [OF False] False clean g by auto
  qed
  then show ?thesis using g' by (simp add: fun_eq_iff)
qed

text \<open>
  The headers of the response of one half, its server's own \<open>WithVersionHeader\<close> around it, and what
  the next hop gets of them: the server may add a \<open>Connection\<close> header of its own.
\<close>

definition half_response :: "string \<Rightarrow> string \<Rightarrow> header list \<Rightarrow> answer \<Rightarrow> header" where
  "half_response name version infos a =
     (case WithVersionHeader name version id no_headers a of (w, a') \<Rightarrow> response_headers w infos a')"

definition as_received :: "int \<Rightarrow> string list \<Rightarrow> header \<Rightarrow> header" where
  "as_received status conn h = (if status = 101 then h else h(''Connection'' := conn))"

section \<open>Facts about responses\<close>

text \<open>What the answer itself says under a key.\<close>

definition said :: "answer \<Rightarrow> header" where
  "said a = (case a of Refuses \<Rightarrow> no_headers
     | Responds status h \<Rightarrow> if status = 101 then h else removeHopByHopHeaders h)"

lemma response_at:
  assumes "k \<notin> {''Content-Length'', ''Content-Type'', ''X-Content-Type-Options''}"
  shows "response_headers w infos a k = (if infos = [] then w k else []) @ said a k"
  using assms
  by (auto simp: response_headers_def said_def error_headers_def Set_header_def Del_header_def copyHeader_def
      no_headers_def Let_def split: answer.split)

lemma half_response_at:
  assumes "k = RemoteVersionHeader \<or> k = LocalVersionHeader" and "name = RemoteVersionHeader \<or> name = LocalVersionHeader"
  shows "half_response name v infos a k = (if infos = [] \<and> k = name then [v] else []) @ said a k"
proof -
  have "k \<notin> {''Content-Length'', ''Content-Type'', ''X-Content-Type-Options''}"
    using assms(1) version_headers_differ by auto
  then show ?thesis
    using assms by (auto simp: half_response_def WithVersionHeader_def response_at Set_header_def no_headers_def)
qed

lemma connection_kept:
  assumes "h ''Connection'' \<in> {[], [''close''], [''keep-alive'']}" and "k = RemoteVersionHeader \<or> k = LocalVersionHeader"
  shows "removeHopByHopHeaders h k = h k"
proof -
  have "CanonicalKey ''close'' = ''Close''" "CanonicalKey ''keep-alive'' = ''Keep-Alive''" by code_simp+
  moreover have "set (connection_keys h) \<subseteq> {''close'', ''keep-alive''}"
    using assms(1) token_examples by (auto simp: connection_keys_def)
  ultimately have "CanonicalKey ` set (connection_keys h) \<subseteq> {''Close'', ''Keep-Alive''}" by auto
  then have "k \<notin> CanonicalKey ` set (connection_keys h)"
    using assms(2) by (auto simp: RemoteVersionHeader_def LocalVersionHeader_def)
  then show ?thesis using assms(2) own_headers_differ by (auto simp: removeHopByHop_at)
qed

section \<open>Properties\<close>

text \<open>
  C33. The version headers. What the device gets as a refusal of the remote half carries the remote
  version and no local one. What it gets through both halves carries, under each name, the version
  of that half before anything opencode says, as long as no informational response (1xx) has come
  before the final one; after one, the half that passed it on has lost its header.
\<close>

theorem version_headers_name_both_halves:
  assumes "conn \<in> {[], [''close''], [''keep-alive'']}"
    and "home = half_response LocalVersionHeader lv home_infos a"
    and "device = half_response RemoteVersionHeader rv remote_infos (Responds status (as_received status conn home))"
  shows "half_response RemoteVersionHeader rv [] Refuses RemoteVersionHeader = [rv] \<and>
    half_response RemoteVersionHeader rv [] Refuses LocalVersionHeader = [] \<and>
    device RemoteVersionHeader = (if remote_infos = [] then [rv] else []) @ said a RemoteVersionHeader \<and>
    device LocalVersionHeader = (if home_infos = [] then [lv] else []) @ said a LocalVersionHeader"
proof -
  have received: "said (Responds status (as_received status conn home)) k = home k"
    if "k = RemoteVersionHeader \<or> k = LocalVersionHeader" for k
    using connection_kept [of "as_received status conn home" k] assms(1) that version_headers_differ
    by (auto simp: said_def as_received_def)
  show ?thesis
    using received assms(2,3) version_headers_differ by (simp add: half_response_at) (simp add: said_def no_headers_def)
qed

theorem version_headers_name_both_halves_witness:
  "let home = half_response LocalVersionHeader ''1.2'' [] (Responds 200 no_headers);
       device = (\<lambda>infos. half_response RemoteVersionHeader ''1.3'' infos (Responds 200 (as_received 200 [''close''] home)))
   in device [] RemoteVersionHeader = [''1.3''] \<and> device [] LocalVersionHeader = [''1.2''] \<and>
      device [no_headers] RemoteVersionHeader = [] \<and> device [no_headers] LocalVersionHeader = [''1.2'']"
proof -
  have "[''close''] \<in> {[], [''close''], [''keep-alive'']}" by simp
  note at = version_headers_name_both_halves [where lv = "''1.2''" and home_infos = "[]" and a = "Responds 200 no_headers"
      and rv = "''1.3''" and status = 200, OF this refl refl]
  have "said (Responds 200 no_headers) k = []" for k by (simp add: said_def removeHopByHop_at no_headers_def)
  then show ?thesis using at [where remote_infos = "[]"] at [where remote_infos = "[no_headers]"] by (simp add: Let_def)
qed

text \<open>What is left of the headers of a request.\<close>

definition sanitised :: "header \<Rightarrow> header \<Rightarrow> bool" where
  "sanitised h h' \<longleftrightarrow>
     list_all (\<lambda>k. h' k = []) forwarding_headers \<and>
     list_all (\<lambda>k. k = ''Te'' \<or> k = ''Connection'' \<or> k = ''Upgrade'' \<or> h' k = []) hopHeaders \<and>
     (h' ''Connection'' = [] \<or> h' ''Connection'' = [''Upgrade''] \<and> h' ''Upgrade'' = [upgradeType h]) \<and>
     list_all (\<lambda>k. CanonicalKey k \<in> {''Te'', ''Connection'', ''Upgrade'', ''User-Agent''} \<or> h' (CanonicalKey k) = [])
       (connection_keys h) \<and>
     (\<forall>k. k \<in> set hopHeaders \<union> set forwarding_headers \<union> CanonicalKey ` set (connection_keys h) \<union> {''User-Agent''} \<or>
       h' k = h k)"

lemma forward_sanitised:
  assumes "forward_headers h = Some h'"
  shows "sanitised h h'"
proof -
  note at = forward_headers_at [OF assms]
  have dropped: "h' k = []" if "k \<in> set hopHeaders \<union> set forwarding_headers \<union> CanonicalKey ` set (connection_keys h)"
    "k \<notin> {''Te'', ''Connection'', ''Upgrade'', ''User-Agent''}" for k
    using at(5) [OF that(2)] that(1) by (auto simp: removeHopByHop_at)
  have kept: "h' k = h k" if "k \<notin> set hopHeaders \<union> set forwarding_headers \<union> CanonicalKey ` set (connection_keys h) \<union> {''User-Agent''}" for k
    using at(5) [of k] that own_headers_differ by (auto simp: removeHopByHop_at)
  have "list_all (\<lambda>k. h' k = []) forwarding_headers"
    using dropped own_headers_differ by (auto simp: list_all_iff)
  moreover have "list_all (\<lambda>k. k = ''Te'' \<or> k = ''Connection'' \<or> k = ''Upgrade'' \<or> h' k = []) hopHeaders"
    using dropped own_headers_differ by (auto simp: list_all_iff)
  moreover have "list_all (\<lambda>k. CanonicalKey k \<in> {''Te'', ''Connection'', ''Upgrade'', ''User-Agent''} \<or> h' (CanonicalKey k) = [])
      (connection_keys h)"
    using dropped by (auto simp: list_all_iff)
  ultimately show ?thesis using at(2,3) kept by (auto simp: sanitised_def)
qed

lemma forward_hooks:
  "forward remote_hook ip r h = map_option (Pair (remote_Rewrite r)) (forward_headers h)"
  "forward (local_hook target) ip r h = map_option (Pair (local_Rewrite target r)) (forward_headers h)"
  by (simp_all add: forward_def remote_hook_def local_hook_def forward_headers_def)



end
