(* ===== verification/Startup.thy ===== *)
theory Startup
  imports Config Local_Client Remote_System TLS_Config Headers
begin

text \<open>
  \<^verbatim>\<open>main.go\<close>: the command line, the default-deny check of the remote half, and the wiring of the
  collaborators up to the point where one of the halves starts to serve.
\<close>

section \<open>The flag package\<close>

datatype flag_kind = BoolFlag | StringFlag

datatype startup_error =
    Exit int                       \<comment> \<open>\<open>flag.Parse\<close> exits: 0 for help, 2 for a bad command line\<close>
  | UsageError string
  | ConfigFailed config_error
  | OpencodeURL string
  | PolicyError string
  | RevocationError load_error
  | TLSError tls_error

definition flag_table :: "(string \<times> flag_kind) list" where
  "flag_table =
     [(''local'', BoolFlag), (''remote'', BoolFlag), (''ca'', StringFlag), (''cert'', StringFlag),
      (''key'', StringFlag), (''config'', StringFlag), (''revoked'', StringFlag),
      (''remote-url'', StringFlag), (''opencode-url'', StringFlag), (''server-name'', StringFlag),
      (''addr'', StringFlag), (''tunnel-cn'', StringFlag)]"

definition flag_defaults :: "string \<Rightarrow> string" where
  "flag_defaults name =
     (if name = ''local'' \<or> name = ''remote'' then ''false''
      else if name = ''opencode-url'' then ''http://127.0.0.1:4096''
      else if name = ''addr'' then '':443''
      else [])"

definition ParseBool :: "string \<Rightarrow> bool option" where
  "ParseBool s =
     (if List.member [''1'', ''t'', ''T'', ''TRUE'', ''true'', ''True''] s then Some True
      else if List.member [''0'', ''f'', ''F'', ''FALSE'', ''false'', ''False''] s then Some False
      else None)"

text \<open>
  \<open>parseOne\<close> on a word that starts with a dash: \<open>-name\<close>, \<open>--name\<close> or either with
  \<open>=value\<close>. The first equals sign behind the first character splits the name off.
\<close>

definition split_flag :: "string \<Rightarrow> (string \<times> string option) option" where
  "split_flag s =
     (let name = drop (if HasPrefix s ''--'' then 2 else 1) s
      in if name = [] \<or> hd name = CHR ''-'' \<or> hd name = CHR ''='' then None
         else
           (let n = hd name # takeWhile (\<lambda>c. c \<noteq> CHR ''='') (tl name)
            in if length n = length name then Some (n, None) else Some (n, Some (drop (length n + 1) name))))"

definition set_bool :: "string \<Rightarrow> string option \<Rightarrow> (string \<Rightarrow> string) \<Rightarrow> (string \<Rightarrow> string) option" where
  "set_bool name v vals =
     (case ParseBool (case v of None \<Rightarrow> ''true'' | Some x \<Rightarrow> x) of
        None \<Rightarrow> None
      | Some b \<Rightarrow> Some (vals(name := (if b then ''true'' else ''false''))))"

fun parse_args :: "string list \<Rightarrow> (string \<Rightarrow> string) \<Rightarrow> (int, string \<Rightarrow> string) result" where
  "parse_args [] vals = Inr vals"
| "parse_args (s # args) vals =
     (if length s < 2 \<or> hd s \<noteq> CHR ''-'' \<or> s = ''--'' then Inr vals
      else
        case split_flag s of
          None \<Rightarrow> Inl 2
        | Some (name, v) \<Rightarrow>
            (case map_of flag_table name of
               None \<Rightarrow> if name = ''help'' \<or> name = ''h'' then Inl 0 else Inl 2
             | Some BoolFlag \<Rightarrow>
                 (case set_bool name v vals of None \<Rightarrow> Inl 2 | Some vals' \<Rightarrow> parse_args args vals')
             | Some StringFlag \<Rightarrow>
                 (case v of
                    Some x \<Rightarrow> parse_args args (vals(name := x))
                  | None \<Rightarrow>
                      (case args of
                         [] \<Rightarrow> Inl 2
                       | x # rest \<Rightarrow> parse_args rest (vals(name := x))))))"

section \<open>parseFlags\<close>

record flags =
  isLocal :: bool
  caPath :: string
  certPath :: string
  keyPath :: string
  configPath :: string
  revokedPath :: string
  remoteURL :: string
  opencodeURL :: string
  serverName :: string
  addr :: string
  tunnelCN :: string

definition parseFlags :: "string list \<Rightarrow> (startup_error, flags) result" where
  "parseFlags args =
     (case parse_args args flag_defaults of
        Inl code \<Rightarrow> Inl (Exit code)
      | Inr vals \<Rightarrow>
          (let is_local = (vals ''local'' = ''true''); is_remote = (vals ''remote'' = ''true'')
           in if is_local = is_remote then Inl (UsageError ''exactly one of --local or --remote is required'')
              else if vals ''ca'' = [] \<or> vals ''cert'' = [] \<or> vals ''key'' = [] then
                Inl (UsageError ''--ca, --cert, and --key are required'')
              else if is_local \<and> vals ''remote-url'' = [] then
                Inl (UsageError ''--remote-url is required with --local'')
              else
                Inr \<lparr>isLocal = is_local, caPath = vals ''ca'', certPath = vals ''cert'', keyPath = vals ''key'',
                     configPath = vals ''config'', revokedPath = vals ''revoked'', remoteURL = vals ''remote-url'',
                     opencodeURL = vals ''opencode-url'', serverName = vals ''server-name'', addr = vals ''addr'',
                     tunnelCN = vals ''tunnel-cn''\<rparr>))"

section \<open>Servers and wrappers\<close>

record ('ca, 'pair) http_server =
  srv_Addr :: string
  srv_TLSConfig :: "('ca, 'pair) tls_config option"
  srv_ReadHeaderTimeout :: duration
  srv_IdleTimeout :: duration
  srv_MaxHeaderBytes :: int

definition newProxyServer ::
  "Config \<Rightarrow> string \<Rightarrow> ('ca, 'pair) tls_config option \<Rightarrow> ('ca, 'pair) http_server"
where
  "newProxyServer cfg address tlsConf =
     \<lparr>srv_Addr = address, srv_TLSConfig = tlsConf, srv_ReadHeaderTimeout = ReadHeaderTimeout cfg,
      srv_IdleTimeout = IdleTimeout cfg, srv_MaxHeaderBytes = MaxHeaderBytes cfg\<rparr>"

definition requireRemotePolicy :: "RemoteProxyPolicy \<Rightarrow> string option" where
  "requireRemotePolicy policy =
     (if pol_TunnelCN policy = [] then
        Some (''--remote requires a pinned tunnel identity: set --tunnel-cn (or '' @ [CHR 0x22] @ ''tunnel-cn'' @
          [CHR 0x22] @ '' in --config) to the tunnel certificate'' @ [CHR 0x27] @ ''s Common Name'')
      else if pol_AllowedPathPrefixes policy = [] then
        Some (''--remote requires a device path allowlist: set '' @ [CHR 0x22] @ ''allowed-path-prefixes'' @
          [CHR 0x22] @ '' in --config (use ['' @ [CHR 0x22] @ ''/'' @ [CHR 0x22] @ ''] to allow every path deliberately)'')
      else None)"

section \<open>run\<close>

text \<open>
  What \<open>run\<close> reads of its surroundings, and what it has put together when a half starts to
  serve. The two observations of the denylist file are the load and the stat at startup.
\<close>

text \<open>
  The context \<open>context.Background()\<close>, which is never cancelled, and the http client that dials;
  \<open>Version\<close> is a build-time string.
\<close>

datatype root_context = Background

record ('ca, 'pair) http_client =
  TLSClientConfig :: "('ca, 'pair) tls_config"

definition NewTunnelDialer :: "('ca, 'pair) tls_config \<Rightarrow> ('ca, 'pair) http_client" where
  "NewTunnelDialer tlsConf = \<lparr>TLSClientConfig = tlsConf\<rparr>"

record ('ca, 'pair, 'd) surroundings =
  args :: "string list"
  Version :: string
  yamux_DefaultConfig :: "'d yamux_config"
  float_part :: float_part
  crypto :: "('ca, 'pair) tls_lib"
  fs_load :: fs
  fs_stat :: fs
  home_env :: local_env

record ('ca, 'pair, 'd) local_half =
  ls_factory :: "('d, root_context) TunnelFactory"
  ls_handler :: "header \<Rightarrow> request \<Rightarrow> header \<times> reply \<times> string list"
  ls_server :: "('ca, 'pair) http_server"
  ls_client :: LocalClient
  ls_dialer :: "('ca, 'pair) http_client"

text \<open>
  The remote handler sets its header and dispatches the request to the goroutine's first step;
  \<open>rs_start\<close> is the state the goroutines share.
\<close>

record ('ca, 'pair, 'd) remote_half =
  rs_factory :: "('d, root_context) TunnelFactory"
  rs_policy :: RemoteProxyPolicy
  rs_denylist :: "RevocationList option"
  rs_handler :: "header \<Rightarrow> request \<Rightarrow> header \<times> proc"
  rs_start :: remote
  rs_server :: "('ca, 'pair) http_server"
  rs_tls :: "('ca, 'pair) tls_config"

datatype ('ca, 'pair, 'd) service =
    ServeLocal "('ca, 'pair, 'd) local_half"
  | ServeRemote "('ca, 'pair, 'd) remote_half"

definition remote_policy :: "Config \<Rightarrow> flags \<Rightarrow> RemoteProxyPolicy" where
  "remote_policy cfg f =
     \<lparr>pol_TunnelPath = TunnelPath cfg, pol_MaxConcurrentStreams = MaxConcurrentStreams cfg,
      pol_MaxRequestBytes = MaxRequestBytes cfg,
      pol_TunnelCN = (if tunnelCN f \<noteq> [] then tunnelCN f else TunnelCN cfg),
      pol_AllowedPathPrefixes = AllowedPathPrefixes cfg, pol_MaxStreamDuration = MaxStreamDuration cfg,
      pol_MaxStreamsPerCert = MaxStreamsPerCert cfg\<rparr>"

definition cert_paths :: "flags \<Rightarrow> CertPaths" where
  "cert_paths f = \<lparr>path_CA = caPath f, path_Cert = certPath f, path_Key = keyPath f\<rparr>"

definition tunnel_factory :: "('ca, 'pair, 'd) surroundings \<Rightarrow> Config \<Rightarrow> ('d, root_context) TunnelFactory" where
  "tunnel_factory sur cfg =
     NewTunnelFactory
       (NewYamuxConfig (yamux_DefaultConfig sur) (Config.KeepAliveInterval cfg) (Config.StreamOpenTimeout cfg)) Background"

definition run_local ::
  "('ca, 'pair, 'd) surroundings \<Rightarrow> flags \<Rightarrow> Config \<Rightarrow> (startup_error, ('ca, 'pair, 'd) service) result"
where
  "run_local sur f cfg =
     (case NewLocalReverseProxy (home_env sur) (opencodeURL f) of
        Inl err \<Rightarrow> Inl (OpencodeURL err)
      | Inr proxy \<Rightarrow>
          (let backoff = NewBackoff (BackoffMin cfg) (BackoffMax cfg)
           in case NewClientTLSConfig (crypto sur) (cert_paths f) (serverName f) of
                Inl err \<Rightarrow> Inl (TLSError err)
              | Inr tlsConf \<Rightarrow>
                  Inr (ServeLocal
                    \<lparr>ls_factory = tunnel_factory sur cfg,
                     ls_handler = WithVersionHeader LocalVersionHeader (Version sur)
                       (WithLocalRequestLimits (home_env sur) (MaxRequestBytes cfg) (AllowedPathPrefixes cfg) proxy),
                     ls_server = newProxyServer cfg [] None,
                     ls_client = NewLocalClient (remoteURL f) backoff, ls_dialer = NewTunnelDialer tlsConf\<rparr>)))"

definition run_remote ::
  "('ca, 'pair, 'd) surroundings \<Rightarrow> flags \<Rightarrow> Config \<Rightarrow> (startup_error, ('ca, 'pair, 'd) service) result"
where
  "run_remote sur f cfg =
     (let policy = remote_policy cfg f
      in case requireRemotePolicy policy of
           Some err \<Rightarrow> Inl (PolicyError err)
         | None \<Rightarrow>
             (case NewRevocationList (fs_load sur) (fs_stat sur) (revokedPath f) of
                Inl err \<Rightarrow> Inl (RevocationError err)
              | Inr dlist \<Rightarrow>
                  (case NewServerTLSConfig (crypto sur) (cert_paths f) dlist of
                     Inl err \<Rightarrow> Inl (TLSError err)
                   | Inr tlsConf \<Rightarrow>
                       Inr (ServeRemote
                         \<lparr>rs_factory = tunnel_factory sur cfg, rs_policy = policy, rs_denylist = dlist,
                          rs_handler = WithVersionHeader RemoteVersionHeader (Version sur) (dispatch policy),
                          rs_start = NewRemoteReverseProxy policy NewSessionRegistry dlist,
                          rs_server = newProxyServer cfg (addr f) (Some tlsConf), rs_tls = tlsConf\<rparr>))))"

definition start :: "('ca, 'pair, 'd) surroundings \<Rightarrow> (startup_error, ('ca, 'pair, 'd) service) result" where
  "start sur =
     and_then (parseFlags (args sur)) (\<lambda>f.
       case LoadConfig (float_part sur) (ReadFile (crypto sur)) (configPath f) of
         Inl err \<Rightarrow> Inl (ConfigFailed err)
       | Inr cfg \<Rightarrow> if isLocal f then run_local sur f cfg else run_remote sur f cfg)"

text \<open>
  How the process ends. The local half serves until its loop returns, which is an error-free end;
  the remote half until \<open>ListenAndServeTLS\<close> returns, where the error of a shutdown is none.
  \<open>None\<close>: it still serves. \<open>main\<close> turns an error into a line on stderr and exit status 1;
  \<open>flag.Parse\<close> exits by itself.
\<close>

datatype run_error = StartFailed startup_error | ServeFailed serve_error

definition listen_result :: "serve_error option \<Rightarrow> serve_error option" where
  "listen_result err = (if err \<noteq> None \<and> err \<noteq> Some ErrServerClosed then err else None)"

definition run ::
  "('ca, 'pair, 'd) surroundings \<Rightarrow> round list \<Rightarrow> serve_error option option \<Rightarrow> run_error option option"
where
  "run sur rds listened =
     (case start sur of
        Inl err \<Rightarrow> Some (Some (StartFailed err))
      | Inr (ServeLocal h) \<Rightarrow> if fst (Run rds (ls_client h)) then Some None else None
      | Inr (ServeRemote h) \<Rightarrow> map_option (\<lambda>err. map_option ServeFailed (listen_result err)) listened)"

definition main_exit ::
  "('ca, 'pair, 'd) surroundings \<Rightarrow> round list \<Rightarrow> serve_error option option \<Rightarrow> int option"
where
  "main_exit sur rds listened =
     map_option (\<lambda>err. case err of
         None \<Rightarrow> 0
       | Some (StartFailed (Exit code)) \<Rightarrow> code
       | Some _ \<Rightarrow> 1) (run sur rds listened)"

section \<open>What a started service rests on\<close>

lemma LoadConfig_ok: "LoadConfig frac rd p = Inr cfg \<Longrightarrow> config_ok cfg"
  using validate_None default_ok by (auto simp: LoadConfig_def split: if_splits sum.splits option.splits)

lemma start_cases:
  assumes "start sur = Inr service"
  obtains f cfg where "parseFlags (args sur) = Inr f" and "config_ok cfg"
    and "LoadConfig (float_part sur) (ReadFile (crypto sur)) (configPath f) = Inr cfg"
    and "(if isLocal f then run_local sur f cfg else run_remote sur f cfg) = Inr service"
proof -
  from assms obtain f where f: "parseFlags (args sur) = Inr f"
    by (auto simp: start_def and_then_Inr)
  show thesis
  proof (cases "LoadConfig (float_part sur) (ReadFile (crypto sur)) (configPath f)")
    case (Inr cfg)
    then show thesis using that [OF f LoadConfig_ok [OF Inr] Inr] assms f by (simp add: start_def)
  qed (use assms f in \<open>simp add: start_def\<close>)
qed

lemma run_remote_Inr:
  "run_remote sur f cfg = Inr service \<longleftrightarrow>
     requireRemotePolicy (remote_policy cfg f) = None \<and>
     (\<exists>dlist tlsConf. NewRevocationList (fs_load sur) (fs_stat sur) (revokedPath f) = Inr dlist \<and>
        NewServerTLSConfig (crypto sur) (cert_paths f) dlist = Inr tlsConf \<and>
        service = ServeRemote \<lparr>rs_factory = tunnel_factory sur cfg, rs_policy = remote_policy cfg f,
          rs_denylist = dlist,
          rs_handler = WithVersionHeader RemoteVersionHeader (Version sur) (dispatch (remote_policy cfg f)),
          rs_start = NewRemoteReverseProxy (remote_policy cfg f) NewSessionRegistry dlist,
          rs_server = newProxyServer cfg (addr f) (Some tlsConf), rs_tls = tlsConf\<rparr>)"
  by (auto simp: run_remote_def Let_def split: option.splits sum.splits)

lemma run_local_Inr:
  "run_local sur f cfg = Inr service \<longleftrightarrow>
     (\<exists>proxy tlsConf. NewLocalReverseProxy (home_env sur) (opencodeURL f) = Inr proxy \<and>
        NewClientTLSConfig (crypto sur) (cert_paths f) (serverName f) = Inr tlsConf \<and>
        service = ServeLocal
          \<lparr>ls_factory = tunnel_factory sur cfg,
           ls_handler = WithVersionHeader LocalVersionHeader (Version sur)
             (WithLocalRequestLimits (home_env sur) (MaxRequestBytes cfg) (AllowedPathPrefixes cfg) proxy),
           ls_server = newProxyServer cfg [] None,
           ls_client = NewLocalClient (remoteURL f) (NewBackoff (BackoffMin cfg) (BackoffMax cfg)),
           ls_dialer = NewTunnelDialer tlsConf\<rparr>)"
  by (auto simp: run_local_def Let_def split: sum.splits)

text \<open>A policy the remote half accepts: pinned, and with an allowlist of rooted prefixes.\<close>

definition default_deny :: "RemoteProxyPolicy \<Rightarrow> bool" where
  "default_deny pol \<longleftrightarrow>
     pol_TunnelCN pol \<noteq> [] \<and> pol_AllowedPathPrefixes pol \<noteq> [] \<and>
     list_all (\<lambda>p. HasPrefix p ''/'') (pol_AllowedPathPrefixes pol) \<and> HasPrefix (pol_TunnelPath pol) ''/'' \<and>
     0 < pol_MaxConcurrentStreams pol \<and> 0 < pol_MaxRequestBytes pol \<and>
     0 \<le> sint (pol_MaxStreamDuration pol) \<and> 0 \<le> pol_MaxStreamsPerCert pol"

lemma remote_policy_default_deny:
  "config_ok cfg \<Longrightarrow> requireRemotePolicy (remote_policy cfg f) = None \<Longrightarrow> default_deny (remote_policy cfg f)"
  by (auto simp: default_deny_def requireRemotePolicy_def config_ok_def remote_policy_def split: if_splits)

lemma server_config_fields:
  "NewServerTLSConfig lib certs rl = Inr c \<Longrightarrow>
   ClientAuth c = RequireAndVerifyClientCert \<and> MinVersion c = VersionTLS12 \<and>
   VerifyConnection c = verifyNotRevoked rl"
  by (auto simp: NewServerTLSConfig_def and_then_Inr minTLSVersion_def)

lemma started_remote:
  assumes "start sur = Inr (ServeRemote h)"
  shows "default_deny (rs_policy h)"
    and "ClientAuth (rs_tls h) = RequireAndVerifyClientCert \<and> MinVersion (rs_tls h) = VersionTLS12 \<and>
      VerifyConnection (rs_tls h) = verifyNotRevoked (rs_denylist h) \<and> srv_TLSConfig (rs_server h) = Some (rs_tls h)"
    and "0 < sint (srv_ReadHeaderTimeout (rs_server h)) \<and> 0 < sint (srv_IdleTimeout (rs_server h)) \<and>
      0 < srv_MaxHeaderBytes (rs_server h)"
    and "rs_start h = rem (sh (system_start (rs_policy h) (rs_denylist h))) \<and>
      rs_handler h hs r = (Set_header RemoteVersionHeader (Version sur) hs, dispatch (rs_policy h) r)"
proof -
  obtain f cfg where ok: "config_ok cfg" and remote: "run_remote sur f cfg = Inr (ServeRemote h)"
    by (rule start_cases [OF assms]) (auto simp: run_local_Inr split: if_splits)
  note r = remote [unfolded run_remote_Inr]
  show "default_deny (rs_policy h)" using r remote_policy_default_deny [OF ok] by auto
  show "ClientAuth (rs_tls h) = RequireAndVerifyClientCert \<and> MinVersion (rs_tls h) = VersionTLS12 \<and>
      VerifyConnection (rs_tls h) = verifyNotRevoked (rs_denylist h) \<and> srv_TLSConfig (rs_server h) = Some (rs_tls h)"
    using r by (auto simp: newProxyServer_def dest: server_config_fields)
  show "0 < sint (srv_ReadHeaderTimeout (rs_server h)) \<and> 0 < sint (srv_IdleTimeout (rs_server h)) \<and>
      0 < srv_MaxHeaderBytes (rs_server h)"
    using r ok by (auto simp: newProxyServer_def config_ok_def)
  show "rs_start h = rem (sh (system_start (rs_policy h) (rs_denylist h))) \<and>
      rs_handler h hs r = (Set_header RemoteVersionHeader (Version sur) hs, dispatch (rs_policy h) r)"
    using r by (auto simp: system_start_def WithVersionHeader_def)
qed

lemma started_local:
  assumes "start sur = Inr (ServeLocal h)"
  obtains mn mx u where "ls_client h = NewLocalClient u (NewBackoff mn mx)" "0 < sint mn" "sint mn \<le> sint mx"
    "0 < sint (srv_ReadHeaderTimeout (ls_server h))" "0 < sint (srv_IdleTimeout (ls_server h))"
    "0 < srv_MaxHeaderBytes (ls_server h)" "\<And>hs r. fst (ls_handler h hs r) = Set_header LocalVersionHeader (Version sur) hs"
proof -
  obtain f cfg where ok: "config_ok cfg" and home: "run_local sur f cfg = Inr (ServeLocal h)"
    by (rule start_cases [OF assms]) (auto simp: run_remote_Inr split: if_splits)
  from home [unfolded run_local_Inr] ok that show thesis
    by (auto simp: newProxyServer_def config_ok_def WithVersionHeader_def)
qed

section \<open>A sample start\<close>

definition quoted :: "string \<Rightarrow> string" where
  "quoted s = [CHR 0x22] @ s @ [CHR 0x22]"

definition sample_text :: string where
  "sample_text =
     ''{'' @ quoted ''tunnel-path'' @ '':'' @ quoted ''/tunnel'' @ '', '' @
     quoted ''max-concurrent-streams'' @ '':1,'' @ quoted ''max-request-bytes'' @ '':10,'' @
     quoted ''max-streams-per-cert'' @ '':1,'' @
     quoted ''allowed-path-prefixes'' @ '': ['' @ quoted ''/api'' @ '']}''"

definition sample_config :: Config where
  "sample_config =
     DefaultConfig\<lparr>TunnelPath := ''/tunnel'', MaxConcurrentStreams := 1, MaxRequestBytes := 10,
       AllowedPathPrefixes := [''/api''], MaxStreamsPerCert := 1\<rparr>"

definition sample_surroundings :: "string list \<Rightarrow> (nat, nat, unit) surroundings" where
  "sample_surroundings as =
     \<lparr>args = as, Version = ''1.0.0'',
      yamux_DefaultConfig = \<lparr>EnableKeepAlive = True, KeepAliveInterval = 30, StreamOpenTimeout = 75, yamux_rest = ()\<rparr>,
      float_part = (\<lambda>f k u. f * u div 10 ^ k),
      crypto = \<lparr>ReadFile = (\<lambda>p. if p = ''c'' then Inr sample_text else Inr ''PEM''),
        certs_in_PEM = (\<lambda>pem. [1]), LoadX509KeyPair = (\<lambda>c k. Inr 2)\<rparr>,
      fs_load = \<lparr>os_stat = (\<lambda>p. None), os_read = (\<lambda>p. OpenFailed)\<rparr>,
      fs_stat = \<lparr>os_stat = (\<lambda>p. None), os_read = (\<lambda>p. OpenFailed)\<rparr>,
      home_env = \<lparr>lwide = (\<lambda>r. False), url_Parse = (\<lambda>u. Inl ''unused''), opencode = (\<lambda>o'. Inl ''unused''),
        home_copy = (\<lambda>o'. Copied)\<rparr>\<rparr>"

definition sample_flags :: "string \<Rightarrow> flags" where
  "sample_flags config =
     \<lparr>isLocal = False, caPath = ''a'', certPath = ''b'', keyPath = ''k'', configPath = config, revokedPath = [],
      remoteURL = [], opencodeURL = ''http://127.0.0.1:4096'', serverName = [], addr = '':443'',
      tunnelCN = ''home''\<rparr>"

definition with_config :: "string list" where
  "with_config = [''--remote'', ''--tunnel-cn'', ''home'', ''--config=c'', ''--ca'', ''a'', ''-cert=b'', ''--key'', ''k'']"

definition without_config :: "string list" where
  "without_config = [''--remote'', ''--tunnel-cn'', ''home'', ''--ca'', ''a'', ''-cert=b'', ''--key'', ''k'']"

lemma sample_flags_parsed:
  "parseFlags with_config = Inr (sample_flags ''c'')" "parseFlags without_config = Inr (sample_flags [])"
  by (simp_all add: parseFlags_def with_config_def without_config_def sample_flags_def split_flag_def
      HasPrefix_def flag_table_def set_bool_def ParseBool_def flag_defaults_def Let_def)

lemma sample_text_parsed:
  "json_parse sample_text = Some (JObj [(''tunnel-path'', JStr ''/tunnel''), (''max-concurrent-streams'', JNum ''1''),
     (''max-request-bytes'', JNum ''10''), (''max-streams-per-cert'', JNum ''1''),
     (''allowed-path-prefixes'', JArr [JStr ''/api''])])"
  by (simp add: json_parse_def sample_text_def quoted_def json_eval)

lemma sample_config_ok: "config_ok sample_config"
  by (simp add: sample_config_def config_ok_def DefaultConfig_def Second_def duration_of_def sint_of_int_range
      in_int64_def HasPrefix_def)

lemma sample_config_loaded:
  assumes "rd ''c'' = Inr sample_text"
  shows "LoadConfig frac rd ''c'' = Inr sample_config"
proof -
  have "UnmarshalJSON frac sample_text DefaultConfig = Inr sample_config"
    by (simp add: UnmarshalJSON_def sample_text_parsed Decode_def field_for_def config_keys_def set_field_def
        str_ptr_def int_ptr_def strs_ptr_def ParseInt_def dec_digit_def digit_of_def in_int64_def Let_def
        layer_def empty_raw_def durationFields_def set_stream_duration_def or_keep_def sample_config_def)
  moreover have "validate sample_config = None" using sample_config_ok validate_None by blast
  ultimately show ?thesis using assms by (simp add: LoadConfig_def)
qed

lemma sample_policy: "remote_policy sample_config (sample_flags c) = api_policy"
  by (simp add: remote_policy_def sample_config_def sample_flags_def api_policy_def DefaultConfig_def)

lemma sample_starts:
  "\<exists>h. start (sample_surroundings with_config) = Inr (ServeRemote h) \<and> rs_policy h = api_policy \<and> rs_denylist h = None"
proof -
  let ?sur = "sample_surroundings with_config" and ?f = "sample_flags ''c''"
  have "LoadConfig (float_part ?sur) (ReadFile (crypto ?sur)) ''c'' = Inr sample_config"
    by (rule sample_config_loaded) (simp add: sample_surroundings_def)
  moreover have f: "args ?sur = with_config" "configPath ?f = ''c''" "\<not> isLocal ?f" "revokedPath ?f = []"
    by (simp_all add: sample_surroundings_def sample_flags_def)
  ultimately have run: "start ?sur = run_remote ?sur ?f sample_config"
    by (simp add: start_def sample_flags_parsed)
  have "requireRemotePolicy api_policy = None" by (simp add: requireRemotePolicy_def api_policy_def)
  moreover have "\<exists>c. NewServerTLSConfig (crypto ?sur) (cert_paths ?f) None = Inr c"
    by (simp add: NewServerTLSConfig_def loadPoolAndCert_def LoadCAPool_def sample_surroundings_def
        cert_paths_def sample_flags_def)
  ultimately obtain h where "run_remote ?sur ?f sample_config = Inr (ServeRemote h)"
    and "rs_policy h = api_policy \<and> rs_denylist h = None"
    using run_remote_Inr [of ?sur ?f sample_config] f(4) by (auto simp: sample_policy NewRevocationList_def)
  with run show ?thesis by auto
qed

section \<open>Properties\<close>

text \<open>
  C35. Whatever the command line, the files and the certificates, a half only starts to serve with
  a safe set-up: the remote half with a pinned tunnel name, a non-empty allowlist of rooted
  prefixes, positive budgets and body cap, client certificates required and verified against the
  denylist it loaded, and header and idle timeouts set; the local half with an ordered, positive
  backoff range.
\<close>

theorem services_start_default_deny:
  "case start sur of
     Inl err \<Rightarrow> True
   | Inr (ServeRemote h) \<Rightarrow>
       pol_TunnelCN (rs_policy h) \<noteq> [] \<and> pol_AllowedPathPrefixes (rs_policy h) \<noteq> [] \<and>
       list_all (\<lambda>p. HasPrefix p ''/'') (pol_AllowedPathPrefixes (rs_policy h)) \<and>
       0 < pol_MaxConcurrentStreams (rs_policy h) \<and> 0 < pol_MaxRequestBytes (rs_policy h) \<and>
       0 \<le> sint (pol_MaxStreamDuration (rs_policy h)) \<and> 0 \<le> pol_MaxStreamsPerCert (rs_policy h) \<and>
       ClientAuth (rs_tls h) = RequireAndVerifyClientCert \<and> MinVersion (rs_tls h) = VersionTLS12 \<and>
       VerifyConnection (rs_tls h) = verifyNotRevoked (rs_denylist h) \<and>
       srv_TLSConfig (rs_server h) = Some (rs_tls h) \<and>
       0 < sint (srv_ReadHeaderTimeout (rs_server h)) \<and> 0 < sint (srv_IdleTimeout (rs_server h)) \<and>
       rs_start h = rem (sh (system_start (rs_policy h) (rs_denylist h))) \<and>
       rs_handler h hs r = (Set_header RemoteVersionHeader (Version sur) hs, dispatch (rs_policy h) r)
   | Inr (ServeLocal h) \<Rightarrow>
       (\<exists>u mn mx. ls_client h = NewLocalClient u (NewBackoff mn mx) \<and> 0 < sint mn \<and> sint mn \<le> sint mx) \<and>
       fst (ls_handler h hs r) = Set_header LocalVersionHeader (Version sur) hs \<and>
       0 < sint (srv_ReadHeaderTimeout (ls_server h)) \<and> 0 < sint (srv_IdleTimeout (ls_server h))"
proof (cases "start sur")
  case (Inr service)
  show ?thesis
  proof (cases service)
    case (ServeRemote h)
    with Inr show ?thesis using started_remote [of sur h] by (simp add: default_deny_def)
  next
    case (ServeLocal h)
    from Inr [unfolded ServeLocal] obtain mn mx u where
      "ls_client h = NewLocalClient u (NewBackoff mn mx)" "0 < sint mn" "sint mn \<le> sint mx"
      "0 < sint (srv_ReadHeaderTimeout (ls_server h))" "0 < sint (srv_IdleTimeout (ls_server h))"
      "fst (ls_handler h hs r) = Set_header LocalVersionHeader (Version sur) hs"
      by (rule started_local) blast
    then show ?thesis using Inr ServeLocal by auto
  qed
qed simp

text \<open>
  Without \<open>--config\<close> the remote half never starts, whatever the other flags: the built-in
  defaults hold an empty allowlist, which the default-deny check refuses even when the tunnel name
  is pinned on the command line. (A comment in \<open>config.go\<close> calls the empty allowlist and the
  missing file valid defaults.)
\<close>

theorem remote_never_starts_without_config:
  assumes "parseFlags (args sur) = Inr f" and "\<not> isLocal f" and "configPath f = []"
  shows "(\<exists>err. start sur = Inl (PolicyError err)) \<and>
    LoadConfig (float_part sur) (ReadFile (crypto sur)) (configPath f) = Inr DefaultConfig"
  using assms
  by (auto simp: start_def LoadConfig_def run_remote_def requireRemotePolicy_def remote_policy_def Let_def)
    (auto simp: DefaultConfig_def)

theorem remote_never_starts_without_config_witness:
  "\<exists>err. start (sample_surroundings without_config) = Inl (PolicyError err)"
  using remote_never_starts_without_config [of "sample_surroundings without_config" "sample_flags []"]
    sample_flags_parsed(2) by (simp add: sample_surroundings_def sample_flags_def)

text \<open>The codes \<open>flag.Parse\<close> exits with, and where a start can fail with one.\<close>

lemma parse_args_step:
  assumes "parse_args (s # as) vals = Inl code"
  shows "code = 0 \<or> code = 2 \<or> (\<exists>bs vals'. length bs < length (s # as) \<and> parse_args bs vals' = Inl code)"
  using assms [unfolded parse_args.simps]
  by (auto split: if_split_asm option.split_asm prod.split_asm flag_kind.split_asm list.split_asm)

lemma parse_args_codes: "parse_args as vals = Inl code \<Longrightarrow> code = 0 \<or> code = 2"
proof (induction "length as" arbitrary: as vals rule: less_induct)
  case less
  show ?case
  proof (cases as)
    case (Cons s bs)
    then show ?thesis using parse_args_step [of s bs vals code] less by blast
  qed (use less in simp)
qed

lemma halves_no_exit: "run_local sur f cfg \<noteq> Inl (Exit code)" "run_remote sur f cfg \<noteq> Inl (Exit code)"
  by (simp_all add: run_local_def run_remote_def Let_def split: sum.split option.split)

lemma start_exit: "start sur = Inl (Exit code) \<longleftrightarrow> parseFlags (args sur) = Inl (Exit code)"
proof (cases "parseFlags (args sur)")
  case (Inr f)
  then show ?thesis using halves_no_exit [of sur f _ code]
    by (cases "LoadConfig (float_part sur) (ReadFile (crypto sur)) (configPath f)") (auto simp: start_def)
qed (simp add: start_def)

lemma parseFlags_exit: "parseFlags as = Inl (Exit code) \<Longrightarrow> code = 0 \<or> code = 2"
  using parse_args_codes by (auto simp: parseFlags_def Let_def split: sum.splits if_splits)

text \<open>
  C36. The exit status: 0 exactly for a request for help, for a local half whose loop has returned
  (which it only does when it is told to stop) and for a remote half whose server was shut down;
  2 only for a bad command line, 1 for everything else; and no status at all only while a half
  serves.
\<close>

theorem clean_stop_exits_zero:
  "(main_exit sur rds listened = Some 0 \<longleftrightarrow>
      parseFlags (args sur) = Inl (Exit 0) \<or>
      (case start sur of
         Inl err \<Rightarrow> False
       | Inr (ServeLocal h) \<Rightarrow> fst (Run rds (ls_client h))
       | Inr (ServeRemote h) \<Rightarrow> listened = Some None \<or> listened = Some (Some ErrServerClosed))) \<and>
   (main_exit sur rds listened = Some 2 \<longleftrightarrow> parseFlags (args sur) = Inl (Exit 2)) \<and>
   (case main_exit sur rds listened of None \<Rightarrow> is_ok (start sur) | Some code \<Rightarrow> 0 \<le> code \<and> code \<le> 2)"
proof (cases "start sur")
  case (Inl err)
  have p: "parseFlags (args sur) = Inl (Exit code) \<longleftrightarrow> err = Exit code" for code
    using start_exit [of sur code] Inl by simp
  have run: "run sur rds listened = Some (Some (StartFailed err))" by (simp add: run_def Inl)
  show ?thesis
  proof (cases err)
    case (Exit code)
    then have "code = 0 \<or> code = 2" using p parseFlags_exit by blast
    then show ?thesis using Exit by (auto simp: main_exit_def run p Inl)
  qed (simp_all add: main_exit_def run p Inl)
next
  case (Inr service)
  have p: "parseFlags (args sur) \<noteq> Inl (Exit code)" for code using start_exit [of sur code] Inr by simp
  show ?thesis
    by (cases service) (auto simp: main_exit_def run_def Inr p listen_result_def split: option.splits)
qed

end
