(* ===== verification/Shutdown.thy ===== *)
theory Shutdown
  imports Startup
begin

text \<open>
  The end of the remote half (\<^verbatim>\<open>main.go\<close>): \<open>signal.NotifyContext\<close>, the goroutine that waits for it
  and calls \<open>Shutdown\<close>, and \<open>run\<close>, which waits for \<open>ListenAndServeTLS\<close> only. The concurrent remote
  half runs beside them until the process exits.
\<close>

section \<open>The process\<close>

text \<open>The goroutine: at \<open>\<^bold>\<leftarrow> ctx.Done()\<close>, in \<open>Shutdown\<close>, or after it (and whether it drained).\<close>

datatype watcher = AwaitingStop | InShutdown | ShutdownOver bool

text \<open>
  \<open>run\<close> on the remote side: in \<open>ListenAndServeTLS\<close>, back from it, after the deferred \<open>stop\<close>, and
  the process at its end.
\<close>

datatype main_at = Serving | Back serve_error | Stopped serve_error | Exited serve_error

record process =
  half :: system
  watcher :: watcher
  main_at :: main_at

definition cancel :: "system \<Rightarrow> system" where
  "cancel s = s\<lparr>sh := (sh s)\<lparr>stopping := True\<rparr>\<rparr>"

text \<open>
  A goroutine \<open>Shutdown\<close> does not wait for: its response is written, or its connection is one
  the websocket took over.
\<close>

fun invisible :: "proc \<Rightarrow> bool" where
  "invisible (Answered rep) = True"
| "invisible TunnelDone = True"
| "invisible (TAccepted r sess) = True"
| "invisible (TSwapped r sess old) = True"
| "invisible (TServing r sess) = True"
| "invisible (TWoken r sess c) = True"
| "invisible _ = False"

definition process_start :: "RemoteProxyPolicy \<Rightarrow> RevocationList option \<Rightarrow> process" where
  "process_start pol rl = \<lparr>half = system_start pol rl, watcher = AwaitingStop, main_at = Serving\<rparr>"

definition running :: "process \<Rightarrow> bool" where
  "running p = (case main_at p of Exited err \<Rightarrow> False | _ \<Rightarrow> True)"

text \<open>
  As \<^verbatim>\<open>net/http\<close> documents it: once \<open>Shutdown\<close> is called, \<open>ListenAndServeTLS\<close> returns
  \<open>ErrServerClosed\<close> at once, while \<open>Shutdown\<close> returns when no connection is active or its own
  context, here of five seconds, is over. The listener may fail by itself at any time.
\<close>

inductive process_step :: "proxy_env \<Rightarrow> RemoteProxyPolicy \<Rightarrow> process \<Rightarrow> process \<Rightarrow> bool"
  for env pol where
  serves: "running p \<Longrightarrow> sys_step env pol (half p) s \<Longrightarrow> process_step env pol p (p\<lparr>half := s\<rparr>)"
| stop_seen: "running p \<Longrightarrow> watcher p = AwaitingStop \<Longrightarrow> stopping (sh (half p)) \<Longrightarrow>
    process_step env pol p (p\<lparr>watcher := InShutdown\<rparr>)"
| drained: "running p \<Longrightarrow> watcher p = InShutdown \<Longrightarrow> list_all invisible (procs (half p)) \<Longrightarrow>
    process_step env pol p (p\<lparr>watcher := ShutdownOver True\<rparr>)"
| grace_over: "running p \<Longrightarrow> watcher p = InShutdown \<Longrightarrow>
    process_step env pol p (p\<lparr>watcher := ShutdownOver False\<rparr>)"
| server_closed: "main_at p = Serving \<Longrightarrow> watcher p \<noteq> AwaitingStop \<Longrightarrow>
    process_step env pol p (p\<lparr>main_at := Back ErrServerClosed\<rparr>)"
| listener_fails: "main_at p = Serving \<Longrightarrow> process_step env pol p (p\<lparr>main_at := Back (ServeError e)\<rparr>)"
| deferred_stop: "main_at p = Back err \<Longrightarrow>
    process_step env pol p (p\<lparr>half := cancel (half p), main_at := Stopped err\<rparr>)"
| exits: "main_at p = Stopped err \<Longrightarrow> process_step env pol p (p\<lparr>main_at := Exited err\<rparr>)"

inductive_cases process_stepE: "process_step env pol p q"

definition process_reachable ::
  "proxy_env \<Rightarrow> RemoteProxyPolicy \<Rightarrow> RevocationList option \<Rightarrow> process \<Rightarrow> bool"
where
  "process_reachable env pol rl p \<longleftrightarrow> (process_step env pol)\<^sup>*\<^sup>* (process_start pol rl) p"

text \<open>What \<open>run\<close> was given by \<open>ListenAndServeTLS\<close>, once the process is over.\<close>

definition listened :: "process \<Rightarrow> serve_error option option" where
  "listened p = (case main_at p of Exited err \<Rightarrow> Some (Some err) | _ \<Rightarrow> None)"

lemma running_simps [simp]:
  "main_at p = Serving \<Longrightarrow> running p" "main_at p = Back err \<Longrightarrow> running p" "main_at p = Stopped err \<Longrightarrow> running p"
  by (simp_all add: running_def)

section \<open>The remote half inside the process\<close>

text \<open>The deferred \<open>stop\<close> is one more way for the context to end.\<close>

lemma cancel_step: "sys_step env pol s (cancel s)"
  unfolding cancel_def by (rule told_to_stop)

lemma half_reachable_step:
  "process_step env pol p q \<Longrightarrow> reachable env pol rl (half p) \<Longrightarrow> reachable env pol rl (half q)"
  by (erule process_stepE) (auto simp: reachable_def intro: rtranclp.rtrancl_into_rtrancl cancel_step)

lemma process_half: "process_reachable env pol rl p \<Longrightarrow> reachable env pol rl (half p)"
  unfolding process_reachable_def
  by (induction rule: rtranclp_induct)
    (simp_all add: half_reachable_step, simp add: process_start_def reachable_def)

lemma serve_only:
  assumes "reachable env pol rl s"
  shows "process_reachable env pol rl \<lparr>half = s, watcher = AwaitingStop, main_at = Serving\<rparr>"
  using assms
proof (induction rule: reachable_induct)
  case start
  then show ?case by (simp add: process_reachable_def process_start_def)
next
  case (step s t)
  have "process_step env pol \<lparr>half = s, watcher = AwaitingStop, main_at = Serving\<rparr>
      \<lparr>half = t, watcher = AwaitingStop, main_at = Serving\<rparr>"
    using serves [of "\<lparr>half = s, watcher = AwaitingStop, main_at = Serving\<rparr>" env pol t] step(2) by simp
  with step(1) show ?case unfolding process_reachable_def by (rule rtranclp.rtrancl_into_rtrancl)
qed

section \<open>When the server was closed\<close>

text \<open>\<open>ErrServerClosed\<close> comes from a \<open>Shutdown\<close>, and that from a cancelled context.\<close>

definition stop_inv :: "process \<Rightarrow> bool" where
  "stop_inv p \<longleftrightarrow>
     (watcher p \<noteq> AwaitingStop \<longrightarrow> stopping (sh (half p))) \<and>
     (main_at p \<in> {Back ErrServerClosed, Stopped ErrServerClosed, Exited ErrServerClosed} \<longrightarrow>
        watcher p \<noteq> AwaitingStop)"

lemma act_keeps_stopping: "act env pol p g (p', g') \<Longrightarrow> stopping g' = stopping g"
  by (erule actE) (auto simp: settle_def split: sum.splits)

lemma sys_keeps_stopping: "sys_step env pol s t \<Longrightarrow> stopping (sh s) \<Longrightarrow> stopping (sh t)"
  by (erule sys_stepE) (auto dest: act_keeps_stopping)

lemma stop_inv_step: "process_step env pol p q \<Longrightarrow> stop_inv p \<Longrightarrow> stop_inv q"
  by (erule process_stepE) (auto simp: stop_inv_def cancel_def dest: sys_keeps_stopping)

lemma process_stop_inv: "process_reachable env pol rl p \<Longrightarrow> stop_inv p"
  unfolding process_reachable_def
  by (induction rule: rtranclp_induct) (blast intro: stop_inv_step | simp add: process_start_def stop_inv_def)+

section \<open>Leaving at once\<close>

lemma then_step: "r\<^sup>*\<^sup>* a b \<Longrightarrow> r b c \<Longrightarrow> r\<^sup>*\<^sup>* a c"
  by (rule rtranclp.rtrancl_into_rtrancl)

lemma closes_at_once:
  assumes "main_at p = Serving" and "watcher p \<noteq> AwaitingStop"
  shows "(process_step env pol)\<^sup>*\<^sup>* p
    \<lparr>half = cancel (half p), watcher = watcher p, main_at = Exited ErrServerClosed\<rparr>"
proof -
  let ?at = "\<lambda>m. p\<lparr>main_at := m\<rparr>" and ?done = "\<lambda>m. p\<lparr>half := cancel (half p), main_at := m\<rparr>"
  have "process_step env pol p (?at (Back ErrServerClosed))" by (rule server_closed [OF assms])
  moreover have "process_step env pol (?at (Back ErrServerClosed)) (?done (Stopped ErrServerClosed))"
    using deferred_stop [of "?at (Back ErrServerClosed)" ErrServerClosed env pol] by simp
  moreover have "process_step env pol (?done (Stopped ErrServerClosed)) (?done (Exited ErrServerClosed))"
    using exits [of "?done (Stopped ErrServerClosed)" ErrServerClosed env pol] by simp
  moreover have "?done (Exited ErrServerClosed) =
      \<lparr>half = cancel (half p), watcher = watcher p, main_at = Exited ErrServerClosed\<rparr>" by (cases p) simp
  ultimately show ?thesis by (metis rtranclp.rtrancl_refl then_step)
qed

lemma stop_is_seen:
  assumes "main_at p = Serving" and "stopping (sh (half p))"
  shows "\<exists>w. w \<noteq> AwaitingStop \<and> (watcher p = AwaitingStop \<longrightarrow> w = InShutdown) \<and>
    (watcher p \<noteq> AwaitingStop \<longrightarrow> w = watcher p) \<and> (process_step env pol)\<^sup>*\<^sup>* p (p\<lparr>watcher := w\<rparr>)"
proof (cases "watcher p = AwaitingStop")
  case True
  then show ?thesis using stop_seen [of p env pol] assms by (intro exI [of _ InShutdown]) auto
next
  case False
  moreover have "p\<lparr>watcher := watcher p\<rparr> = p" by (cases p) simp
  ultimately show ?thesis by (intro exI [of _ "watcher p"]) simp
qed

text \<open>A stop is enough to end the process, with every goroutine and session where it is.\<close>

lemma stop_ends_process:
  assumes "main_at p = Serving" and "stopping (sh (half p))"
  shows "\<exists>w. (process_step env pol)\<^sup>*\<^sup>* p \<lparr>half = cancel (half p), watcher = w, main_at = Exited ErrServerClosed\<rparr> \<and>
    (watcher p = AwaitingStop \<longrightarrow> w = InShutdown)"
proof -
  obtain w where w: "w \<noteq> AwaitingStop" "watcher p = AwaitingStop \<longrightarrow> w = InShutdown"
    and seen: "(process_step env pol)\<^sup>*\<^sup>* p (p\<lparr>watcher := w\<rparr>)"
    using stop_is_seen [OF assms] by metis
  have "(process_step env pol)\<^sup>*\<^sup>* (p\<lparr>watcher := w\<rparr>)
      \<lparr>half = cancel (half p), watcher = w, main_at = Exited ErrServerClosed\<rparr>"
    using closes_at_once [of "p\<lparr>watcher := w\<rparr>"] assms(1) w(1) by simp
  with seen w(2) show ?thesis by (metis rtranclp_trans)
qed

lemma exit_status:
  assumes "start sur = Inr (ServeRemote h)"
  shows "main_exit sur rds (listened p) =
    (case main_at p of Exited ErrServerClosed \<Rightarrow> Some 0 | Exited (ServeError e) \<Rightarrow> Some 1 | _ \<Rightarrow> None)"
  by (auto simp: main_exit_def run_def assms listened_def listen_result_def split: main_at.split serve_error.split)

lemma exit_zero_stopped:
  assumes "start sur = Inr (ServeRemote h)" and "process_reachable env pol rl p"
    and "main_exit sur rds (listened p) = Some 0"
  shows "watcher p \<noteq> AwaitingStop \<and> stopping (sh (half p))"
  using process_stop_inv [OF assms(2)] assms(3) unfolding exit_status [OF assms(1)]
  by (auto simp: stop_inv_def split: main_at.splits serve_error.splits)

section \<open>Properties\<close>

text \<open>
  C37. The end of the remote process. It exits with status 0 only after its context was
  cancelled and \<open>Shutdown\<close> was called; until then, and at the exit, the remote half is in a state
  all its invariants hold of. But \<open>run\<close> does not wait for \<open>Shutdown\<close>: from every state of the
  remote half, whatever requests and tunnels are open, a stop can end the process with status 0
  while \<open>Shutdown\<close> has not returned and every goroutine and session is where it was, so the five
  seconds of grace need not be given to any request.
\<close>

theorem exit_does_not_wait_for_shutdown:
  assumes "start sur = Inr (ServeRemote h)"
  shows "(\<forall>p. process_reachable env (rs_policy h) (rs_denylist h) p \<longrightarrow>
      reachable env (rs_policy h) (rs_denylist h) (half p) \<and>
      (main_exit sur rds (listened p) = Some 0 \<longrightarrow> watcher p \<noteq> AwaitingStop \<and> stopping (sh (half p)))) \<and>
    (\<forall>s. reachable env (rs_policy h) (rs_denylist h) s \<longrightarrow>
      (\<exists>p. process_reachable env (rs_policy h) (rs_denylist h) p \<and>
        main_exit sur rds (listened p) = Some 0 \<and> watcher p = InShutdown \<and>
        procs (half p) = procs s \<and> rem (sh (half p)) = rem (sh s)))"
proof (intro conjI allI impI)
  fix s assume s: "reachable env (rs_policy h) (rs_denylist h) s"
  let ?p = "\<lparr>half = cancel s, watcher = AwaitingStop, main_at = Serving\<rparr>"
  have "reachable env (rs_policy h) (rs_denylist h) (cancel s)"
    using s cancel_step unfolding reachable_def by (rule then_step)
  then have "process_reachable env (rs_policy h) (rs_denylist h) ?p" by (rule serve_only)
  moreover have "(process_step env (rs_policy h))\<^sup>*\<^sup>* ?p
      \<lparr>half = cancel (cancel s), watcher = InShutdown, main_at = Exited ErrServerClosed\<rparr>"
    using stop_ends_process [of ?p] by (auto simp: cancel_def)
  ultimately have "process_reachable env (rs_policy h) (rs_denylist h)
      \<lparr>half = cancel (cancel s), watcher = InShutdown, main_at = Exited ErrServerClosed\<rparr>"
    unfolding process_reachable_def by (rule rtranclp_trans)
  then show "\<exists>p. process_reachable env (rs_policy h) (rs_denylist h) p \<and>
      main_exit sur rds (listened p) = Some 0 \<and> watcher p = InShutdown \<and>
      procs (half p) = procs s \<and> rem (sh (half p)) = rem (sh s)"
    unfolding exit_status [OF assms] by (intro exI conjI, assumption) (simp_all add: cancel_def)
qed (use process_half exit_zero_stopped [OF assms] in blast)+

theorem exit_does_not_wait_for_shutdown_witness:
  "\<exists>h p. start (sample_surroundings with_config) = Inr (ServeRemote h) \<and>
    process_reachable quiet_env (rs_policy h) (rs_denylist h) p \<and>
    main_exit (sample_surroundings with_config) [] (listened p) = Some 0 \<and> watcher p = InShutdown \<and>
    procs (half p) = [DForwarding (phone_request ''/api'') phone_cert]"
proof -
  obtain h where h: "start (sample_surroundings with_config) = Inr (ServeRemote h)"
    "rs_policy h = api_policy" "rs_denylist h = None" using sample_starts by blast
  have s: "reachable quiet_env (rs_policy h) (rs_denylist h) one_forward" using one_forward_reachable h by simp
  have "procs one_forward = [DForwarding (phone_request ''/api'') phone_cert]" by (simp add: one_forward_def)
  with exit_does_not_wait_for_shutdown [OF h(1), THEN conjunct2, rule_format, OF s, of "[]"] h(1)
  show ?thesis by auto
qed

end
