(* ===== verification/Wire_Path.thy ===== *)
theory Wire_Path
  imports Local_Client Remote_Proxy
begin

text \<open>
  Paths as they travel. Both halves judge \<open>URL.Path\<close>, which \<^verbatim>\<open>net/url\<close> has percent-decoded, and
  both send requests on with \<open>SetURL\<close>, which keeps the encoding the device chose where it can.
  This theory models the encoded form of a path in \<^verbatim>\<open>net/url\<close> and what \<^verbatim>\<open>httputil\<close>'s \<open>SetURL\<close> does
  with it, and shows that the decoded paths of the rest of the development are what arrives.
\<close>

section \<open>Percent encoding of a path\<close>

definition alphanumeric :: "char \<Rightarrow> bool" where
  "alphanumeric c =
     (let n = (of_char c :: nat)
      in 97 \<le> n \<and> n \<le> 122 \<or> 65 \<le> n \<and> n \<le> 90 \<or> 48 \<le> n \<and> n \<le> 57)"

definition shouldEscape :: "char \<Rightarrow> bool" where
  "shouldEscape c \<longleftrightarrow> \<not> alphanumeric c \<and> c \<notin> set ''-_.~'' \<and> c \<notin> set ''$&+,/:;=@''"

definition upper_hex :: "nat \<Rightarrow> char" where
  "upper_hex d = char_of (if d < 10 then 48 + d else 55 + d)"

definition escape_char :: "char \<Rightarrow> string" where
  "escape_char c =
     (if shouldEscape c then [CHR ''%'', upper_hex (of_char c div 16), upper_hex (of_char c mod 16)] else [c])"

definition escape :: "string \<Rightarrow> string" where
  "escape s = concat (map escape_char s)"

fun unescape :: "string \<Rightarrow> string option" where
  "unescape [] = Some []"
| "unescape (c # s) =
     (if c = CHR ''%'' then
        (case s of
           a # b # t \<Rightarrow>
             (case (hex_val a, hex_val b) of
                (Some x, Some y) \<Rightarrow> map_option ((#) (char_of (16 * x + y))) (unescape t)
              | _ \<Rightarrow> None)
         | _ \<Rightarrow> None)
      else map_option ((#) c) (unescape s))"

definition valid_char :: "char \<Rightarrow> bool" where
  "valid_char c \<longleftrightarrow> c \<in> set (CHR 0x27 # ''!$&()*+,;=:@[]%'') \<or> \<not> shouldEscape c"

definition validEncoded :: "string \<Rightarrow> bool" where
  "validEncoded s = list_all valid_char s"

text \<open>The two fields of \<open>url.URL\<close> that hold a path.\<close>

record wire_path =
  Path :: string
  RawPath :: string

definition setPath :: "string \<Rightarrow> wire_path option" where
  "setPath p =
     map_option (\<lambda>path. \<lparr>Path = path, RawPath = (if p = escape path then [] else p)\<rparr>) (unescape p)"

definition EscapedPath :: "wire_path \<Rightarrow> string" where
  "EscapedPath u =
     (if RawPath u \<noteq> [] \<and> validEncoded (RawPath u) \<and> unescape (RawPath u) = Some (Path u) then RawPath u
      else if Path u = ''*'' then ''*''
      else escape (Path u))"

text \<open>\<open>SetURL\<close>: the path of the target joined with the request's, decoded and encoded.\<close>

definition joinURLPath :: "wire_path \<Rightarrow> wire_path \<Rightarrow> wire_path" where
  "joinURLPath a b =
     (if RawPath a = [] \<and> RawPath b = [] then \<lparr>Path = singleJoiningSlash (Path a) (Path b), RawPath = []\<rparr>
      else
        (let apath = EscapedPath a; bpath = EscapedPath b;
             aslash = HasSuffix apath ''/''; bslash = HasPrefix bpath ''/''
         in if aslash \<and> bslash then \<lparr>Path = Path a @ tl (Path b), RawPath = apath @ tl bpath\<rparr>
            else if \<not> aslash \<and> \<not> bslash then
              \<lparr>Path = Path a @ ''/'' @ Path b, RawPath = apath @ ''/'' @ bpath\<rparr>
            else \<lparr>Path = Path a @ Path b, RawPath = apath @ bpath\<rparr>))"

text \<open>The target of the request line, and the path the server at the other end reads from it.\<close>

definition RequestURI :: "wire_path \<Rightarrow> string \<Rightarrow> string" where
  "RequestURI u query =
     (if EscapedPath u = [] then ''/'' else EscapedPath u) @ (if query = [] then [] else CHR ''?'' # query)"

definition wire_text :: "string \<Rightarrow> string" where
  "wire_text target = takeWhile (\<lambda>c. c \<noteq> CHR ''?'') target"

definition read_target :: "string \<Rightarrow> wire_path option" where
  "read_target target = setPath (wire_text target)"

section \<open>Decoding inverts encoding\<close>

lemma upper_hex:
  assumes "d < 16"
  shows "hex_val (upper_hex d) = Some d" and "alphanumeric (upper_hex d)"
  using assms by (simp_all add: hex_val_def upper_hex_def alphanumeric_def Let_def)

lemma high_digit: "of_char c div (16::nat) < 16"
  using nat_of_char_less_256 [of c] by (simp add: less_mult_imp_div_less)

lemma no_escape_percent: "shouldEscape (CHR ''%'')"
  by code_simp

lemma unescape_escape_char: "unescape (escape_char c @ s) = map_option ((#) c) (unescape s)"
proof (cases "shouldEscape c")
  case True
  then show ?thesis by (simp add: escape_char_def upper_hex high_digit)
next
  case False
  then have "c \<noteq> CHR ''%''" using no_escape_percent by auto
  then show ?thesis using False by (simp add: escape_char_def)
qed

lemma unescape_escape: "unescape (escape s) = Some s"
  by (induction s) (simp_all add: escape_def unescape_escape_char)

lemma unescape_append: "unescape x = Some a \<Longrightarrow> unescape (x @ y) = map_option ((@) a) (unescape y)"
proof (induction x arbitrary: a rule: unescape.induct)
  case 1
  then show ?case by (cases "unescape y") simp_all
next
  case (2 c s)
  then show ?case
    by (cases "unescape y")
      (auto split: if_splits list.splits option.splits prod.splits simp: map_option_case)
qed

lemma alphanumeric_valid: "alphanumeric c \<Longrightarrow> valid_char c"
  by (simp add: valid_char_def shouldEscape_def)

lemma escape_valid: "validEncoded (escape s)"
proof -
  have "list_all valid_char (escape_char c)" for c
  proof (cases "shouldEscape c")
    case True
    then show ?thesis
      by (simp add: escape_char_def upper_hex alphanumeric_valid high_digit) (simp add: valid_char_def)
  qed (simp add: escape_char_def valid_char_def)
  then show ?thesis by (induction s) (simp_all add: escape_def validEncoded_def)
qed

text \<open>Whatever the two fields hold, what is sent decodes to \<open>Path\<close> and is validly encoded.\<close>

lemma EscapedPath_decodes: "unescape (EscapedPath u) = Some (Path u)"
  by (simp add: EscapedPath_def unescape_escape)

lemma EscapedPath_valid: "validEncoded (EscapedPath u)"
  using escape_valid by (simp add: EscapedPath_def) (simp add: validEncoded_def valid_char_def)

text \<open>Characters that cannot end the path or the request line.\<close>

definition wire_char :: "char \<Rightarrow> bool" where
  "wire_char c \<longleftrightarrow> 33 \<le> (of_char c :: nat) \<and> (of_char c :: nat) < 127 \<and> c \<noteq> CHR ''?'' \<and> c \<noteq> CHR ''#''"

lemma valid_chars: "valid_char c \<Longrightarrow> wire_char c"
  by (auto simp: valid_char_def shouldEscape_def alphanumeric_def wire_char_def Let_def)

lemma EscapedPath_chars: "list_all wire_char (EscapedPath u)"
  using EscapedPath_valid [of u] valid_chars by (auto simp: validEncoded_def list_all_iff)

lemma wire_text_RequestURI:
  assumes "EscapedPath u \<noteq> []"
  shows "wire_text (RequestURI u query) = EscapedPath u"
proof -
  have "\<forall>c\<in>set (EscapedPath u). c \<noteq> CHR ''?''"
    using EscapedPath_chars [of u] by (auto simp: list_all_iff wire_char_def)
  then show ?thesis using assms by (simp add: wire_text_def RequestURI_def takeWhile_append2 takeWhile_eq_all_conv)
qed

lemma read_back:
  assumes "EscapedPath u \<noteq> []"
  shows "\<exists>v. read_target (RequestURI u query) = Some v \<and> Path v = Path u \<and> setPath (EscapedPath u) = Some v"
  using wire_text_RequestURI [OF assms] EscapedPath_decodes by (simp add: read_target_def setPath_def)

section \<open>Rooted paths stay rooted\<close>

lemma setPath_rooted:
  assumes "setPath p = Some u" and "HasPrefix p ''/''"
  shows "HasPrefix (Path u) ''/''" and "HasPrefix (EscapedPath u) ''/''"
proof -
  obtain s where p: "p = CHR ''/'' # s" using assms(2) by (cases p) (auto simp: HasPrefix_single)
  then show path: "HasPrefix (Path u) ''/''"
    using assms(1) by (auto simp: setPath_def HasPrefix_single)
  then obtain d where d: "Path u = CHR ''/'' # d" by (cases "Path u") (auto simp: HasPrefix_single)
  have "escape_char (CHR ''/'') = ''/''" by (simp add: escape_char_def shouldEscape_def)
  then have "HasPrefix (escape (Path u)) ''/''" by (simp add: d escape_def HasPrefix_single)
  moreover have "RawPath u = [] \<or> RawPath u = p" using assms(1) by (auto simp: setPath_def)
  ultimately show "HasPrefix (EscapedPath u) ''/''"
    using assms(2) d by (auto simp: EscapedPath_def)
qed

lemma rooted_not_Nil: "HasPrefix p ''/'' \<Longrightarrow> p \<noteq> []"
  by (simp add: HasPrefix_single)

lemma escape_char_last: "last (escape_char c) = CHR ''/'' \<longleftrightarrow> c = CHR ''/''"
proof (cases "shouldEscape c")
  case True
  have "upper_hex (of_char c mod 16) \<noteq> CHR ''/''"
    using upper_hex(2) [of "of_char c mod 16"] by (auto simp: alphanumeric_def)
  moreover have "c \<noteq> CHR ''/''" using True by (auto simp: shouldEscape_def)
  ultimately show ?thesis using True by (simp add: escape_char_def)
qed (simp add: escape_char_def)

lemma escape_slash: "HasSuffix (escape s) ''/'' \<longleftrightarrow> HasSuffix s ''/''"
proof (cases s rule: rev_cases)
  case (snoc t c)
  have "escape_char c \<noteq> []" by (simp add: escape_char_def)
  then show ?thesis by (simp add: snoc escape_def HasSuffix_single escape_char_last)
qed (simp add: escape_def)

text \<open>
  For a target whose own path needs no other encoding, as \<^verbatim>\<open>url.Parse\<close> leaves \<open>RawPath\<close> empty, the
  joined path is the one the handlers' models compute on the decoded paths.
\<close>

lemma join_path:
  assumes "RawPath a = []" and "HasPrefix (Path b) ''/''" and "HasPrefix (EscapedPath b) ''/''"
  shows "Path (joinURLPath a b) = singleJoiningSlash (Path a) (Path b)"
proof -
  have "HasSuffix (EscapedPath a) ''/'' \<longleftrightarrow> HasSuffix (Path a) ''/''"
    using assms(1) by (simp add: EscapedPath_def escape_slash)
  then show ?thesis using assms by (simp add: joinURLPath_def Let_def singleJoiningSlash_def)
qed

lemma joined_not_Nil: "HasPrefix q ''/'' \<Longrightarrow> singleJoiningSlash d q \<noteq> []"
  by (auto simp: singleJoiningSlash_def HasSuffix_single HasPrefix_single)

lemma escaped_not_Nil: "Path u \<noteq> [] \<Longrightarrow> EscapedPath u \<noteq> []"
  using EscapedPath_decodes [of u] by auto

section \<open>Segments of the encoded text\<close>

lemma segments_split: "segments (a @ CHR ''/'' # b) = segments a @ segments b"
proof (induction a rule: segments.induct)
  case (2 c cs)
  show ?case
  proof (cases "c = CHR ''/''")
    case False
    then show ?thesis
    proof (cases "CHR ''/'' \<in> set cs")
      case True
      then show ?thesis using 2(2) False by (simp add: takeWhile_append1 dropWhile_append1)
    next
      case no: False
      then have s: "clean_seg (c # cs)" using False by (simp add: clean_seg_def)
      show ?thesis using segments_append_slash [OF s, of b] segments_single [OF s] by (simp only: append_Cons append_Nil)
    qed
  qed (use 2 in simp)
qed simp

lemma slash_not_hex: "hex_val (CHR ''/'') = None"
  by (simp add: hex_val_def)

lemma unescape_percent:
  "unescape (CHR ''%'' # s) = Some d \<longleftrightarrow>
   (\<exists>a b t x y e. s = a # b # t \<and> hex_val a = Some x \<and> hex_val b = Some y \<and> unescape t = Some e \<and>
     d = char_of (16 * x + y) # e)"
  by (auto split: list.splits option.splits)

lemma unescape_split:
  "unescape (a @ CHR ''/'' # b) = Some d \<Longrightarrow>
   \<exists>e f. unescape a = Some e \<and> unescape b = Some f \<and> d = e @ CHR ''/'' # f"
proof (induction "length a" arbitrary: a d rule: less_induct)
  case less
  show ?case
  proof (cases a)
    case Nil
    then show ?thesis using less(2) by auto
  next
    case (Cons c s)
    show ?thesis
    proof (cases "c = CHR ''%''")
      case True
      then obtain x y t u v e where s: "s @ CHR ''/'' # b = x # y # t" "hex_val x = Some u" "hex_val y = Some v"
        "unescape t = Some e" "d = char_of (16 * u + v) # e"
        using less(2) Cons by (auto simp: unescape_percent simp del: unescape.simps)
      then obtain s' where s': "s = x # y # s'" "t = s' @ CHR ''/'' # b"
        by (cases s rule: remdups_adj.cases) (auto simp: slash_not_hex)
      then obtain g f where "unescape s' = Some g" "unescape b = Some f" "e = g @ CHR ''/'' # f"
        using less(1) [of s' e] Cons s(4) by auto
      then show ?thesis using Cons True s s' by auto
    next
      case False
      then show ?thesis using less(1) [of s] less(2) Cons by fastforce
    qed
  qed
qed

lemma segments_decode:
  assumes "unescape t = Some d" and "s \<in> set (segments t)"
  shows "\<exists>e. unescape s = Some e \<and> set (segments e) \<subseteq> set (segments d)"
  using assms
proof (induction t arbitrary: d rule: segments.induct)
  case (2 c cs)
  show ?case
  proof (cases "c = CHR ''/''")
    case True
    with 2 show ?thesis by auto
  next
    case False
    let ?s = "takeWhile (\<lambda>x. x \<noteq> CHR ''/'') (c # cs)" and ?r = "dropWhile (\<lambda>x. x \<noteq> CHR ''/'') (c # cs)"
    have t: "c # cs = ?s @ ?r" by (simp only: takeWhile_dropWhile_id)
    have "segments (c # cs) = ?s # segments ?r" using False by (simp only: segments.simps if_False)
    then have s: "s = ?s \<or> s \<in> set (segments ?r)" using 2(4) by (metis set_ConsD)
    show ?thesis
    proof (cases ?r)
      case Nil
      then have "?s = c # cs" using t by (metis append_Nil2)
      moreover have "s = ?s" using s Nil by (metis empty_iff empty_set segments.simps(1))
      ultimately show ?thesis using 2(3) by (metis order_refl)
    next
      case (Cons x y)
      then have x: "x = CHR ''/''" by (metis (mono_tags, lifting) hd_dropWhile list.distinct(1) list.sel(1))
      then obtain e f where d: "unescape ?s = Some e" "unescape y = Some f" "d = e @ CHR ''/'' # f"
        using unescape_split [of ?s y d] 2(3) t Cons by metis
      have "unescape ?r = Some (CHR ''/'' # f)" using Cons x d(2) by simp
      then have "\<exists>e. unescape s = Some e \<and> set (segments e) \<subseteq> set (segments (CHR ''/'' # f))" if "s \<in> set (segments ?r)"
        using 2(2) [OF False _ that] by blast
      then show ?thesis using s d by (auto simp: segments_split)
    qed
  qed
qed simp

lemma segments_singleJoiningSlash:
  assumes "HasPrefix q ''/''"
  shows "segments (singleJoiningSlash a q) = segments a @ segments q"
proof -
  obtain s where q: "q = CHR ''/'' # s" using assms by (cases q) (auto simp: HasPrefix_single)
  show ?thesis
  proof (cases "HasSuffix a ''/''")
    case True
    then obtain b where "a = b @ ''/''" by (cases a rule: rev_cases) (auto simp: HasSuffix_single)
    then show ?thesis using assms True q by (simp add: singleJoiningSlash_def segments_split)
  next
    case False
    then show ?thesis using assms q by (simp add: singleJoiningSlash_def segments_split)
  qed
qed

text \<open>The segments that a server resolves instead of naming an entry, in any encoding.\<close>

definition dot_segment :: "string \<Rightarrow> bool" where
  "dot_segment e \<longleftrightarrow> e = ''.'' \<or> e = ''..''"

lemma dot_segment_decoded:
  assumes "unescape t = Some d" and "s \<in> set (segments t)"
  shows "\<exists>e. unescape s = Some e \<and> (dot_segment e \<longrightarrow> e \<in> set (segments d))"
proof -
  obtain e where e: "unescape s = Some e" "set (segments e) \<subseteq> set (segments d)"
    using segments_decode [OF assms] by blast
  have "clean_seg ''.''" "clean_seg ''..''" by (simp_all add: clean_seg_def)
  then have "dot_segment e \<Longrightarrow> segments e = [e]" using segments_single by (auto simp: dot_segment_def)
  with e show ?thesis by auto
qed

lemma normalized_no_dots:
  assumes "pathIsNormalized q" and "HasPrefix q ''/''" and "dot_segment e"
  shows "e \<notin> set (segments q)"
proof -
  obtain s where q: "q = CHR ''/'' # s" using assms(2) by (cases q) (auto simp: HasPrefix_single)
  then obtain ss where ss: "s = join_slash ss" "\<forall>x\<in>set ss. plain_seg x"
    using assms(1) normalized_rooted_iff by auto
  then have "segments q = ss" using q segments_join [of ss] by (simp add: plain_seg_def)
  then show ?thesis using ss(2) assms(3) by (auto simp: plain_seg_def dot_segment_def)
qed

section \<open>Through both halves\<close>

text \<open>
  A forwarded request as the home half's server receives it from the tunnel stream: the path,
  host and body bound of the request the remote half sent on.
\<close>

definition at_home :: "outgoing \<Rightarrow> request" where
  "at_home out =
     \<lparr>URL_Path = out_Path out, req_Host = out_Host out, req_TLS = None, body_cap = out_body_cap out,
      timeout = out_timeout out\<rparr>"

lemma at_home_path:
  "HasPrefix (URL_Path r) ''/'' \<Longrightarrow> URL_Path (at_home (remote_Rewrite (bounded_request pol r))) = URL_Path r"
  by (simp add: at_home_def remote_Rewrite_def bounded_request_def joined_rooted Let_def)

text \<open>What \<open>SetURL\<close> of either half puts on the wire, with any query.\<close>

definition sent_by_remote :: "wire_path \<Rightarrow> string \<Rightarrow> string" where
  "sent_by_remote u query = RequestURI (joinURLPath \<lparr>Path = [], RawPath = []\<rparr> u) query"

definition sent_by_home :: "url \<Rightarrow> wire_path \<Rightarrow> string \<Rightarrow> string" where
  "sent_by_home target u query = RequestURI (joinURLPath \<lparr>Path = url_Path target, RawPath = []\<rparr> u) query"

text \<open>One hop, for a target of either half.\<close>

lemma one_hop:
  assumes p: "setPath p = Some u" "HasPrefix p ''/''"
    and out: "out = joinURLPath \<lparr>Path = base, RawPath = []\<rparr> u"
  shows "\<exists>v. read_target (RequestURI out query) = Some v \<and> Path v = singleJoiningSlash base (Path u) \<and>
      setPath (EscapedPath out) = Some v"
    and "list_all wire_char (wire_text (RequestURI out query))"
    and "\<forall>s\<in>set (segments (wire_text (RequestURI out query))). \<exists>e. unescape s = Some e \<and>
      (dot_segment e \<longrightarrow> e \<in> set (segments base) \<or> e \<in> set (segments (Path u)))"
proof -
  note root = setPath_rooted [OF p]
  have path: "Path out = singleJoiningSlash base (Path u)" using out join_path root by simp
  then have ne: "EscapedPath out \<noteq> []" using joined_not_Nil [OF root(1)] by (intro escaped_not_Nil) simp
  show "\<exists>v. read_target (RequestURI out query) = Some v \<and> Path v = singleJoiningSlash base (Path u) \<and>
      setPath (EscapedPath out) = Some v"
    using read_back [OF ne] path by simp
  show "list_all wire_char (wire_text (RequestURI out query))"
    using EscapedPath_chars wire_text_RequestURI [OF ne] by simp
  show "\<forall>s\<in>set (segments (wire_text (RequestURI out query))). \<exists>e. unescape s = Some e \<and>
      (dot_segment e \<longrightarrow> e \<in> set (segments base) \<or> e \<in> set (segments (Path u)))"
    using dot_segment_decoded [OF EscapedPath_decodes [of out]] wire_text_RequestURI [OF ne]
    by (simp add: path segments_singleJoiningSlash [OF root(1)])
qed

lemma rooted_sent:
  assumes "setPath p = Some u" and "HasPrefix p ''/''"
  shows "HasPrefix (EscapedPath (joinURLPath \<lparr>Path = [], RawPath = []\<rparr> u)) ''/''"
proof -
  let ?out = "joinURLPath \<lparr>Path = [], RawPath = []\<rparr> u"
  note root = setPath_rooted [OF assms]
  have e: "EscapedPath \<lparr>Path = [], RawPath = []\<rparr> = []" by (simp add: EscapedPath_def escape_def)
  have "Path ?out = Path u" using join_path [OF _ root] joined_rooted [OF root(1)] by simp
  moreover have "RawPath ?out = [] \<or> RawPath ?out = EscapedPath u"
    using root by (simp add: joinURLPath_def e Let_def HasSuffix_single)
  moreover have "HasPrefix (escape (Path u)) ''/''"
    using setPath_rooted(2) [of "escape (Path u)" "\<lparr>Path = Path u, RawPath = []\<rparr>"] root(1)
    by (cases "Path u") (auto simp: HasPrefix_single escape_def escape_char_def shouldEscape_def)
  ultimately show ?thesis using root by (auto simp: EscapedPath_def HasPrefix_single)
qed

lemma EscapedPath_valid_text:
  assumes "setPath p = Some u" and "HasPrefix p ''/''" and "validEncoded p"
  shows "EscapedPath u = p"
proof -
  have d: "unescape p = Some (Path u)" and raw: "RawPath u = (if p = escape (Path u) then [] else p)"
    using assms(1) by (auto simp: setPath_def)
  have "Path u \<noteq> ''*''" using setPath_rooted(1) [OF assms(1,2)] by (auto simp: HasPrefix_single)
  with d raw show ?thesis using assms(3) rooted_not_Nil [OF assms(2)] by (simp add: EscapedPath_def)
qed

lemma valid_text_sent:
  assumes "setPath p = Some u" and "HasPrefix p ''/''" and "validEncoded p"
  shows "wire_text (RequestURI (joinURLPath \<lparr>Path = [], RawPath = []\<rparr> u) query) = p"
proof -
  let ?out = "joinURLPath \<lparr>Path = [], RawPath = []\<rparr> u"
  note root = setPath_rooted [OF assms(1,2)] and sent = EscapedPath_valid_text [OF assms]
  have e: "EscapedPath \<lparr>Path = [], RawPath = []\<rparr> = []" by (simp add: EscapedPath_def escape_def)
  have path: "Path ?out = Path u" using join_path [OF _ root] joined_rooted [OF root(1)] by simp
  have "?out = u \<or> RawPath ?out = p"
    using root joined_rooted [OF root(1)] sent by (simp add: joinURLPath_def e Let_def HasSuffix_single)
  moreover have "RawPath ?out = p \<Longrightarrow> EscapedPath ?out = p"
    using assms path rooted_not_Nil [OF assms(2)] EscapedPath_decodes [of u] sent by (simp add: EscapedPath_def)
  ultimately have "EscapedPath ?out = p" using sent by auto
  then show ?thesis using wire_text_RequestURI [of ?out] rooted_not_Nil [OF assms(2)] by simp
qed

section \<open>An encoded slash\<close>

text \<open>Text that needs no escape is its own encoding.\<close>

lemma unescape_unreserved: "list_all (\<lambda>c. \<not> shouldEscape c) s \<Longrightarrow> unescape s = Some s"
proof (induction s)
  case (Cons c s)
  then have "c \<noteq> CHR ''%''" using no_escape_percent by auto
  with Cons show ?case by simp
qed simp

lemma join_slash_last: "join_slash (ss @ [s]) @ t = join_slash (ss @ [s @ t])"
proof (induction ss)
  case (Cons a ss)
  then show ?case by (cases "ss @ [s]"; cases "ss @ [s @ t]") auto
qed simp

lemma join_slash_unreserved:
  "list_all (list_all (\<lambda>c. \<not> shouldEscape c)) ss \<Longrightarrow> list_all (\<lambda>c. \<not> shouldEscape c) (join_slash ss)"
  by (induction ss rule: join_slash.induct) (simp_all add: shouldEscape_def)

text \<open>How \<^verbatim>\<open>net/url\<close> reads a path whose last slash is encoded.\<close>

lemma encoded_slash_read:
  assumes "list_all (list_all (\<lambda>c. \<not> shouldEscape c)) (ss @ [s, x])"
  shows "\<exists>u. setPath (''/'' @ join_slash (ss @ [s]) @ ''%2F'' @ x) = Some u \<and> Path u = ''/'' @ join_slash (ss @ [s, x])"
    and "validEncoded (''/'' @ join_slash (ss @ [s]) @ ''%2F'' @ x)"
proof -
  let ?a = "''/'' @ join_slash (ss @ [s])"
  have a: "list_all (\<lambda>c. \<not> shouldEscape c) ?a" and x: "list_all (\<lambda>c. \<not> shouldEscape c) x"
    using assms join_slash_unreserved [of "ss @ [s]"] by (simp_all add: shouldEscape_def)
  have "hex_val (CHR ''2'') = Some 2" "hex_val (CHR ''F'') = Some 15" by (simp_all add: hex_val_def)
  moreover have "char_of (47 :: nat) = CHR ''/''" by code_simp
  ultimately have "unescape (''%2F'' @ x) = Some (''/'' @ x)" by (simp add: unescape_unreserved [OF x])
  then have "unescape (?a @ ''%2F'' @ x) = Some (?a @ ''/'' @ x)"
    by (simp only: unescape_append [OF unescape_unreserved [OF a]] option.map)
  moreover have "?a @ ''/'' @ x = ''/'' @ join_slash (ss @ [s, x])"
    using join_slash_append_lists [of "ss @ [s]" "[x]"] by simp
  ultimately show "\<exists>u. setPath (''/'' @ join_slash (ss @ [s]) @ ''%2F'' @ x) = Some u \<and>
      Path u = ''/'' @ join_slash (ss @ [s, x])" by (simp add: setPath_def)
  have "valid_char c" if "\<not> shouldEscape c" for c using that by (simp add: valid_char_def)
  then have "list_all valid_char ?a" "list_all valid_char x" using a x by (auto simp: list_all_iff)
  moreover have "list_all valid_char ''%2F''" by code_simp
  ultimately show "validEncoded (''/'' @ join_slash (ss @ [s]) @ ''%2F'' @ x)"
    by (simp add: validEncoded_def)
qed

section \<open>Properties\<close>

text \<open>
  C3. The wire between the halves and to opencode. However a device encodes its path, the home half
  decodes exactly the path the remote half judged, and opencode, decoding once, the path the home
  half sent; the text on the wire holds nothing that could end the path or the request line, and,
  when the judged path is normalized, no segment of it is a dot segment in any encoding, except
  those the configured URL itself has.
\<close>

theorem wire_carries_the_judged_path:
  assumes p: "setPath p = Some u" "HasPrefix p ''/''" and r: "URL_Path r = Path u"
    and ok: "pathIsNormalized (URL_Path r)"
  shows "\<exists>v w. read_target (sent_by_remote u q) = Some v \<and> read_target (sent_by_home target v q') = Some w \<and>
    Path v = URL_Path (at_home (remote_Rewrite (bounded_request pol r))) \<and>
    Path w = out_Path (local_Rewrite target (at_home (remote_Rewrite (bounded_request pol r)))) \<and>
    list_all wire_char (wire_text (sent_by_remote u q)) \<and> list_all wire_char (wire_text (sent_by_home target v q')) \<and>
    (\<forall>s\<in>set (segments (wire_text (sent_by_home target v q'))). \<exists>e. unescape s = Some e \<and>
      (dot_segment e \<longrightarrow> e \<in> set (segments (url_Path target))))"
proof -
  note root = setPath_rooted [OF p]
  let ?out = "joinURLPath \<lparr>Path = [], RawPath = []\<rparr> u"
  obtain v where v: "read_target (sent_by_remote u q) = Some v" "Path v = Path u" "setPath (EscapedPath ?out) = Some v"
    using one_hop(1) [OF p refl, of "[]" q] joined_rooted [OF root(1)] by (auto simp: sent_by_remote_def)
  note hop = one_hop [OF v(3) rooted_sent [OF p] refl, of "url_Path target" q']
  obtain w where w: "read_target (sent_by_home target v q') = Some w" "Path w = singleJoiningSlash (url_Path target) (Path u)"
    using hop(1) v(2) by (auto simp: sent_by_home_def)
  have home: "URL_Path (at_home (remote_Rewrite (bounded_request pol r))) = Path u"
    using at_home_path root(1) r by simp
  have "\<not> dot_segment e \<or> e \<notin> set (segments (Path v))" for e
    using normalized_no_dots [of "Path u" e] ok r root(1) v(2) by auto
  then have "\<forall>s\<in>set (segments (wire_text (sent_by_home target v q'))). \<exists>e. unescape s = Some e \<and>
      (dot_segment e \<longrightarrow> e \<in> set (segments (url_Path target)))"
    using hop(3) unfolding sent_by_home_def by blast
  then show ?thesis
    using v w home hop(2) one_hop(2) [OF p refl, of "[]" q]
    by (auto simp: sent_by_home_def sent_by_remote_def local_Rewrite_def)
qed

lemma api_slash_set: "setPath ''/api%2Fadmin'' = Some \<lparr>Path = ''/api/admin'', RawPath = ''/api%2Fadmin''\<rparr>"
  by code_simp

theorem wire_carries_the_judged_path_witness:
  "\<exists>v w. read_target (sent_by_remote \<lparr>Path = ''/api/admin'', RawPath = ''/api%2Fadmin''\<rparr> []) = Some v \<and>
    read_target (sent_by_home \<lparr>url_Scheme = ''http'', url_Host = ''h'', url_Path = ''/base''\<rparr> v []) = Some w \<and>
    Path v = ''/api/admin'' \<and> Path w = ''/base/api/admin''"
proof -
  let ?r = "\<lparr>URL_Path = ''/api/admin'', req_Host = ''proxy'', req_TLS = None, body_cap = None, timeout = None\<rparr>"
  let ?t = "\<lparr>url_Scheme = ''http'', url_Host = ''h'', url_Path = ''/base''\<rparr>"
  have root: "HasPrefix ''/api%2Fadmin'' ''/''" by (simp add: HasPrefix_single)
  have ok: "pathIsNormalized (URL_Path ?r)" by (simp add: pathIsNormalized_def) code_simp
  have r: "URL_Path ?r = Path \<lparr>Path = ''/api/admin'', RawPath = ''/api%2Fadmin''\<rparr>" by simp
  have home: "URL_Path (at_home (remote_Rewrite (bounded_request api_policy ?r))) = ''/api/admin''"
    using at_home_path [of ?r api_policy] by (simp add: HasPrefix_single)
  have "out_Path (local_Rewrite ?t (at_home (remote_Rewrite (bounded_request api_policy ?r)))) = ''/base/api/admin''"
    using home by (simp add: local_Rewrite_def) (simp add: singleJoiningSlash_def HasPrefix_single HasSuffix_single)
  then show ?thesis
    using wire_carries_the_judged_path [OF api_slash_set root r ok, of "[]" ?t "[]" api_policy] home by metis
qed

text \<open>
  C11. An encoded slash passes both allowlists and stays encoded. Let \<open>pre\<close> be any allowed prefix of
  plain segments and \<open>x\<close> any further segment, all of them of characters that need no escape. The
  request for \<open>pre%2Fx\<close> is judged by both halves as \<open>pre/x\<close>: normalized and allowed, so it passes
  the remote half's path guard, and the home half's limits, which hand it to the proxy. But what both
  halves send on, the home half for an opencode URL without a path of its own, is the device's text,
  byte for byte; and to a server that splits before it decodes, this text has as many segments as the prefix, the last
  of them another one, so it is not under the prefix.
\<close>

theorem encoded_slash_passes_both_halves:
  assumes plain: "\<forall>e\<in>set (ss @ [s, x]). plain_seg e \<and> list_all (\<lambda>c. \<not> shouldEscape c) e"
    and pre: "pre = ''/'' @ join_slash (ss @ [s])"
    and listed: "pre \<in> set (pol_AllowedPathPrefixes pol)" "pre \<in> set home_prefixes"
    and target: "url_Path target = []"
  shows "\<exists>u. setPath (pre @ ''%2F'' @ x) = Some u \<and> Path u = pre @ ''/'' @ x \<and>
    guard_path env pol (r\<lparr>URL_Path := Path u\<rparr>) w = Inr w \<and>
    WithLocalRequestLimits lenv m home_prefixes proxy (hr\<lparr>URL_Path := Path u\<rparr>) =
      proxy (hr\<lparr>URL_Path := Path u, body_cap := Some m\<rparr>) \<and>
    wire_text (sent_by_remote u q) = pre @ ''%2F'' @ x \<and> read_target (sent_by_remote u q) = Some u \<and>
    wire_text (sent_by_home target u q') = pre @ ''%2F'' @ x \<and>
    segments (pre @ ''%2F'' @ x) = ss @ [s @ ''%2F'' @ x] \<and>
    \<not> prefix (segments pre) (segments (pre @ ''%2F'' @ x))"
proof -
  let ?p = "pre @ ''%2F'' @ x"
  have ok: "list_all (list_all (\<lambda>c. \<not> shouldEscape c)) (ss @ [s, x])" using plain by (auto simp: list_all_iff)
  obtain u where u: "setPath ?p = Some u" "Path u = ''/'' @ join_slash (ss @ [s, x])"
    using encoded_slash_read(1) [OF ok] pre by (metis append_assoc)
  have valid: "validEncoded ?p" using encoded_slash_read(2) [OF ok] pre by (metis append_assoc)
  have root: "HasPrefix ?p ''/''" using pre by (simp add: HasPrefix_single)
  have path: "Path u = pre @ ''/'' @ x" using u(2) pre join_slash_append_lists [of "ss @ [s]" "[x]"] by simp
  have norm: "pathIsNormalized (Path u)" "pathIsNormalized pre"
    using plain normalized_rootedI [of "ss @ [s, x]"] normalized_rootedI [of "ss @ [s]"] by (simp_all add: u(2) pre)
  have clean: "\<forall>e\<in>set (ss @ [s, x]). clean_seg e" using plain by (auto simp: plain_seg_def)
  have segs: "segments pre = ss @ [s]" "segments (Path u) = ss @ [s, x]"
    using segments_join [of "ss @ [s]"] segments_join [of "ss @ [s, x]"] clean by (simp_all add: u(2) pre)
  have allowed: "pathAllowed ps (Path u)" if "pre \<in> set ps" for ps
    by (rule allowedI_segments [OF that norm(2) _ norm(1)]) (simp_all add: segs, simp_all add: u(2) pre HasPrefix_single)
  have "clean_seg (s @ ''%2F'' @ x)" using clean by (auto simp: clean_seg_def)
  then have "\<forall>e\<in>set (ss @ [s @ ''%2F'' @ x]). clean_seg e" using clean by auto
  from segments_join [OF this] have split: "segments ?p = ss @ [s @ ''%2F'' @ x]"
    using join_slash_last [of ss s "''%2F'' @ x"] by (simp add: pre)
  have "guard_path env pol (r\<lparr>URL_Path := Path u\<rparr>) w = Inr w"
    using norm(1) allowed [OF listed(1)] by (simp add: guard_path_def)
  moreover have "WithLocalRequestLimits lenv m home_prefixes proxy (hr\<lparr>URL_Path := Path u\<rparr>) =
      proxy (hr\<lparr>URL_Path := Path u, body_cap := Some m\<rparr>)"
    using norm(1) allowed [OF listed(2)] by (simp add: WithLocalRequestLimits_def)
  moreover have "wire_text (sent_by_remote u q) = ?p" "wire_text (sent_by_home target u q') = ?p"
    using valid_text_sent [OF u(1) root valid] target by (simp_all add: sent_by_remote_def sent_by_home_def)
  moreover from this have "read_target (sent_by_remote u q) = Some u" using u(1) by (simp add: read_target_def)
  ultimately show ?thesis using u(1) path split segs(1) by (intro exI [of _ u]) simp
qed

theorem encoded_slash_passes_both_halves_witness:
  "\<exists>u. setPath ''/api%2Fadmin'' = Some u \<and> Path u = ''/api/admin'' \<and>
    guard_path quiet_env api_policy ((phone_request [])\<lparr>URL_Path := Path u\<rparr>) idle_remote = Inr idle_remote \<and>
    wire_text (sent_by_home \<lparr>url_Scheme = ''http'', url_Host = ''h'', url_Path = []\<rparr> u []) = ''/api%2Fadmin''"
proof -
  have seg: "plain_seg ''api'' \<and> list_all (\<lambda>c. \<not> shouldEscape c) ''api''"
    "plain_seg ''admin'' \<and> list_all (\<lambda>c. \<not> shouldEscape c) ''admin''"
    by (simp_all add: plain_seg_def clean_seg_def shouldEscape_def alphanumeric_def)
  then have plain: "\<forall>e\<in>set ([] @ [''api'', ''admin'']). plain_seg e \<and> list_all (\<lambda>c. \<not> shouldEscape c) e" by simp
  have pre: "''/api'' = ''/'' @ join_slash ([] @ [''api''])" by simp
  have listed: "''/api'' \<in> set (pol_AllowedPathPrefixes api_policy)" "''/api'' \<in> set [''/api'']"
    by (simp_all add: api_policy_def)
  have target: "url_Path \<lparr>url_Scheme = ''http'', url_Host = ''h'', url_Path = []\<rparr> = []" by simp
  obtain u where "setPath (''/api'' @ ''%2F'' @ ''admin'') = Some u" "Path u = ''/api'' @ ''/'' @ ''admin''"
    "guard_path quiet_env api_policy ((phone_request [])\<lparr>URL_Path := Path u\<rparr>) idle_remote = Inr idle_remote"
    "wire_text (sent_by_home \<lparr>url_Scheme = ''http'', url_Host = ''h'', url_Path = []\<rparr> u []) = ''/api'' @ ''%2F'' @ ''admin''"
    using encoded_slash_passes_both_halves [OF plain pre listed target, of quiet_env "phone_request []" idle_remote
        echo_env 5 "\<lambda>r. (NilDereference, [])" "phone_request []" "[]" "[]"] by blast
  then show ?thesis by (intro exI [of _ u]) (simp only: append_Cons append_Nil simp_thms)
qed

end
