(* ===== verification/Remote_Sequential.thy ===== *)
theory Remote_Sequential
  imports Remote_System
begin

text \<open>
  The function \<open>deviceRequest\<close> of \<open>Remote_Proxy\<close>, which follows the source from top to bottom, is a run
  of the goroutine of \<open>Remote_System\<close>, which does one atomic step at a time: left alone, the goroutine
  can answer whatever the function returns, and leaves the shared state the function leaves.
\<close>

section \<open>A goroutine alone\<close>

definition alone :: "proxy_env \<Rightarrow> RemoteProxyPolicy \<Rightarrow> proc \<times> shared \<Rightarrow> proc \<times> shared \<Rightarrow> bool" where
  "alone net pol x y \<longleftrightarrow> act net pol (fst x) (snd x) y"

lemma alone_step: "act net pol p g y \<Longrightarrow> (alone net pol)\<^sup>*\<^sup>* (p, g) y"
  by (simp add: alone_def r_into_rtranclp)

lemma settle_rem [simp]: "settle x refused ok (g\<lparr>rem := v\<rparr>) = settle x refused ok g"
  by (simp add: settle_def split: sum.split)

text \<open>A guard run after a guard.\<close>

lemma alone_and_then:
  assumes "(alone net pol)\<^sup>*\<^sup>* a (settle x Answered p g)"
    and "\<And>w. x = Inr w \<Longrightarrow> (alone net pol)\<^sup>*\<^sup>* (p, g\<lparr>rem := w\<rparr>) (settle (f w) Answered q g)"
  shows "(alone net pol)\<^sup>*\<^sup>* a (settle (and_then x f) Answered q g)"
proof (cases x)
  case (Inl d)
  then show ?thesis using assms(1) by (simp add: settle_def)
next
  case (Inr w)
  then have "(alone net pol)\<^sup>*\<^sup>* a (p, g\<lparr>rem := w\<rparr>)" using assms(1) by (simp add: settle_Inr)
  then show ?thesis using assms(2) [OF Inr] Inr by (simp add: rtranclp_trans)
qed

section \<open>The guards\<close>

text \<open>\<open>CloseCurrentIfRevoked\<close> in its two steps, when nothing comes between them.\<close>

lemma guard_tunnel_runs:
  "(alone net pol)\<^sup>*\<^sup>* (DLive r, g) (settle (guard_tunnel f1 f2 (rem g)) Answered (DPath r) g)"
proof (cases "revocation (rem g)")
  case None
  then have "guard_tunnel f1 f2 (rem g) = Inr (rem g)"
    by (simp add: guard_tunnel_def CloseCurrentIfRevoked_def)
  then show ?thesis using alone_step [OF no_list [OF None, of net pol r]] by (simp add: settle_Inr)
next
  case (Some rl)
  let ?snap = "(reg_sess (reg (rem g)), reg_cert (reg (rem g)))"
  have "guard_tunnel f1 f2 (rem g) = snapshot_guard f1 f2 ?snap (rem g)"
    by (simp add: Some guard_tunnel_def snapshot_guard_def CloseCurrentIfRevoked_def split_beta Let_def)
  then show ?thesis
    using alone_step [OF snapshot [OF Some, of net pol r]] alone_step [OF tunnel [of net pol r ?snap g f1 f2]]
    by (simp add: rtranclp_trans)
qed

lemma device_guards_run:
  "(alone net pol)\<^sup>*\<^sup>* (DStart r, g) (settle (device_guards net pol obs r (rem g)) Answered (DAdmitted r) g)"
proof -
  obtain f1 f2 f3 f4 where obs: "obs = (f1, f2, f3, f4)" by (metis prod_cases4)
  have steps:
    "(alone net pol)\<^sup>*\<^sup>* (DRole r, g\<lparr>rem := w\<rparr>) (settle (guard_device net f1 f2 r w) Answered (DLive r) g)"
    "(alone net pol)\<^sup>*\<^sup>* (DLive r, g\<lparr>rem := w\<rparr>) (settle (guard_tunnel f3 f4 w) Answered (DPath r) g)"
    "(alone net pol)\<^sup>*\<^sup>* (DPath r, g\<lparr>rem := w\<rparr>) (settle (guard_path net pol r w) Answered (DAdmitted r) g)" for w
    using alone_step [OF device [of net pol r "g\<lparr>rem := w\<rparr>" f1 f2]]
      guard_tunnel_runs [of net pol r "g\<lparr>rem := w\<rparr>" f3 f4] alone_step [OF path [of net pol r "g\<lparr>rem := w\<rparr>"]]
    by simp_all
  show ?thesis
    unfolding device_guards_def obs prod.case
    by (rule alone_and_then [OF alone_step [OF role]], rule alone_and_then [OF steps(1)],
        rule alone_and_then [OF steps(2)], rule steps(3))
qed

section \<open>The whole request\<close>

text \<open>From the semaphore on: the forward, if it ends, and both deferred calls.\<close>

lemma proxy_runs:
  assumes "proxy_ServeHTTP net (bounded_request pol r) (rem g) = Some (rep, w)"
  shows "(alone net pol)\<^sup>*\<^sup>* (DForwarding r leaf, g) (DReturning rep leaf, g\<lparr>rem := w\<rparr>)"
proof (cases "proxy_dial net (sent_on pol r) (rem g)")
  case (Inl err)
  then have "remote_ErrorHandler (sent_on pol r) err (rem g) = (rep, w)" using assms by (simp add: proxy_ServeHTTP_def)
  then show ?thesis by (rule alone_step [OF dial_fails [OF Inl]])
next
  case (Inr u)
  then have sent: "(alone net pol)\<^sup>*\<^sup>* (DForwarding r leaf, g) (DSent r leaf, g)" by (simp add: alone_step [OF dial])
  obtain x where x: "proxy_round_trip net (sent_on pol r) = Some x"
    using assms Inr by (cases "proxy_round_trip net (sent_on pol r)") (simp_all add: proxy_ServeHTTP_def)
  show ?thesis
  proof (cases x)
    case (Inl err)
    then have "remote_ErrorHandler (sent_on pol r) err (rem g) = (rep, w)"
      using assms Inr x by (simp add: proxy_ServeHTTP_def)
    from alone_step [OF trip_fails [OF x [unfolded Inl] this]] show ?thesis by (rule rtranclp_trans [OF sent])
  next
    case resp: (Inr resp)
    obtain how where how: "proxy_body_copy net (sent_on pol r) = Some how"
      using assms Inr x resp by (cases "proxy_body_copy net (sent_on pol r)") (simp_all add: proxy_ServeHTTP_def)
    then have "proxy_copied how resp (rem g) = (rep, w)" using assms Inr x resp by (simp add: proxy_ServeHTTP_def)
    from alone_step [OF begins [OF x [unfolded resp]]] alone_step [OF copied [OF how this]] sent
    show ?thesis by (meson rtranclp_trans)
  qed
qed

lemma counted_runs:
  assumes "(case take_sem_slot net pol r w of
      Inl (rep, w3) \<Rightarrow> Some (rep, drop_cert_slot leaf w3)
    | Inr w3 \<Rightarrow>
        (case proxy_ServeHTTP net (bounded_request pol r) w3 of
           None \<Rightarrow> None
         | Some (rep, w4) \<Rightarrow>
             (case drop_sem_slot w4 of None \<Rightarrow> None | Some w5 \<Rightarrow> Some (rep, drop_cert_slot leaf w5)))) = Some (rep, w')"
  shows "(alone net pol)\<^sup>*\<^sup>* (DCounted r leaf, g\<lparr>rem := w\<rparr>) (Answered rep, g\<lparr>rem := w'\<rparr>)"
proof (cases "take_sem_slot net pol r w")
  case (Inl d)
  then obtain w3 where "take_sem_slot net pol r w = Inl (rep, w3)" "w' = drop_cert_slot leaf w3"
    using assms Inl by (cases d) simp
  then have "(alone net pol)\<^sup>*\<^sup>* (DCounted r leaf, g\<lparr>rem := w\<rparr>) (DLeaving rep leaf, g\<lparr>rem := w3\<rparr>)"
    "w' = drop_cert_slot leaf w3"
    using alone_step [OF sem_slot [of net pol r leaf "g\<lparr>rem := w\<rparr>"]] by (simp_all add: settle_def)
  then show ?thesis
    using alone_step [OF cert_back [of net pol rep leaf "g\<lparr>rem := w3\<rparr>"]] by (simp add: rtranclp_trans)
next
  case (Inr w3)
  then obtain w4 w5 where fwd: "proxy_ServeHTTP net (bounded_request pol r) w3 = Some (rep, w4)"
    and given: "drop_sem_slot w4 = Some w5" "w' = drop_cert_slot leaf w5"
    using assms by (auto split: option.splits)
  have "(alone net pol)\<^sup>*\<^sup>* (DCounted r leaf, g\<lparr>rem := w\<rparr>) (DForwarding r leaf, g\<lparr>rem := w3\<rparr>)"
    using alone_step [OF sem_slot [of net pol r leaf "g\<lparr>rem := w\<rparr>"]] Inr by (simp add: settle_def)
  moreover have "(alone net pol)\<^sup>*\<^sup>* (DForwarding r leaf, g\<lparr>rem := w3\<rparr>) (DReturning rep leaf, g\<lparr>rem := w4\<rparr>)"
    using proxy_runs [of net pol r "g\<lparr>rem := w3\<rparr>" rep w4 leaf] fwd by simp
  moreover have "(alone net pol)\<^sup>*\<^sup>* (DReturning rep leaf, g\<lparr>rem := w4\<rparr>) (DLeaving rep leaf, g\<lparr>rem := w5\<rparr>)"
    using alone_step [OF sem_back [of "g\<lparr>rem := w4\<rparr>" w5 net pol rep leaf]] given by simp
  moreover have "(alone net pol)\<^sup>*\<^sup>* (DLeaving rep leaf, g\<lparr>rem := w5\<rparr>) (Answered rep, g\<lparr>rem := w'\<rparr>)"
    using alone_step [OF cert_back [of net pol rep leaf "g\<lparr>rem := w5\<rparr>"]] given by simp
  ultimately show ?thesis by (meson rtranclp_trans)
qed

lemma deviceRequest_runs:
  assumes "deviceRequest net pol obs r (rem g) = Some (rep, w)"
  shows "(alone net pol)\<^sup>*\<^sup>* (DStart r, g) (Answered rep, g\<lparr>rem := w\<rparr>)"
proof (cases "device_guards net pol obs r (rem g)")
  case (Inl d)
  then show ?thesis using device_guards_run [of net pol r g obs] assms by (simp add: deviceRequest_def settle_def)
next
  case (Inr w1)
  then have guards: "(alone net pol)\<^sup>*\<^sup>* (DStart r, g) (DAdmitted r, g\<lparr>rem := w1\<rparr>)"
    using device_guards_run [of net pol r g obs] by (simp add: settle_Inr)
  show ?thesis
  proof (cases "leafCertOf (req_TLS r)")
    case None
    then show ?thesis
      using guards alone_step [OF nil_leaf [of r net pol "g\<lparr>rem := w1\<rparr>"]] assms Inr
      by (auto simp: deviceRequest_def intro: rtranclp_trans)
  next
    case (Some leaf)
    have slot: "(alone net pol)\<^sup>*\<^sup>* (DAdmitted r, g\<lparr>rem := w1\<rparr>)
        (settle (take_cert_slot net pol r leaf w1) Answered (DCounted r leaf) g)"
      using alone_step [OF cert_slot [OF Some, of net pol "g\<lparr>rem := w1\<rparr>"]] by simp
    show ?thesis
    proof (cases "take_cert_slot net pol r leaf w1")
      case (Inl d)
      then have "d = (rep, w)" using assms Inr Some by (simp add: deviceRequest_def)
      then show ?thesis using rtranclp_trans [OF guards slot] Inl by (simp add: settle_def)
    next
      case w2: (Inr w2)
      have "(alone net pol)\<^sup>*\<^sup>* (DCounted r leaf, g\<lparr>rem := w2\<rparr>) (Answered rep, g\<lparr>rem := w\<rparr>)"
        by (rule counted_runs) (use assms Inr Some w2 in \<open>simp add: deviceRequest_def\<close>)
      moreover have "(alone net pol)\<^sup>*\<^sup>* (DStart r, g) (DCounted r leaf, g\<lparr>rem := w2\<rparr>)"
        using rtranclp_trans [OF guards slot] w2 by (simp add: settle_Inr)
      ultimately show ?thesis by (rule rtranclp_trans [rotated])
    qed
  qed
qed

end
