(* ===== verification/Tunnel_Life.thy ===== *)
theory Tunnel_Life
  imports Remote_System
begin

text \<open>
  How long a tunnel has the slot (\<^verbatim>\<open>remote.go\<close>), over all interleavings. Last-writer-wins: a home
  whose connection dropped gets its slot back at once, whatever the registry still holds, and keeps
  it until its session dies or another accepted upgrade replaces it. Revocation liveness: a tunnel
  whose certificate a device request finds on the denylist never carries a request again.
\<close>

section \<open>The guards let the home pass\<close>

lemma home_passes_guards: "home_request pol r \<Longrightarrow> tunnel_guards env pol r w = Inr w"
  by (auto simp: home_request_def pinned_def tunnel_guards_def VerifyPeerRole_def VerifyPeerCN_def)

section \<open>An upgrade by itself\<close>

text \<open>One step of the goroutine that arrived last, the others standing still.\<close>

lemma last_runs:
  assumes "act net pol p g (p', g')" and "wide net = wide env"
  shows "sys_step env pol \<lparr>sh = g, procs = ps @ [p]\<rparr> \<lparr>sh = g', procs = ps @ [p']\<rparr>"
  using runs [of "length ps" "\<lparr>sh = g, procs = ps @ [p]\<rparr>" net env pol p' g'] assms by simp

definition connected :: "proxy_env \<Rightarrow> request \<Rightarrow> sid \<Rightarrow> shared \<Rightarrow> shared" where
  "connected env r sess g =
     g\<lparr>issued := insert sess (issued g),
       rem := accept_close_old env (reg_sess (reg (rem g))) r (snd (accept_swap sess r (rem g)))\<rparr>"

lemma upgrade_runs:
  assumes home: "home_request pol r" and path: "URL_Path r = pol_TunnelPath pol"
    and fresh: "sess \<notin> issued (sh s)" "sess \<notin> closed (rem (sh s))"
  shows "(sys_step env pol)\<^sup>*\<^sup>* s \<lparr>sh = connected env r sess (sh s), procs = procs s @ [TServing r sess]\<rparr>"
proof -
  let ?g = "sh s" and ?at = "\<lambda>g p. \<lparr>sh = g, procs = procs s @ [p]\<rparr>"
  let ?g1 = "?g\<lparr>issued := insert sess (issued ?g)\<rparr>" and ?net = "env\<lparr>handshake := \<lambda>r. Some (Inr ())\<rparr>"
  let ?old = "reg_sess (reg (rem ?g))" and ?w = "snd (accept_swap sess r (rem ?g))"
  let ?g2 = "?g1\<lparr>rem := ?w\<rparr>"
  have "dispatch pol r = TStart r" using path by (simp add: dispatch_def is_tunnel_request_def)
  then have "sys_step env pol s (?at ?g (TStart r))" using arrives [of env pol s r] by (cases s) simp
  moreover have "sys_step env pol (?at ?g (TStart r)) (?at ?g (TUpgrade r))"
    using upgrade [of env pol r ?g] by (intro last_runs [where net = env]) (simp_all add: home_passes_guards [OF home] settle_Inr)
  moreover have "sys_step env pol (?at ?g (TUpgrade r)) (?at ?g1 (TAccepted r sess))"
    using accept [of ?net r sess ?g pol] fresh by (intro last_runs [where net = ?net]) simp_all
  moreover have "sys_step env pol (?at ?g1 (TAccepted r sess)) (?at ?g2 (TSwapped r sess ?old))"
    by (intro last_runs [where net = env] swap) (simp_all add: accept_swap_def set_swap_def)
  moreover have "sys_step env pol (?at ?g2 (TSwapped r sess ?old)) (?at (connected env r sess ?g) (TServing r sess))"
    using close_old [of env pol r sess ?old ?g2] by (intro last_runs [where net = env]) (simp_all add: connected_def)
  ultimately show ?thesis by (meson converse_rtranclp_into_rtranclp rtranclp.rtrancl_refl)
qed

lemma connected_slot:
  "reg (rem (connected env r sess g)) = \<lparr>reg_sess = Some sess, reg_cert = leafCertOf (req_TLS r)\<rparr>"
  "closed (rem (connected env r sess g)) = closed (rem g) \<union> set_option (reg_sess (reg (rem g)))"
  by (auto simp: connected_def accept_close_old_def accept_swap_def set_swap_def set_close_old_def logf_def Let_def
      split: option.splits)

section \<open>The slot is kept\<close>

definition keeps_slot :: "sid \<Rightarrow> shared \<Rightarrow> proc list \<Rightarrow> bool" where
  "keeps_slot sess g ps \<longleftrightarrow>
     sess \<in> closed (rem g) \<or> reg_sess (reg (rem g)) = Some sess \<or> (\<exists>r x. TSwapped r x (Some sess) \<in> set ps)"

lemma act_closed_mono: "act env pol p g (p', g') \<Longrightarrow> closed (rem g) \<subseteq> closed (rem g')"
  using act_keeps_sessions [of env pol p g p' g'] by (auto simp: keeps_sessions_def)

lemma keeps_slot_act:
  assumes act: "act env pol (ps ! i) g (p', g')" and i: "i < length ps"
    and inv: "sessions_inv pol g ps" and slot: "keeps_slot sess g ps"
  shows "keeps_slot sess g' (ps[i := p'])"
proof (cases "sess \<in> closed (rem g')")
  case alive: False
  then have "sess \<notin> closed (rem g)" using act_closed_mono [OF act] by blast
  then consider (registered) "reg_sess (reg (rem g)) = Some sess"
    | (replaced) r x where "TSwapped r x (Some sess) \<in> set ps"
    using slot by (auto simp: keeps_slot_def)
  then show ?thesis
  proof cases
    case registered
    have "ps ! i \<in> set ps" using i by simp
    then have "\<not> (\<exists>r c. ps ! i = TWoken r sess c)"
      using sessions_invD(6) [OF inv] \<open>sess \<notin> closed (rem g)\<close> by metis
    moreover have "p' \<in> set (ps[i := p'])" using i by (simp add: set_update_memI)
    ultimately show ?thesis using act_keeps_sessions [OF act] registered
      by (auto simp: keeps_slot_def keeps_sessions_def RegClear_def)
  next
    case replaced
    then obtain j where j: "j < length ps" "ps ! j = TSwapped r x (Some sess)" by (auto simp: in_set_conv_nth)
    show ?thesis
    proof (cases "j = i")
      case True
      then have "act env pol (TSwapped r x (Some sess)) g (p', g')" using act j by simp
      then show ?thesis using alive
        by cases (auto simp: accept_close_old_def set_close_old_def logf_def split_beta Let_def)
    next
      case False
      then have "ps[i := p'] ! j = TSwapped r x (Some sess)" using j by simp
      then show ?thesis using j by (metis keeps_slot_def length_list_update nth_mem)
    qed
  qed
qed (simp add: keeps_slot_def)

lemma keeps_slot_run:
  assumes "(sys_step env pol)\<^sup>*\<^sup>* t u" and "reachable env pol rl t" and "keeps_slot sess (sh t) (procs t)"
  shows "keeps_slot sess (sh u) (procs u)"
  using assms
proof (induction rule: rtranclp_induct)
  case (step u v)
  have "reachable env pol rl u" using step(1,4) unfolding reachable_def by (rule rtranclp_trans [rotated])
  then have inv: "sessions_inv pol (sh u) (procs u)" using reachable_sessions by blast
  have slot: "keeps_slot sess (sh u) (procs u)" using step by blast
  from step(2) show ?case
  proof (rule sys_stepE)
    fix i net p g
    assume "v = \<lparr>sh = g, procs = (procs u)[i := p]\<rparr>" "i < length (procs u)" "act net pol (procs u ! i) (sh u) (p, g)"
    then show ?thesis using keeps_slot_act [OF _ _ inv slot] by simp
  qed (use slot in \<open>auto simp: keeps_slot_def\<close>)
qed simp

section \<open>A closed session stays closed\<close>

lemma sys_closed_mono: "sys_step env pol s t \<Longrightarrow> closed (rem (sh s)) \<subseteq> closed (rem (sh t))"
proof (erule sys_stepE)
  fix i net p g
  assume "t = \<lparr>sh = g, procs = (procs s)[i := p]\<rparr>" "act net pol (procs s ! i) (sh s) (p, g)"
  then show ?thesis using act_closed_mono by fastforce
qed auto

lemma closed_for_good: "(sys_step env pol)\<^sup>*\<^sup>* s t \<Longrightarrow> sess \<in> closed (rem (sh s)) \<Longrightarrow> sess \<in> closed (rem (sh t))"
  by (induction rule: rtranclp_induct) (use sys_closed_mono in blast)+

lemma closed_not_got: "sess \<in> dead \<Longrightarrow> RegGet r dead \<noteq> Some sess"
  by (auto simp: RegGet_def split: option.splits)

text \<open>What the guard on the snapshot does when the tunnel's certificate is denied.\<close>

lemma revoked_snapshot:
  assumes "revocation w = Some rl" and "sess \<notin> closed w" and "serialOf cert \<in> denied f rl"
  shows "\<exists>rl'. snapshot_guard f f (Some sess, Some cert) w =
    Inl (reject 503 ''closed tunnel: its certificate is now revoked''
           (w\<lparr>closed := insert sess (closed w), revocation := Some rl'\<rparr>))"
  using assms
  by (intro exI [of _ "reload f f rl"])
    (simp add: snapshot_guard_def close_snapshot_if_revoked_def IsRevoked_def denied_def Let_def)

section \<open>Properties\<close>

text \<open>
  C14. A reconnecting home reclaims its slot. In whatever state the remote half is, with a stale
  session registered or none, an upgrade request of the pinned home, if its handshake
  succeeds, gets its new session registered by the steps of its own goroutine alone, no other one having to move; the session
  it replaces is closed and nothing else is; and from then on the slot is its own until its
  session is closed or a later accepted upgrade has replaced it.
\<close>

theorem reconnecting_home_reclaims_its_slot:
  assumes reach: "reachable env pol rl s" and home: "home_request pol r" and path: "URL_Path r = pol_TunnelPath pol"
    and fresh: "sess \<notin> issued (sh s)" "sess \<notin> closed (rem (sh s))"
  shows "\<exists>t. (sys_step env pol)\<^sup>*\<^sup>* s t \<and> procs t = procs s @ [TServing r sess] \<and>
    RegGet (reg (rem (sh t))) (closed (rem (sh t))) = Some sess \<and>
    reg_cert (reg (rem (sh t))) = leafCertOf (req_TLS r) \<and>
    closed (rem (sh t)) = closed (rem (sh s)) \<union> set_option (reg_sess (reg (rem (sh s)))) \<and>
    (\<forall>u. (sys_step env pol)\<^sup>*\<^sup>* t u \<longrightarrow>
      sess \<in> closed (rem (sh u)) \<or> reg_sess (reg (rem (sh u))) = Some sess \<or>
      (\<exists>r' x. TSwapped r' x (Some sess) \<in> set (procs u)))"
proof -
  let ?t = "\<lparr>sh = connected env r sess (sh s), procs = procs s @ [TServing r sess]\<rparr>"
  have run: "(sys_step env pol)\<^sup>*\<^sup>* s ?t" by (rule upgrade_runs [OF home path fresh])
  have "sessions_inv pol (sh s) (procs s)" using reachable_sessions [OF reach] by blast
  then have "reg_sess (reg (rem (sh s))) \<noteq> Some sess" using sessions_invD(1) fresh(1) by blast
  then have alive: "sess \<notin> closed (rem (sh ?t))" using fresh(2) by (auto simp: connected_slot)
  have "reachable env pol rl ?t" using reach run unfolding reachable_def by (rule rtranclp_trans)
  moreover have "keeps_slot sess (sh ?t) (procs ?t)" by (simp add: keeps_slot_def connected_slot)
  ultimately have "\<forall>u. (sys_step env pol)\<^sup>*\<^sup>* ?t u \<longrightarrow> keeps_slot sess (sh u) (procs u)"
    using keeps_slot_run by blast
  then show ?thesis
    using run alive by (intro exI [of _ ?t]) (simp add: connected_slot RegGet_def keeps_slot_def)
qed

theorem reconnecting_home_reclaims_its_slot_witness:
  "\<exists>t. (sys_step quiet_env api_policy)\<^sup>*\<^sup>* one_tunnel t \<and> procs t = [TServing home_upgrade 0, TServing home_upgrade 1] \<and>
    RegGet (reg (rem (sh t))) (closed (rem (sh t))) = Some 1 \<and> 0 \<in> closed (rem (sh t))"
proof -
  have "home_request api_policy home_upgrade"
    by (simp add: home_request_def pinned_def leafCertOf_def home_upgrade_def api_policy_def)
  moreover have "URL_Path home_upgrade = pol_TunnelPath api_policy" by (simp add: home_upgrade_def api_policy_def)
  moreover have "1 \<notin> issued (sh one_tunnel)" by (simp add: one_tunnel_def)
  moreover have slot: "reg_sess (reg (rem (sh one_tunnel))) = Some 0" "closed (rem (sh one_tunnel)) = {}"
    by (simp_all add: one_tunnel_def accept_close_old_def accept_swap_def set_swap_def set_close_old_def logf_def
        idle_remote_def NewSessionRegistry_def)
  ultimately obtain t where "(sys_step quiet_env api_policy)\<^sup>*\<^sup>* one_tunnel t"
    "procs t = procs one_tunnel @ [TServing home_upgrade 1]" "RegGet (reg (rem (sh t))) (closed (rem (sh t))) = Some 1"
    "closed (rem (sh t)) = closed (rem (sh one_tunnel)) \<union> set_option (reg_sess (reg (rem (sh one_tunnel))))"
    using reconnecting_home_reclaims_its_slot [OF one_tunnel_reachable, of home_upgrade 1] by auto
  then show ?thesis using slot by (intro exI [of _ t]) (simp add: one_tunnel_def)
qed

text \<open>
  C16. Revocation reaches a live tunnel. When a device request gets to \<open>CloseCurrentIfRevoked\<close> while
  the denylist it reads has the registered tunnel's certificate, its own next two steps answer it
  503 with one log line and close the session, unforwarded; and in every continuation whatsoever
  \<open>Get\<close> never returns that session again, so no later request dials through it.
\<close>

theorem revoked_tunnel_never_carries_again:
  assumes i: "i < length (procs s)" "procs s ! i = DLive r"
    and slot: "reg_sess (reg (rem (sh s))) = Some sess" "reg_cert (reg (rem (sh s))) = Some cert"
    and denied: "revocation (rem (sh s)) = Some rl" "sess \<notin> closed (rem (sh s))" "serialOf cert \<in> denied w rl"
  shows "\<exists>t. (sys_step env pol)\<^sup>*\<^sup>* s t \<and>
    procs t = (procs s)[i := Answered (HttpError 503 ''Service Unavailable'')] \<and>
    log (rem (sh t)) = log (rem (sh s)) @ [''closed tunnel: its certificate is now revoked''] \<and>
    (\<forall>u. (sys_step env pol)\<^sup>*\<^sup>* t u \<longrightarrow> RegGet (reg (rem (sh u))) (closed (rem (sh u))) \<noteq> Some sess)"
proof -
  let ?g = "sh s" and ?line = "''closed tunnel: its certificate is now revoked''"
  obtain rl' where guard: "snapshot_guard w w (Some sess, Some cert) (rem ?g) =
      Inl (reject 503 ?line ((rem ?g)\<lparr>closed := insert sess (closed (rem ?g)), revocation := Some rl'\<rparr>))"
    using revoked_snapshot [OF denied] by blast
  let ?w = "logf ?line ((rem ?g)\<lparr>closed := insert sess (closed (rem ?g)), revocation := Some rl'\<rparr>)"
  let ?snap = "DSnap r (Some sess, Some cert)" and ?rep = "Answered (HttpError 503 ''Service Unavailable'')"
  let ?s1 = "\<lparr>sh = ?g, procs = (procs s)[i := ?snap]\<rparr>" and ?t = "\<lparr>sh = ?g\<lparr>rem := ?w\<rparr>, procs = (procs s)[i := ?rep]\<rparr>"
  have "sys_step env pol s ?s1"
    using snapshot [OF denied(1), of env pol r] i slot by (intro runs [where net = env]) simp_all
  moreover have "act env pol ?snap ?g (?rep, ?g\<lparr>rem := ?w\<rparr>)"
    using tunnel [of env pol r "(Some sess, Some cert)" ?g w w] guard
    by (simp add: settle_def reject_def StatusText_def)
  then have "sys_step env pol ?s1 ?t"
    using runs [of i ?s1 env env pol ?rep "?g\<lparr>rem := ?w\<rparr>"] i by simp
  ultimately have run: "(sys_step env pol)\<^sup>*\<^sup>* s ?t"
    by (meson converse_rtranclp_into_rtranclp rtranclp.rtrancl_refl)
  have dead: "sess \<in> closed (rem (sh ?t))" by (simp add: logf_def)
  have never: "\<forall>u. (sys_step env pol)\<^sup>*\<^sup>* ?t u \<longrightarrow> RegGet (reg (rem (sh u))) (closed (rem (sh u))) \<noteq> Some sess"
    by (intro allI impI closed_not_got closed_for_good [OF _ dead])
  have "procs ?t = (procs s)[i := ?rep]" "log (rem (sh ?t)) = log (rem (sh s)) @ [?line]"
    by (simp_all add: logf_def)
  then show ?thesis using run never by (intro exI [of _ ?t] conjI)
qed

text \<open>The home's tunnel, with its certificate on the list, and a request of the phone about to be checked.\<close>

definition revoked_home :: system where
  "revoked_home =
     \<lparr>sh = \<lparr>rem = idle_remote\<lparr>reg := \<lparr>reg_sess = Some 0, reg_cert = leafCertOf (req_TLS home_upgrade)\<rparr>,
                               revocation := Some (empty_list\<lparr>rl_serials := {''3''}\<rparr>)\<rparr>,
            issued = {0}, stopping = False\<rparr>,
      procs = [TServing home_upgrade 0, DLive (phone_request ''/api'')]\<rparr>"

theorem revoked_tunnel_never_carries_again_witness:
  "\<exists>t. (sys_step quiet_env api_policy)\<^sup>*\<^sup>* revoked_home t \<and>
    procs t = [TServing home_upgrade 0, Answered (HttpError 503 ''Service Unavailable'')] \<and>
    RegGet (reg (rem (sh t))) (closed (rem (sh t))) \<noteq> Some 0"
proof -
  let ?cert = "\<lparr>SerialNumber = 3, CommonName = ''home'', OrganizationalUnit = [OUTunnel]\<rparr>"
  let ?w = "\<lparr>os_stat = (\<lambda>path. None), os_read = (\<lambda>path. OpenFailed)\<rparr>"
  have "serialOf ?cert = ''3''" by (simp add: serialOf_def Text16_def) code_simp
  then have "serialOf ?cert \<in> denied ?w (empty_list\<lparr>rl_serials := {''3''}\<rparr>)"
    by (simp add: denied_def reload_def)
  moreover have "closed (rem (sh revoked_home)) = {}" by (simp add: revoked_home_def idle_remote_def)
  ultimately obtain t where t: "(sys_step quiet_env api_policy)\<^sup>*\<^sup>* revoked_home t"
    "procs t = (procs revoked_home)[1 := Answered (HttpError 503 ''Service Unavailable'')]"
    "\<forall>u. (sys_step quiet_env api_policy)\<^sup>*\<^sup>* t u \<longrightarrow> RegGet (reg (rem (sh u))) (closed (rem (sh u))) \<noteq> Some 0"
    using revoked_tunnel_never_carries_again [of 1 revoked_home "phone_request ''/api''" 0 ?cert
        "empty_list\<lparr>rl_serials := {''3''}\<rparr>" ?w quiet_env api_policy]
    by (auto simp: revoked_home_def leafCertOf_def home_upgrade_def)
  then show ?thesis by (intro exI [of _ t]) (simp add: revoked_home_def)
qed

end
