(* ===== verification/Availability.thy ===== *)
theory Availability
  imports Remote_Sequential Tunnel_Life
begin

text \<open>
  What all the refusing is for: a device that should be served is. After any history, a home that
  dials gets its tunnel, and a request of an enrolled device that asks for an allowed path, with room
  in both budgets and nobody on the denylist, is answered with opencode's response through it.
\<close>

section \<open>One request through a live tunnel\<close>

lemma device_guards_closed:
  assumes "device_guards env pol obs r w = Inr w'"
  shows "closed w' = closed w"
proof -
  obtain f1 f2 f3 f4 where obs: "obs = (f1, f2, f3, f4)" by (metis prod_cases4)
  have tunnel: "closed v' = closed v" if "guard_tunnel f3 f4 v = Inr v'" for v v'
    using that by (auto simp: guard_tunnel_Inr CloseCurrentIfRevoked_def close_snapshot_if_revoked_def
        split_beta Let_def split: option.splits if_splits)
  show ?thesis
    using assms tunnel by (auto simp: device_guards_def obs and_then_Inr guard_role_Inr guard_device_Inr guard_path_Inr
        split: option.splits)
qed

lemma served_through_tunnel:
  assumes adm: "admissible pol obs r leaf w" and live: "RegGet (reg w) (closed w) = Some sess"
    and room: "fst (acquire (perCert w) (serialOf leaf))" "sem_len (sem w) < sem_cap (sem w)"
    and net: "open_stream e sess = Inr ()" "round_trip e (sent_on pol r) = Some (Inr resp)"
      "body_copy e (sent_on pol r) = Some Copied"
  shows "\<exists>w'. deviceRequest e pol obs r w = Some (Backend resp, w')"
proof -
  obtain w1 where w1: "device_guards e pol obs r w = Inr w1" using adm device_guards_ok by blast
  have leaf: "leafCertOf (req_TLS r) = Some leaf" using adm by (simp add: admissible_def)
  have same: "perCert w1 = perCert w" "sem w1 = sem w" "reg w1 = reg w"
    using device_guards_keep_slots [where env = e and pol = pol and obs = obs and r = r and w = w] w1
    by (simp_all add: same_slots_def)
  have "proxy_ServeHTTP e (bounded_request pol r) v = Some (Backend resp, v)"
    if "reg v = reg w1" "closed v = closed w1" for v
  proof -
    have "proxy_dial e (sent_on pol r) v = Inr ()"
      using that live net(1) same device_guards_closed [OF w1] by (simp add: proxy_dial_def DialContext_def)
    moreover have "proxy_round_trip e (sent_on pol r) = Some (Inr resp)" "proxy_body_copy e (sent_on pol r) = Some Copied"
      by (simp_all add: proxy_round_trip_def proxy_body_copy_def net(2,3))
    ultimately show ?thesis by (simp add: proxy_ServeHTTP_def proxy_copied_def)
  qed
  then show ?thesis
    using room same by (simp add: deviceRequest_admitted [OF w1 leaf] Let_def try_send_def)
qed

lemma admitted_closed:
  assumes "admissible pol obs r leaf w" and "deviceRequest e pol obs r w = Some (rep, w')"
  shows "closed w' = closed w"
proof -
  obtain w1 where w1: "device_guards e pol obs r w = Inr w1" using assms(1) device_guards_ok by blast
  have leaf: "leafCertOf (req_TLS r) = Some leaf" using assms(1) by (simp add: admissible_def)
  have frame: "closed v' = closed v" if "proxy_ServeHTTP e q v = Some (rep, v')" for q v rep v'
    using proxy_ServeHTTP_frame [OF that] by auto
  have "closed w' = closed w1"
    using assms(2) by (auto simp: deviceRequest_admitted [OF w1 leaf] reject_def logf_def drop_cert_slot_def Let_def
        dest: frame split: option.splits if_splits)
  then show ?thesis using device_guards_closed [OF w1] by simp
qed

section \<open>As a goroutine\<close>

lemma alone_runs:
  assumes "(alone net pol)\<^sup>*\<^sup>* x y" and "wide net = wide env"
  shows "(sys_step env pol)\<^sup>*\<^sup>* \<lparr>sh = snd x, procs = ps @ [fst x]\<rparr> \<lparr>sh = snd y, procs = ps @ [fst y]\<rparr>"
  using assms(1)
proof (induction rule: rtranclp_induct)
  case (step y z)
  have "sys_step env pol \<lparr>sh = snd y, procs = ps @ [fst y]\<rparr> \<lparr>sh = snd z, procs = ps @ [fst z]\<rparr>"
    using step(2) last_runs [of net pol "fst y" "snd y" "fst z" "snd z" env] assms(2) by (simp add: alone_def)
  with step(3) show ?case by (rule rtranclp.rtrancl_into_rtrancl)
qed simp

lemma request_runs:
  assumes path: "URL_Path r \<noteq> pol_TunnelPath pol" and wide: "wide e = wide env"
    and answer: "deviceRequest e pol obs r (rem (sh s)) = Some (rep, w)"
  shows "(sys_step env pol)\<^sup>*\<^sup>* s \<lparr>sh = (sh s)\<lparr>rem := w\<rparr>, procs = procs s @ [Answered rep]\<rparr>"
proof -
  have "dispatch pol r = DStart r" using path by (simp add: dispatch_def is_tunnel_request_def)
  then have "sys_step env pol s \<lparr>sh = sh s, procs = procs s @ [DStart r]\<rparr>"
    using arrives [of env pol s r] by (cases s) simp
  moreover have "(sys_step env pol)\<^sup>*\<^sup>* \<lparr>sh = sh s, procs = procs s @ [DStart r]\<rparr>
      \<lparr>sh = (sh s)\<lparr>rem := w\<rparr>, procs = procs s @ [Answered rep]\<rparr>"
    using alone_runs [OF deviceRequest_runs [OF answer] wide, of "procs s"] by simp
  ultimately show ?thesis by (rule converse_rtranclp_into_rtranclp)
qed

text \<open>The limiter's invariant holds in every reachable state, so the request gives its slots back.\<close>

lemma reachable_limiter:
  assumes "reachable env pol rl s"
  shows "lim_cap (perCert (rem (sh s))) \<le> 0 \<or> lim_inv (perCert (rem (sh s)))"
  using reachable_budgets [OF assms] by (auto simp: budgets_inv_def)

lemma room_to_acquire:
  assumes inv: "budgets_inv pol s"
    and room: "pol_MaxStreamsPerCert pol \<le> 0 \<or> held_by k (procs s) < nat (pol_MaxStreamsPerCert pol)"
  shows "fst (acquire (perCert (rem (sh s))) k)"
proof -
  have cap: "lim_cap (perCert (rem (sh s))) = pol_MaxStreamsPerCert pol" using inv by (simp only: budgets_inv_def)
  show ?thesis
  proof (cases "pol_MaxStreamsPerCert pol \<le> 0")
    case False
    then have "lim_held (perCert (rem (sh s))) k = held_by k (procs s)"
      using inv unfolding budgets_inv_def by (meson not_le)
    then have "nat (in_use (perCert (rem (sh s))) k) < nat (pol_MaxStreamsPerCert pol)"
      using room False by (simp only: lim_held_def simp_thms)
    then have "\<not> pol_MaxStreamsPerCert pol \<le> in_use (perCert (rem (sh s))) k"
      by (simp only: zless_nat_conj not_le simp_thms)
    then show ?thesis using False unfolding acquire_def cap by (simp only: if_False fst_conv)
  qed (simp add: acquire_def cap)
qed

lemma connected_keeps_budgets:
  "perCert (rem (connected env r sess g)) = perCert (rem g)" "sem (rem (connected env r sess g)) = sem (rem g)"
  "revocation (rem (connected env r sess g)) = revocation (rem g)"
  by (simp_all add: connected_def accept_close_old_def accept_swap_def set_swap_def set_close_old_def logf_def Let_def
      split: option.splits)

text \<open>Neither certificate is on the denylist, as the checks observe the file.\<close>

definition unlisted :: "fs \<Rightarrow> certificate \<Rightarrow> remote \<Rightarrow> bool" where
  "unlisted f cert w = (case revocation w of None \<Rightarrow> True | Some rl \<Rightarrow> serialOf cert \<notin> denied f rl)"

lemma unlisted_admissible:
  assumes "leafCertOf (req_TLS r) = Some leaf" "OUDevice \<in> set (OrganizationalUnit leaf)"
    and "path_guards (pol_AllowedPathPrefixes pol) (URL_Path r)"
    and "live_tunnel (reg w, closed w) = Some (sess, Some home)" "unlisted f leaf w" "unlisted f home w"
  shows "admissible pol (f, f, f, f) r leaf w"
  using assms
  by (auto simp: admissible_def not_revoked_def unlisted_def tunnel_revoked_def denied_def reload_again split: option.splits)

section \<open>Properties\<close>

text \<open>
  C15. Service after a reconnect. From every reachable state, whatever happened before and whatever
  the other goroutines are in the middle of: when the pinned home's upgrade request arrives and
  then a request of an enrolled device for an allowed path, with fewer requests inside than both
  budgets allow and neither certificate on the denylist, the steps of these two goroutines alone
  lead to opencode's response if the network delivers it, with the new tunnel still serving and
  every permit given back.
\<close>

theorem reconnected_home_serves_its_devices:
  fixes r hr :: request and e env :: proxy_env
  assumes reach: "reachable env pol rl s"
    and home: "leafCertOf (req_TLS hr) = Some home" "pinned pol home" "URL_Path hr = pol_TunnelPath pol"
    and fresh: "sess \<notin> issued (sh s)" "sess \<notin> closed (rem (sh s))"
    and device: "leafCertOf (req_TLS r) = Some leaf" "OUDevice \<in> set (OrganizationalUnit leaf)"
      "path_guards (pol_AllowedPathPrefixes pol) (URL_Path r)" "URL_Path r \<noteq> pol_TunnelPath pol"
    and listed: "unlisted f leaf (rem (sh s))" "unlisted f home (rem (sh s))"
    and room: "forwards (procs s) < nat (pol_MaxConcurrentStreams pol)"
      "pol_MaxStreamsPerCert pol \<le> 0 \<or> held_by (serialOf leaf) (procs s) < nat (pol_MaxStreamsPerCert pol)"
    and net: "wide e = wide env" "open_stream e sess = Inr ()"
      "round_trip e (sent_on pol r) = Some (Inr resp)"
      "body_copy e (sent_on pol r) = Some Copied"
  shows "\<exists>t. (sys_step env pol)\<^sup>*\<^sup>* s t \<and> procs t = procs s @ [TServing hr sess, Answered (Backend resp)] \<and>
    RegGet (reg (rem (sh t))) (closed (rem (sh t))) = Some sess \<and>
    perCert (rem (sh t)) = perCert (rem (sh s)) \<and> sem (rem (sh t)) = sem (rem (sh s))"
proof -
  let ?g = "connected env hr sess (sh s)"
  let ?s1 = "\<lparr>sh = ?g, procs = procs s @ [TServing hr sess]\<rparr>"
  have "home_request pol hr" using home by (auto simp: home_request_def)
  then have up: "(sys_step env pol)\<^sup>*\<^sup>* s ?s1" using upgrade_runs home(3) fresh by blast
  have "sessions_inv pol (sh s) (procs s)" using reachable_sessions [OF reach] by blast
  then have "reg_sess (reg (rem (sh s))) \<noteq> Some sess" using sessions_invD(1) fresh(1) by blast
  then have live: "RegGet (reg (rem ?g)) (closed (rem ?g)) = Some sess"
      "live_tunnel (reg (rem ?g), closed (rem ?g)) = Some (sess, Some home)"
    using fresh(2) home(1) by (auto simp: connected_slot RegGet_def live_tunnel_def)
  have budgets: "budgets_inv pol s" by (rule reachable_budgets [OF reach])
  have adm: "admissible pol (f, f, f, f) r leaf (rem ?g)"
    using unlisted_admissible [OF device(1-3) live(2)] listed by (simp add: unlisted_def connected_keeps_budgets)
  have "fst (acquire (perCert (rem ?g)) (serialOf leaf))" "sem_len (sem (rem ?g)) < sem_cap (sem (rem ?g))"
    using room_to_acquire [OF budgets room(2)] room(1) budgets by (simp_all add: connected_keeps_budgets budgets_inv_def)
  from served_through_tunnel [OF adm live(1) this net(2-4)]
  obtain w where w: "deviceRequest e pol (f, f, f, f) r (rem ?g) = Some (Backend resp, w)" by blast
  let ?t = "\<lparr>sh = ?g\<lparr>rem := w\<rparr>, procs = procs s @ [TServing hr sess, Answered (Backend resp)]\<rparr>"
  have "(sys_step env pol)\<^sup>*\<^sup>* ?s1 ?t" using request_runs [OF device(4) net(1), of "(f, f, f, f)" ?s1] w by simp
  with up have run: "(sys_step env pol)\<^sup>*\<^sup>* s ?t" by (rule rtranclp_trans)
  have slots: "perCert w = perCert (rem (sh s))" "sem w = sem (rem (sh s))" "reg w = reg (rem ?g)"
    using device_request_returns_its_slots [of "rem ?g" e pol "(f, f, f, f)" r] w reachable_limiter [OF reach]
    by (simp_all add: connected_keeps_budgets)
  have "closed w = closed (rem ?g)" using admitted_closed [OF adm w] by simp
  then have "RegGet (reg (rem (sh ?t))) (closed (rem (sh ?t))) = Some sess" using live(1) slots(3) by simp
  then show ?thesis using run slots by (intro exI [of _ ?t] conjI) simp_all
qed

theorem reconnected_home_serves_its_devices_witness:
  "\<exists>t. (sys_step quiet_env api_policy)\<^sup>*\<^sup>* (system_start api_policy None) t \<and>
    procs t = [TServing home_upgrade 0, Answered (Backend ''hello'')]"
proof -
  let ?s = "system_start api_policy None" and ?r = "phone_request ''/api''"
  let ?home = "\<lparr>SerialNumber = 3, CommonName = ''home'', OrganizationalUnit = [OUTunnel]\<rparr>"
  let ?e = "quiet_env\<lparr>open_stream := (\<lambda>sess. Inr ()), round_trip := (\<lambda>out. Some (Inr ''hello''))\<rparr>"
  have start: "procs (system_start pol None) = []" "issued (sh (system_start pol None)) = {}"
    "closed (rem (sh (system_start pol None))) = {}" "revocation (rem (sh (system_start pol None))) = None" for pol
    by (simp_all add: system_start_def NewRemoteReverseProxy_def)
  have home: "leafCertOf (req_TLS home_upgrade) = Some ?home" "pinned api_policy ?home"
    "URL_Path home_upgrade = pol_TunnelPath api_policy"
    by (simp_all add: leafCertOf_def home_upgrade_def pinned_def api_policy_def)
  have path: "URL_Path ?r = ''/api''" by (simp add: phone_request_def)
  have device: "OUDevice \<in> set (OrganizationalUnit phone_cert)"
    "path_guards (pol_AllowedPathPrefixes api_policy) (URL_Path ?r)" "URL_Path ?r \<noteq> pol_TunnelPath api_policy"
    using api_admitted path by (simp add: phone_cert_def, simp, simp add: api_policy_def)
  have "\<exists>t. (sys_step quiet_env api_policy)\<^sup>*\<^sup>* ?s t \<and> procs t = procs ?s @ [TServing home_upgrade 0, Answered (Backend ''hello'')] \<and>
    RegGet (reg (rem (sh t))) (closed (rem (sh t))) = Some 0 \<and>
    perCert (rem (sh t)) = perCert (rem (sh ?s)) \<and> sem (rem (sh t)) = sem (rem (sh ?s))"
    by (rule reconnected_home_serves_its_devices
        [OF start_reachable home _ _ phone_leaf device, where e = ?e and f = "listing_fs 1 []"])
      (simp_all add: start unlisted_def forwards_def held_by_def api_policy_def quiet_env_def)
  then show ?thesis using start(1) by auto
qed

end
