(* ===== verification/Gateway.thy ===== *)
theory Gateway
  imports Remote_System "HOL-Library.Multiset"
begin

text \<open>
  What the remote half promises, without its goroutines: a gateway with at most one live tunnel,
  of the pinned home, and a bounded collection of admitted device requests inside. The
  concurrent system of \<open>Remote_System\<close> refines it: each of its steps is a step of the gateway,
  or one the gateway does not see.
\<close>

section \<open>Refinement\<close>

locale simulation =
  fixes cstep :: "'s \<Rightarrow> 's \<Rightarrow> bool"
    and good :: "'s \<Rightarrow> bool"
    and astep :: "'a \<Rightarrow> 'a \<Rightarrow> bool"
    and view :: "'s \<Rightarrow> 'a"
  assumes good_step: "good s \<Longrightarrow> cstep s t \<Longrightarrow> good t"
    and simulates: "good s \<Longrightarrow> cstep s t \<Longrightarrow> astep (view s) (view t) \<or> view t = view s"
begin

lemma runs_refine: "cstep\<^sup>*\<^sup>* s t \<Longrightarrow> good s \<Longrightarrow> good t \<and> astep\<^sup>*\<^sup>* (view s) (view t)"
proof (induction rule: rtranclp_induct)
  case (step t u)
  then have t: "good t" "astep\<^sup>*\<^sup>* (view s) (view t)" by simp_all
  from simulates [OF t(1) step(2)] t(2) have "astep\<^sup>*\<^sup>* (view s) (view u)"
    by (auto intro: rtranclp.rtrancl_into_rtrancl)
  then show ?case using good_step [OF t(1) step(2)] by simp
qed simp

end

section \<open>The gateway\<close>

record gateway =
  gw_tunnel :: "(sid \<times> certificate) option"
  gw_inside :: "certificate multiset"         \<comment> \<open>the certificates of the requests inside\<close>

definition gw_start :: gateway where
  "gw_start = \<lparr>gw_tunnel = None, gw_inside = {#}\<rparr>"

inductive gw_step :: "RemoteProxyPolicy \<Rightarrow> gateway \<Rightarrow> gateway \<Rightarrow> bool" for pol where
  enter: "device_leaf r leaf \<Longrightarrow> path_guards (pol_AllowedPathPrefixes pol) (URL_Path r) \<Longrightarrow>
    size (gw_inside a) < nat (pol_MaxConcurrentStreams pol) \<Longrightarrow>
    0 < pol_MaxStreamsPerCert pol \<longrightarrow>
      size (filter_mset (\<lambda>c. serialOf c = serialOf leaf) (gw_inside a)) < nat (pol_MaxStreamsPerCert pol) \<Longrightarrow>
    gw_step pol a (a\<lparr>gw_inside := add_mset leaf (gw_inside a)\<rparr>)"
| leave: "leaf \<in># gw_inside a \<Longrightarrow> gw_step pol a (a\<lparr>gw_inside := gw_inside a - {#leaf#}\<rparr>)"
| connect: "pinned pol cert \<Longrightarrow> gw_step pol a (a\<lparr>gw_tunnel := Some (s, cert)\<rparr>)"
| disconnect: "gw_step pol a (a\<lparr>gw_tunnel := None\<rparr>)"

inductive_cases gw_stepE: "gw_step pol a b"

section \<open>The view of the system\<close>

definition flying :: "proc \<Rightarrow> certificate multiset" where
  "flying p = (if in_flight p then {#the (cert_of p)#} else {#})"

definition inside :: "proc list \<Rightarrow> certificate multiset" where
  "inside ps = sum_list (map flying ps)"

definition tunnel_view :: "remote \<Rightarrow> (sid \<times> certificate) option" where
  "tunnel_view w =
     (case live_tunnel (reg w, closed w) of Some (s, Some cert) \<Rightarrow> Some (s, cert) | _ \<Rightarrow> None)"

definition gw_view :: "system \<Rightarrow> gateway" where
  "gw_view s = \<lparr>gw_tunnel = tunnel_view (rem (sh s)), gw_inside = inside (procs s)\<rparr>"

lemma inside_simps [simp]: "inside [] = {#}" "inside (p # ps) = flying p + inside ps"
  "inside (ps @ [p]) = inside ps + flying p"
  by (simp_all add: inside_def)

lemma inside_update: "i < length ps \<Longrightarrow> inside (ps[i := p]) + flying (ps ! i) = inside ps + flying p"
proof (induction ps arbitrary: i)
  case (Cons q ps)
  then show ?case by (cases i) (simp_all add: union_ac)
qed simp

lemma size_inside: "size (inside ps) = forwards ps"
  by (induction ps) (simp_all add: flying_def forwards_def)

lemma in_flight_cert: "in_flight p \<Longrightarrow> \<exists>leaf. cert_of p = Some leaf"
  by (cases p) simp_all

lemma inside_of_serial:
  "size (filter_mset (\<lambda>c. serialOf c = k) (inside ps)) = length (filter (\<lambda>p. in_flight p \<and> holds k p) ps)"
proof (induction ps)
  case (Cons p ps)
  then show ?case using in_flight_cert [of p] by (auto simp: flying_def holds_def)
qed simp

lemma length_filter_strict:
  assumes "i < length xs" and "P (xs ! i)" and "\<not> Q (xs ! i)"
  shows "length (filter (\<lambda>x. Q x \<and> P x) xs) < length (filter P xs)"
proof -
  have "filter (\<lambda>x. Q x \<and> P x) xs = filter Q (filter P xs)" by (simp add: conj_commute)
  moreover have "xs ! i \<in> set (filter P xs)" using assms by simp
  ultimately show ?thesis using length_filter_less [of "xs ! i" "filter P xs" Q] assms(3) by simp
qed

section \<open>Each step refines\<close>

lemma tunnel_view_shrinks:
  assumes "reg w' = reg w" and "closed w \<subseteq> closed w'"
  shows "tunnel_view w' = tunnel_view w \<or> tunnel_view w' = None"
  using assms by (auto simp: tunnel_view_def live_tunnel_def split: option.splits)

lemma tunnel_view_clear:
  assumes "reg w' = RegClear (reg w) s" and "closed w' = closed w"
  shows "tunnel_view w' = tunnel_view w \<or> tunnel_view w' = None"
  using assms by (simp add: tunnel_view_def live_tunnel_def RegClear_def split: if_split)

lemma act_tunnel:
  assumes "act env pol p g (p', g')" and "passed pol p"
  shows "tunnel_view (rem g') = tunnel_view (rem g) \<or> tunnel_view (rem g') = None \<or>
    (\<exists>s cert r. p = TAccepted r s \<and> tunnel_view (rem g') = Some (s, cert) \<and> pinned pol cert)"
proof -
  from act_keeps_sessions [OF assms(1)] consider
      (keeps) "keeps_sessions p g p' g'"
    | (accept) r s where "p = TUpgrade r" "p' = TAccepted r s" "rem g' = rem g" "issued g' = insert s (issued g)"
    | (swap) r s where "p = TAccepted r s" "p' = TSwapped r s (reg_sess (reg (rem g)))"
        "reg (rem g') = \<lparr>reg_sess = Some s, reg_cert = leafCertOf (req_TLS r)\<rparr>"
        "closed (rem g') = closed (rem g)" "issued g' = issued g"
    | (clear) r s c where "p = TWoken r s c" "p' = TunnelDone" "reg (rem g') = RegClear (reg (rem g)) s"
        "closed (rem g') = closed (rem g)" "issued g' = issued g"
    by blast
  then show ?thesis
  proof cases
    case keeps
    then show ?thesis using tunnel_view_shrinks [of "rem g'" "rem g"] by (auto simp: keeps_sessions_def)
  next
    case (swap r s)
    obtain leaf where "leafCertOf (req_TLS r) = Some leaf" "pinned pol leaf"
      using assms(2) swap(1) by (auto simp: home_request_def)
    then show ?thesis using swap by (auto simp: tunnel_view_def live_tunnel_def)
  next
    case (clear r s c)
    then show ?thesis using tunnel_view_clear [OF clear(3,4)] by simp
  qed simp
qed

text \<open>Entering and leaving keep the tunnel.\<close>

lemma act_inside:
  assumes "act env pol p g (p', g')"
  shows "flying p' = flying p \<or>
    (\<exists>r leaf. p = DCounted r leaf \<and> p' = DForwarding r leaf \<and> tunnel_view (rem g') = tunnel_view (rem g)) \<or>
    (\<exists>leaf. flying p = {#leaf#} \<and> flying p' = {#} \<and> tunnel_view (rem g') = tunnel_view (rem g))"
proof (cases "guarding p")
  case True
  then show ?thesis using act_checking [OF assms] checking_holds_nothing by (simp add: flying_def)
next
  case False
  from assms show ?thesis
  proof cases
    case (cert_slot r leaf)
    from cert_slot(2) [symmetric] show ?thesis by (rule settle_cases) (use cert_slot in \<open>auto simp: flying_def\<close>)
  next
    case (sem_slot r leaf)
    from sem_slot(2) [symmetric] show ?thesis
      by (rule settle_cases)
        (use sem_slot take_sem_cases in \<open>fastforce simp: flying_def tunnel_view_def\<close>)+
  next
    case (sem_back w rep leaf)
    then show ?thesis using drop_sem_effect [OF sem_back(4)] by (simp add: flying_def tunnel_view_def)
  qed (use False in \<open>simp_all add: flying_def\<close>)
qed

definition gw_good :: "RemoteProxyPolicy \<Rightarrow> system \<Rightarrow> bool" where
  "gw_good pol s \<longleftrightarrow> budgets_inv pol s \<and> list_all (passed pol) (procs s)"

lemma gw_good_step:
  assumes "gw_good pol s" and "sys_step env pol s t"
  shows "gw_good pol t"
  using assms(2)
proof (rule sys_stepE)
  fix i net p g
  assume t: "t = \<lparr>sh = g, procs = (procs s)[i := p]\<rparr>" and i: "i < length (procs s)"
    and act: "act net pol (procs s ! i) (sh s) (p, g)"
  have passed: "list_all (passed pol) (procs s)" using assms(1) by (simp add: gw_good_def)
  then have "passed pol (procs s ! i)" using i by (simp add: list_all_length)
  then show ?thesis
    using list_all_update [OF passed act_passed [OF act]] t
      budgets_inv_step [of pol s env t] assms by (simp add: gw_good_def)
qed (use assms budgets_inv_step in \<open>auto simp: gw_good_def dispatch_def\<close>)

text \<open>A request that takes the last free slots is one the gateway admits.\<close>

lemma room_inside:
  assumes good: "gw_good pol s" and i: "i < length (procs s)" and p: "procs s ! i = DCounted r leaf"
    and room: "try_send (sem (rem (sh s))) \<noteq> None"
  shows "device_leaf r leaf" and "path_guards (pol_AllowedPathPrefixes pol) (URL_Path r)"
    and "size (inside (procs s)) < nat (pol_MaxConcurrentStreams pol)"
    and "0 < pol_MaxStreamsPerCert pol \<longrightarrow>
      size (filter_mset (\<lambda>c. serialOf c = serialOf leaf) (inside (procs s))) < nat (pol_MaxStreamsPerCert pol)"
proof -
  have "passed pol (DCounted r leaf)" using good i p by (metis gw_good_def list_all_length)
  then show "device_leaf r leaf" "path_guards (pol_AllowedPathPrefixes pol) (URL_Path r)" by simp_all
  show "size (inside (procs s)) < nat (pol_MaxConcurrentStreams pol)"
    using good room by (auto simp: size_inside gw_good_def budgets_inv_def try_send_def split: if_splits)
  show "0 < pol_MaxStreamsPerCert pol \<longrightarrow>
      size (filter_mset (\<lambda>c. serialOf c = serialOf leaf) (inside (procs s))) < nat (pol_MaxStreamsPerCert pol)"
  proof
    assume pos: "0 < pol_MaxStreamsPerCert pol"
    let ?k = "serialOf leaf" and ?lim = "perCert (rem (sh s))"
    have lim: "lim_inv ?lim" "lim_held ?lim ?k = held_by ?k (procs s)" "lim_cap ?lim = pol_MaxStreamsPerCert pol"
      using good pos by (simp_all add: gw_good_def budgets_inv_def)
    have "held_by ?k (procs s) \<le> nat (pol_MaxStreamsPerCert pol)"
      using limiter.held_le [OF lim(1), of ?k] lim by simp
    moreover have "size (filter_mset (\<lambda>c. serialOf c = ?k) (inside (procs s))) < held_by ?k (procs s)"
      unfolding inside_of_serial held_by_def
      by (rule length_filter_strict [OF i]) (simp_all add: p holds_def)
    ultimately show "size (filter_mset (\<lambda>c. serialOf c = ?k) (inside (procs s))) < nat (pol_MaxStreamsPerCert pol)"
      by simp
  qed
qed

lemma act_gateway:
  assumes good: "gw_good pol s" and i: "i < length (procs s)" and act: "act env pol (procs s ! i) (sh s) (p, g)"
  shows "gw_step pol (gw_view s) (gw_view \<lparr>sh = g, procs = (procs s)[i := p]\<rparr>) \<or>
    gw_view \<lparr>sh = g, procs = (procs s)[i := p]\<rparr> = gw_view s"
proof -
  let ?t = "\<lparr>sh = g, procs = (procs s)[i := p]\<rparr>"
  note upd = inside_update [OF i, of p]
  have passed: "passed pol (procs s ! i)" using good i by (simp add: gw_good_def list_all_length)
  from act_inside [OF act] show ?thesis
  proof (elim disjE exE conjE)
    assume same: "flying p = flying (procs s ! i)"
    then have "gw_view ?t = (gw_view s)\<lparr>gw_tunnel := tunnel_view (rem g)\<rparr>" using upd by (simp add: gw_view_def)
    then show ?thesis
      using act_tunnel [OF act passed] connect [of pol _ "gw_view s"] disconnect [of pol "gw_view s"]
      by (auto simp: gw_view_def)
  next
    fix r leaf
    assume p: "procs s ! i = DCounted r leaf" "p = DForwarding r leaf"
      and tun: "tunnel_view (rem g) = tunnel_view (rem (sh s))"
    from act_sem_effect [OF act] have "try_send (sem (rem (sh s))) \<noteq> None" by (simp add: p)
    note room = room_inside [OF good i p(1) this]
    have "gw_view ?t = (gw_view s)\<lparr>gw_inside := add_mset leaf (gw_inside (gw_view s))\<rparr>"
      using upd tun by (simp add: gw_view_def p flying_def)
    then show ?thesis using enter [OF room(1,2), of "gw_view s"] room(3,4) by (simp add: gw_view_def)
  next
    fix leaf
    assume f: "flying (procs s ! i) = {#leaf#}" "flying p = {#}"
      and tun: "tunnel_view (rem g) = tunnel_view (rem (sh s))"
    then have ins: "inside (procs s) = add_mset leaf (inside ((procs s)[i := p]))" using upd by simp
    then have "gw_view ?t = (gw_view s)\<lparr>gw_inside := gw_inside (gw_view s) - {#leaf#}\<rparr>"
      using tun by (simp add: gw_view_def)
    then show ?thesis using leave [of leaf "gw_view s" pol] ins by (simp add: gw_view_def)
  qed
qed

interpretation remote_half: simulation "sys_step env pol" "gw_good pol" "gw_step pol" gw_view
  for env pol
proof unfold_locales
  fix s t
  assume good: "gw_good pol s" and step: "sys_step env pol s t"
  then show "gw_good pol t" by (rule gw_good_step)
  from step show "gw_step pol (gw_view s) (gw_view t) \<or> gw_view t = gw_view s"
  proof (rule sys_stepE)
    fix r
    assume "t = s\<lparr>procs := procs s @ [dispatch pol r]\<rparr>"
    then show ?thesis by (simp add: gw_view_def flying_def dispatch_holds_nothing)
  next
    fix i net p g
    assume "t = \<lparr>sh = g, procs = (procs s)[i := p]\<rparr>" and "i < length (procs s)"
      and "act net pol (procs s ! i) (sh s) (p, g)"
    then show ?thesis using act_gateway [OF good] by simp
  next
    fix x
    assume t: "t = s\<lparr>sh := (sh s)\<lparr>rem := (rem (sh s))\<lparr>closed := insert x (closed (rem (sh s)))\<rparr>\<rparr>\<rparr>"
    have "tunnel_view (rem (sh t)) = tunnel_view (rem (sh s)) \<or> tunnel_view (rem (sh t)) = None"
      by (rule tunnel_view_shrinks) (auto simp: t)
    then show ?thesis using disconnect [of pol "gw_view s"] by (auto simp: gw_view_def t)
  next
    assume "t = s\<lparr>sh := (sh s)\<lparr>stopping := True\<rparr>\<rparr>"
    then show ?thesis by (simp add: gw_view_def)
  qed
qed

lemma gw_good_start: "gw_good pol (system_start pol rl)"
  using reachable_budgets [OF start_reachable] reachable_passed [OF start_reachable] by (simp add: gw_good_def)

lemma gw_view_start: "gw_view (system_start pol rl) = gw_start"
  by (simp add: gw_view_def gw_start_def system_start_def tunnel_view_def live_tunnel_def NewRemoteReverseProxy_def
      NewSessionRegistry_def)

section \<open>Properties\<close>

text \<open>
  C8. The concurrent remote half refines the gateway: whatever its goroutines, sessions and
  denylist do, every state it reaches shows a state the gateway reaches, and each single step of
  it shows as one gateway step or none: a request enters only admitted and with room in both
  budgets, leaves once, a tunnel connects only with the pinned certificate and takes the place of
  the one before it, and nothing else changes what is seen.
\<close>

theorem remote_half_refines_gateway:
  assumes "reachable env pol rl s"
  shows "(gw_step pol)\<^sup>*\<^sup>* gw_start (gw_view s) \<and>
    (\<forall>t. sys_step env pol s t \<longrightarrow> gw_step pol (gw_view s) (gw_view t) \<or> gw_view t = gw_view s)"
proof -
  have run: "(sys_step env pol)\<^sup>*\<^sup>* (system_start pol rl) s" using assms by (simp add: reachable_def)
  note r = remote_half.runs_refine [OF run gw_good_start]
  then show ?thesis using remote_half.simulates by (simp add: gw_view_start)
qed

theorem remote_half_refines_gateway_witness:
  "(gw_step api_policy)\<^sup>*\<^sup>* gw_start \<lparr>gw_tunnel = None, gw_inside = {#phone_cert#}\<rparr>"
proof -
  have "gw_view one_forward = \<lparr>gw_tunnel = None, gw_inside = {#phone_cert#}\<rparr>"
    by (simp add: gw_view_def one_forward_def flying_def tunnel_view_def live_tunnel_def idle_remote_def
        NewSessionRegistry_def)
  then show ?thesis using remote_half_refines_gateway [OF one_forward_reachable] by simp
qed

end
