(* ===== verification/Config_File.thy ===== *)
theory Config_File
  imports Config
begin

text \<open>
  Writing a configuration as the JSON file that \<^verbatim>\<open>LoadConfig\<close> reads: the reader of \<open>Go_JSON\<close>
  inverts a plain writer of JSON values, and the decoder of \<open>Config\<close> the rendering of a
  configuration, so that no field is lost, mixed up or rounded on the way through a file.
\<close>

section \<open>Texts of tokens\<close>

text \<open>
  Texts are bytes. A writer keeps them, but for quotes, backslashes and control characters; a reader
  that takes UTF-8 gives every well-formed text back.
\<close>

function valid_utf8 :: "string \<Rightarrow> bool" where
  "valid_utf8 s =
     (if s = [] then True
      else (case decode_rune s of (r, n) \<Rightarrow> (1 < n \<or> r < 128) \<and> valid_utf8 (drop n s)))"
  by pat_completeness auto
termination
  by (relation "measure length") (auto dest: decode_rune_pos)

declare valid_utf8.simps [simp del]

definition escaped :: "char \<Rightarrow> string" where
  "escaped c =
     (let n = (of_char c :: nat)
      in if c = CHR 0x22 \<or> c = CHR 0x5C then [CHR 0x5C, c]
         else if n < 32 then [CHR 0x5C, CHR ''u'', CHR ''0'', CHR ''0'', digit_char (n div 16), digit_char (n mod 16)]
         else [c])"

fun token_text :: "token \<Rightarrow> string" where
  "token_text (TPunct c) = [c]"
| "token_text (TString s) = CHR 0x22 # concat (map escaped s) @ [CHR 0x22]"
| "token_text (TNumber n) = n"
| "token_text (TLiteral v) = (case v of JBool b \<Rightarrow> if b then ''true'' else ''false'' | _ \<Rightarrow> ''null'')"

definition number_ends :: "string \<Rightarrow> bool" where
  "number_ends s \<longleftrightarrow> s = [] \<or> \<not> dec_digit (hd s) \<and> hd s \<noteq> CHR ''.'' \<and> hd s \<noteq> CHR ''e'' \<and> hd s \<noteq> CHR ''E''"

definition integer_text :: "string \<Rightarrow> bool" where
  "integer_text n \<longleftrightarrow> (\<exists>i. n = dec_text i)"

fun good_token :: "token \<Rightarrow> bool" where
  "good_token (TPunct c) = (c \<in> set ''{}[]:,'')"
| "good_token (TString s) = valid_utf8 s"
| "good_token (TNumber n) = integer_text n"
| "good_token (TLiteral v) = (v = JNull \<or> (\<exists>b. v = JBool b))"

lemma hex_digit_inside:
  "d < 16 \<Longrightarrow> 32 \<le> (of_char (digit_char d) :: nat) \<and> digit_char d \<noteq> CHR 0x22 \<and> digit_char d \<noteq> CHR 0x5C"
proof -
  have "list_all (\<lambda>d. 32 \<le> (of_char (digit_char d) :: nat) \<and> digit_char d \<noteq> CHR 0x22 \<and> digit_char d \<noteq> CHR 0x5C) [0..<16]"
    by code_simp
  then show "d < 16 \<Longrightarrow> ?thesis" by (simp add: list_all_iff)
qed

lemma raw_string_escaped:
  "raw_string False (concat (map escaped s) @ CHR 0x22 # rest) = Some (concat (map escaped s), rest)"
proof (induction s)
  case (Cons c s)
  have "of_char c div 16 < (16::nat)" using nat_of_char_less_256 [of c] by (simp add: less_mult_imp_div_less)
  then show ?case
    using Cons hex_digit_inside [of "of_char c div 16"] hex_digit_inside [of "of_char c mod 16"]
    by (simp add: escaped_def [of c] Let_def)
qed simp

lemma unquote_escape:
  "simple_escape e = Some c \<Longrightarrow> e \<noteq> CHR ''u'' \<Longrightarrow> unquote (CHR 0x5C # e # s) = map_option (Cons c) (unquote s)"
  by (subst unquote.simps) simp

lemma unquote_hex:
  assumes "hex4 t = Some r" and "r < 128"
  shows "unquote (CHR 0x5C # CHR ''u'' # t) = map_option (Cons (char_of r)) (unquote (drop 4 t))"
proof -
  have "append [char_of r] = Cons (char_of r :: char)" by (simp add: fun_eq_iff)
  then show ?thesis using assms by (subst unquote.simps) (simp add: encode_rune_def)
qed

lemma hex_control:
  "d < 32 \<Longrightarrow> hex_parse 0 [CHR ''0'', CHR ''0'', digit_char (d div 16), digit_char (d mod 16)] = Some d"
proof -
  assume "d < 32"
  then have "hex_val (digit_char (d div 16)) = Some (d div 16)" "hex_val (digit_char (d mod 16)) = Some (d mod 16)"
    by (auto intro!: hex_val_digit)
  moreover have "hex_val (CHR ''0'') = Some 0" by (simp add: hex_val_def)
  ultimately show ?thesis by simp
qed

lemma unquote_control:
  assumes "(of_char c :: nat) < 32"
  shows "unquote (escaped c @ s) = map_option (Cons c) (unquote s)"
proof -
  let ?n = "of_char c :: nat"
  have "hex_parse 0 [CHR ''0'', CHR ''0'', digit_char (?n div 16), digit_char (?n mod 16)] = Some ?n"
    by (rule hex_control [OF assms])
  then have "hex4 (CHR ''0'' # CHR ''0'' # digit_char (?n div 16) # digit_char (?n mod 16) # s) = Some ?n"
    by (simp add: hex4_def)
  from unquote_hex [OF this] have "unquote (CHR 0x5C # CHR ''u'' # CHR ''0'' # CHR ''0'' # digit_char (?n div 16) #
      digit_char (?n mod 16) # s) = map_option (Cons c) (unquote s)" using assms by simp
  moreover have "escaped c = [CHR 0x5C, CHR ''u'', CHR ''0'', CHR ''0'', digit_char (?n div 16), digit_char (?n mod 16)]"
    using assms by (auto simp: escaped_def Let_def)
  ultimately show ?thesis by (simp only: append_Cons append_Nil)
qed

text \<open>The well-formed sequences of bytes, and the runes they are encoded from.\<close>

lemma two_bytes_rune:
  assumes "two_bytes s"
  shows "\<exists>a b t. s = a # b # t \<and> 128 \<le> (of_char a :: nat) \<and> 128 \<le> (of_char b :: nat) \<and>
    (\<forall>x. \<exists>r. decode_rune (a # b # x) = (r, 2) \<and> encode_rune r = [a, b])"
proof -
  obtain a b t where s: "s = a # b # t"
    using assms by (cases s rule: remdups_adj.cases) (auto simp: two_bytes_def cont_byte_def byte_at_def)
  obtain A B where A: "(of_char a :: nat) = 192 + A" and B: "(of_char b :: nat) = 128 + B"
    using assms by (auto simp: s two_bytes_def cont_byte_def byte_at_def nat_le_iff_add)
  have bounds: "2 \<le> A" "A < 32" "B < 64" using assms by (auto simp: s two_bytes_def cont_byte_def byte_at_def A B)
  have chars: "char_of (192 + A) = a" "char_of (128 + B) = b" using A B by (metis char_of_char)+
  have "decode_rune (a # b # x) = (A * 64 + B, 2)" for x
    using bounds by (simp add: decode_rune_def two_bytes_def cont_byte_def byte_at_def A B)
  moreover have "encode_rune (A * 64 + B) = [a, b]"
    using bounds by (simp add: encode_rune_def chars)
  ultimately show ?thesis using s A B by auto
qed

lemma digits64:
  assumes "b < 64" and "c < 64" and "d < (64 :: nat)"
  shows "(a * 4096 + b * 64 + c) div 4096 = a" "(a * 4096 + b * 64 + c) div 64 mod 64 = b"
    "(a * 4096 + b * 64 + c) mod 64 = c"
    "(a * 262144 + b * 4096 + c * 64 + d) div 262144 = a" "(a * 262144 + b * 4096 + c * 64 + d) div 4096 mod 64 = b"
    "(a * 262144 + b * 4096 + c * 64 + d) div 64 mod 64 = c" "(a * 262144 + b * 4096 + c * 64 + d) mod 64 = d"
proof -
  have digit: "(x * 64 + y) div 64 = x" "(x * 64 + y) mod 64 = y" if "y < 64" for x y :: nat using that by simp_all
  have three: "a * 4096 + b * 64 + c = (a * 64 + b) * 64 + c" for a b c :: nat by simp
  have four: "a * 262144 + b * 4096 + c * 64 + d = ((a * 64 + b) * 64 + c) * 64 + d" by simp
  have powers: "x div 4096 = x div 64 div 64" "x div 262144 = x div 64 div 64 div 64" for x :: nat
    by (simp_all flip: div_mult2_eq)
  show "(a * 4096 + b * 64 + c) div 4096 = a" "(a * 4096 + b * 64 + c) div 64 mod 64 = b"
    "(a * 4096 + b * 64 + c) mod 64 = c"
    unfolding three powers digit [OF assms(1)] digit [OF assms(2)] by (rule refl)+
  show "(a * 262144 + b * 4096 + c * 64 + d) div 262144 = a" "(a * 262144 + b * 4096 + c * 64 + d) div 4096 mod 64 = b"
    "(a * 262144 + b * 4096 + c * 64 + d) div 64 mod 64 = c" "(a * 262144 + b * 4096 + c * 64 + d) mod 64 = d"
    unfolding four powers digit [OF assms(1)] digit [OF assms(2)] digit [OF assms(3)] by (rule refl)+
qed

lemma three_bytes_rune:
  assumes "three_bytes s"
  shows "\<exists>a b c t. s = a # b # c # t \<and> 128 \<le> (of_char a :: nat) \<and> 128 \<le> (of_char b :: nat) \<and> 128 \<le> (of_char c :: nat) \<and>
    (\<forall>x. \<exists>r. decode_rune (a # b # c # x) = (r, 3) \<and> encode_rune r = [a, b, c])"
proof -
  have len: "2 < length s" using assms by (auto simp: three_bytes_def cont_byte_def byte_at_def split: if_splits)
  then obtain a b c t where s: "s = a # b # c # t"
    by (metis Suc_less_eq length_Cons less_nat_zero_code list.exhaust list.size(3) numeral_2_eq_2)
  obtain A B C where A: "(of_char a :: nat) = 224 + A" and B: "(of_char b :: nat) = 128 + B" and C: "(of_char c :: nat) = 128 + C"
    using assms by (auto simp: s three_bytes_def cont_byte_def byte_at_def nat_le_iff_add numeral_2_eq_2)
  have bounds: "A < 16" "B < 64" "C < 64" "A = 0 \<longrightarrow> 32 \<le> B" "A = 13 \<longrightarrow> B \<le> 31"
    using assms by (auto simp: s three_bytes_def cont_byte_def byte_at_def A B C numeral_2_eq_2)
  have chars: "char_of (224 + A) = a" "char_of (128 + B) = b" "char_of (128 + C) = c" using A B C by (metis char_of_char)+
  have dec: "decode_rune (a # b # c # x) = (A * 4096 + B * 64 + C, 3)" for x
  proof -
    have "three_bytes (a # b # c # x)" "\<not> two_bytes (a # b # c # x)"
      using bounds by (simp_all add: two_bytes_def three_bytes_def cont_byte_def byte_at_def A B C numeral_2_eq_2)
    then show ?thesis by (simp add: decode_rune_def byte_at_def A B C numeral_2_eq_2 Let_def)
  qed
  have "2048 \<le> A * 4096 + B * 64 + C" "A * 4096 + B * 64 + C < 65536" using bounds by (cases "A = 0"; simp)+
  moreover have "(A * 4096 + B * 64 + C) div 4096 = A" "(A * 4096 + B * 64 + C) div 64 mod 64 = B"
    "(A * 4096 + B * 64 + C) mod 64 = C" using bounds by (simp_all only: digits64)
  ultimately have "encode_rune (A * 4096 + B * 64 + C) = [a, b, c]" by (simp add: encode_rune_def chars)
  then show ?thesis using s A B C dec by auto
qed


lemma four_bytes_rune:
  assumes "four_bytes s"
  shows "\<exists>a b c d t. s = a # b # c # d # t \<and> 128 \<le> (of_char a :: nat) \<and> 128 \<le> (of_char b :: nat) \<and>
    128 \<le> (of_char c :: nat) \<and> 128 \<le> (of_char d :: nat) \<and>
    (\<forall>x. \<exists>r. decode_rune (a # b # c # d # x) = (r, 4) \<and> encode_rune r = [a, b, c, d])"
proof -
  have len: "3 < length s" using assms by (auto simp: four_bytes_def cont_byte_def byte_at_def split: if_splits)
  then obtain a b c d t where s: "s = a # b # c # d # t"
    by (metis Suc_less_eq length_Cons less_nat_zero_code list.exhaust list.size(3) numeral_3_eq_3)
  obtain A B C D where A: "(of_char a :: nat) = 240 + A" and B: "(of_char b :: nat) = 128 + B"
    and C: "(of_char c :: nat) = 128 + C" and D: "(of_char d :: nat) = 128 + D"
    using assms by (auto simp: s four_bytes_def cont_byte_def byte_at_def nat_le_iff_add numeral_2_eq_2 numeral_3_eq_3)
  have bounds: "A < 5" "B < 64" "C < 64" "D < 64" "A = 0 \<longrightarrow> 16 \<le> B" "A = 4 \<longrightarrow> B \<le> 15"
    using assms by (auto simp: s four_bytes_def cont_byte_def byte_at_def A B C D numeral_2_eq_2 numeral_3_eq_3)
  have chars: "char_of (240 + A) = a" "char_of (128 + B) = b" "char_of (128 + C) = c" "char_of (128 + D) = d"
    using A B C D by (metis char_of_char)+
  let ?r = "A * 262144 + B * 4096 + C * 64 + D"
  have dec: "decode_rune (a # b # c # d # x) = (?r, 4)" for x
  proof -
    have "four_bytes (a # b # c # d # x)" "\<not> two_bytes (a # b # c # d # x)" "\<not> three_bytes (a # b # c # d # x)"
      using bounds by (simp_all add: two_bytes_def three_bytes_def four_bytes_def cont_byte_def byte_at_def A B C D
          numeral_2_eq_2 numeral_3_eq_3)
    then show ?thesis by (simp add: decode_rune_def byte_at_def A B C D numeral_2_eq_2 numeral_3_eq_3 Let_def)
  qed
  have "65536 \<le> ?r" using bounds by (cases "A = 0") simp_all
  moreover have "?r div 262144 = A" "?r div 4096 mod 64 = B" "?r div 64 mod 64 = C" "?r mod 64 = D"
    using bounds by (simp_all only: digits64)
  ultimately have "encode_rune ?r = [a, b, c, d]" by (simp add: encode_rune_def chars)
  then show ?thesis using s A B C D dec by auto
qed

text \<open>A wide rune at the head of a text, and what the reader makes of its bytes.\<close>

lemma wide_rune:
  assumes "decode_rune s = (r, n)" and "1 < n"
  shows "\<exists>u t. s = u @ t \<and> length u = n \<and> list_all (\<lambda>c. 128 \<le> (of_char c :: nat)) u \<and>
    (\<forall>x. \<exists>r. decode_rune (u @ x) = (r, n) \<and> encode_rune r = u)"
proof -
  consider (two) "n = 2" "two_bytes s" | (three) "n = 3" "three_bytes s" | (four) "n = 4" "four_bytes s"
    using assms by (auto simp: decode_rune_def Let_def split: if_splits)
  then show ?thesis
  proof cases
    case two
    obtain a b t where "s = a # b # t" "128 \<le> (of_char a :: nat)" "128 \<le> (of_char b :: nat)"
      "\<forall>x. \<exists>r. decode_rune (a # b # x) = (r, 2) \<and> encode_rune r = [a, b]" using two_bytes_rune [OF two(2)] by blast
    then show ?thesis using two(1) by (intro exI [of _ "[a, b]"] exI [of _ t]) simp
  next
    case three
    obtain a b c t where "s = a # b # c # t" "128 \<le> (of_char a :: nat)" "128 \<le> (of_char b :: nat)" "128 \<le> (of_char c :: nat)"
      "\<forall>x. \<exists>r. decode_rune (a # b # c # x) = (r, 3) \<and> encode_rune r = [a, b, c]"
      using three_bytes_rune [OF three(2)] by blast
    then show ?thesis using three(1) by (intro exI [of _ "[a, b, c]"] exI [of _ t]) simp
  next
    case four
    obtain a b c d t where "s = a # b # c # d # t" "128 \<le> (of_char a :: nat)" "128 \<le> (of_char b :: nat)"
      "128 \<le> (of_char c :: nat)" "128 \<le> (of_char d :: nat)"
      "\<forall>x. \<exists>r. decode_rune (a # b # c # d # x) = (r, 4) \<and> encode_rune r = [a, b, c, d]"
      using four_bytes_rune [OF four(2)] by blast
    then show ?thesis using four(1) by (intro exI [of _ "[a, b, c, d]"] exI [of _ t]) simp
  qed
qed

lemma escaped_wide: "list_all (\<lambda>c. 128 \<le> (of_char c :: nat)) u \<Longrightarrow> concat (map escaped u) = u"
  by (induction u) (auto simp: escaped_def Let_def)

lemma unquote_wide:
  assumes "u \<noteq> []" and "list_all (\<lambda>c. 128 \<le> (of_char c :: nat)) u"
    and "decode_rune (u @ x) = (r, length u)" and "encode_rune r = u"
  shows "unquote (u @ x) = map_option ((@) u) (unquote x)"
proof -
  have "hd (u @ x) \<noteq> CHR 0x5C" using assms(1,2) by (cases u) auto
  then show ?thesis using assms by (subst unquote.simps) simp
qed

lemma unquote_ascii:
  assumes "(of_char c :: nat) < 128"
  shows "unquote (escaped c @ s) = map_option (Cons c) (unquote s)"
proof (cases "(of_char c :: nat) < 32")
  case False
  then show ?thesis
    using assms unquote_plain [of c s] unquote_escape [of "CHR 0x22" "CHR 0x22" s]
      unquote_escape [of "CHR 0x5C" "CHR 0x5C" s]
    by (auto simp: escaped_def [of c] simple_escape_def Let_def)
qed (rule unquote_control)

lemma unquote_escaped: "valid_utf8 s \<Longrightarrow> unquote (concat (map escaped s)) = Some s"
proof (induction s rule: valid_utf8.induct)
  case (1 s)
  show ?case
  proof (cases "s = []")
    case False
    obtain r n where d: "decode_rune s = (r, n)" by fastforce
    with "1.prems" False have ok: "1 < n \<or> r < 128" and rest: "valid_utf8 (drop n s)"
      by (subst (asm) valid_utf8.simps; simp)+
    have IH: "unquote (concat (map escaped (drop n s))) = Some (drop n s)"
      using "1.IH" [OF False d [symmetric]] rest by simp
    show ?thesis
    proof (cases "1 < n")
      case True
      from wide_rune [OF d True] obtain u t where u: "s = u @ t" "length u = n"
        "list_all (\<lambda>c. 128 \<le> (of_char c :: nat)) u" "\<And>x. \<exists>r. decode_rune (u @ x) = (r, n) \<and> encode_rune r = u" by auto
      obtain q where "decode_rune (u @ concat (map escaped t)) = (q, n)" "encode_rune q = u" using u(4) by blast
      then have "unquote (u @ concat (map escaped t)) = map_option ((@) u) (unquote (concat (map escaped t)))"
        using unquote_wide [OF _ u(3), of "concat (map escaped t)" q] u(2) True by (cases "u = []") simp_all
      then show ?thesis using IH u by (simp add: escaped_wide)
    next
      case narrow: False
      obtain c t where s: "s = c # t" using False by (cases s) auto
      have "n = 1" "(of_char c :: nat) < 128"
        using d ok narrow by (auto simp: s decode_rune_def byte_at_def RuneError_def Let_def split: if_splits)
      then show ?thesis using IH unquote_ascii [of c "concat (map escaped t)"] s by simp
    qed
  qed simp
qed

lemma ascii_valid: "list_all (\<lambda>c. (of_char c :: nat) < 128) s \<Longrightarrow> valid_utf8 s"
proof (induction s)
  case (Cons c s)
  then show ?case by (subst valid_utf8.simps) (simp add: decode_rune_def byte_at_def)
qed (simp add: valid_utf8.simps)


section \<open>Integers\<close>

lemma digit_char_zero: "d < 10 \<Longrightarrow> digit_char d = CHR ''0'' \<longleftrightarrow> d = 0"
proof -
  have "list_all (\<lambda>d. digit_char d = CHR ''0'' \<longleftrightarrow> d = 0) [0..<10]" by code_simp
  then show "d < 10 \<Longrightarrow> ?thesis" by (simp add: list_all_iff)
qed

lemmas digit_char10 = digit_char_dec digit_char_zero

lemma decimal_value: "foldl (\<lambda>a c. a * 10 + int (digit_of c)) 0 (radix_text 10 n) = int n"
proof (induction n rule: less_induct)
  case (less n)
  show ?case
  proof (cases "n < 10")
    case True
    then show ?thesis by (simp add: radix_text.simps [of 10 n] digit_char10)
  next
    case False
    then have "foldl (\<lambda>a c. a * 10 + int (digit_of c)) 0 (radix_text 10 (n div 10)) = int (n div 10)"
      by (intro less) simp
    then show ?thesis using False by (subst radix_text.simps) (simp add: digit_char10 zdiv_int zmod_int)
  qed
qed

lemma decimal_head: "0 < n \<Longrightarrow> hd (radix_text 10 n) \<noteq> CHR ''0''"
proof (induction n rule: less_induct)
  case (less n)
  show ?case
  proof (cases "n < 10")
    case True
    then show ?thesis using less.prems by (simp add: radix_text.simps [of 10 n] digit_char10)
  next
    case False
    then have "hd (radix_text 10 (n div 10)) \<noteq> CHR ''0''" by (intro less) simp_all
    then show ?thesis using False by (subst radix_text.simps) (simp add: hd_append)
  qed
qed

lemma decimal_zero: "radix_text 10 0 = ''0''"
  by code_simp

lemma hd_decimal: "dec_digit (hd (radix_text 10 n))"
  using radix_text_digits [of n] radix_text_not_Nil [of 10 n] by (cases "radix_text 10 n") simp_all

lemma digit_not_minus: "dec_digit c \<Longrightarrow> c \<noteq> CHR ''-''"
  by (auto simp: dec_digit_def)

lemma num_integer_decimal:
  assumes "number_ends rest"
  shows "num_integer (radix_text 10 n @ rest) = Some (radix_text 10 n, rest)"
proof (cases "n = 0")
  case True
  then show ?thesis by (simp add: decimal_zero num_integer_def dec_digit_def)
next
  case False
  have "takeWhile dec_digit (radix_text 10 n @ rest) = radix_text 10 n"
    "dropWhile dec_digit (radix_text 10 n @ rest) = rest"
    using radix_text_digits [of n] assms
    by (cases rest; simp add: takeWhile_append2 dropWhile_append2 list_all_iff number_ends_def)+
  then show ?thesis using decimal_head [of n] hd_decimal [of n] False by (simp add: num_integer_def)
qed

lemma lex_decimal:
  assumes "number_ends rest"
  shows "lex_number (dec_text i @ rest) = Some (dec_text i, rest)"
proof -
  have tail: "num_fraction rest = Some ([], rest)" "num_exponent rest = Some ([], rest)"
    using assms by (auto simp: num_fraction_def num_exponent_def number_ends_def)
  have "hd (radix_text 10 n @ rest) \<noteq> CHR ''-''" for n using digit_not_minus [OF hd_decimal [of n]] by simp
  then show ?thesis using num_integer_decimal [OF assms] tail by (simp add: lex_number_def dec_text_def Let_def)
qed

lemma ParseInt_decimal: "in_int64 i \<Longrightarrow> ParseInt (dec_text i) = Some i"
  using digit_not_minus [OF hd_decimal] radix_text_digits decimal_value
  by (simp add: ParseInt_def dec_text_def Let_def)

section \<open>Lexing\<close>

lemma next_token_text:
  assumes "good_token t" and "case t of TNumber n \<Rightarrow> number_ends rest | _ \<Rightarrow> True"
  shows "next_token (token_text t @ rest) = Some (t, rest)"
proof (cases t)
  case (TPunct c)
  then show ?thesis using assms by (simp add: next_token_def)
next
  case (TString s)
  then show ?thesis using assms raw_string_escaped [of s rest] unquote_escaped [of s] by (simp add: next_token_def)
next
  case (TNumber n)
  then obtain i where n: "n = dec_text i" using assms by (auto simp: integer_text_def)
  have head: "n \<noteq> [] \<and> (dec_digit (hd n) \<or> hd n = CHR ''-'')"
    using hd_decimal by (auto simp: n dec_text_def)
  then obtain c m where c: "n = c # m" "dec_digit c \<or> c = CHR ''-''" by (cases n) auto
  then have chars: "c \<notin> set ''{}[]:,'' \<and> c \<noteq> CHR 0x22 \<and> c \<noteq> CHR ''n'' \<and> c \<noteq> CHR ''t'' \<and> c \<noteq> CHR ''f''"
    by (auto simp: dec_digit_def)
  have ends: "number_ends rest" using assms(2) TNumber by simp
  have same: "c # m @ rest = dec_text i @ rest" using c(1) n by (metis append_Cons)
  have lexed: "lex_number (c # m @ rest) = Some (n, rest)" unfolding same n by (rule lex_decimal [OF ends])
  have words: "\<not> HasPrefix (c # x) ''null''" "\<not> HasPrefix (c # x) ''true''" "\<not> HasPrefix (c # x) ''false''" for x
    using chars by (auto simp: HasPrefix_iff_prefix)
  have "next_token (c # m @ rest) = Some (TNumber n, rest)"
    by (simp only: next_token_def list.sel words chars lexed if_False option.case prod.case simp_thms)
  moreover have "token_text t @ rest = c # m @ rest" using TNumber c(1) by simp
  ultimately show ?thesis using TNumber by metis
next
  case (TLiteral v)
  then consider "v = JNull" | "v = JBool True" | "v = JBool False" using assms(1) by auto
  then show ?thesis by cases (simp_all add: TLiteral next_token_def HasPrefix_iff_prefix)
qed

text \<open>A number must not run into what follows it.\<close>

fun lexable :: "token list \<Rightarrow> bool" where
  "lexable [] = True"
| "lexable (t # ts) =
     (good_token t \<and> lexable ts \<and>
      (case t of TNumber n \<Rightarrow> (case ts of [] \<Rightarrow> True | TPunct c # us \<Rightarrow> True | _ \<Rightarrow> False) | _ \<Rightarrow> True))"

lemma token_text_start: "good_token t \<Longrightarrow> token_text t \<noteq> [] \<and> \<not> json_space (hd (token_text t))"
proof (cases t)
  case (TNumber n)
  assume "good_token t"
  then obtain i where n: "n = dec_text i" using TNumber by (auto simp: integer_text_def)
  have "n \<noteq> [] \<and> (dec_digit (hd n) \<or> hd n = CHR ''-'')" using hd_decimal by (auto simp: n dec_text_def)
  then show ?thesis using TNumber by (auto simp: json_space_def dec_digit_def)
qed (auto simp: json_space_def split: if_splits)

lemma lex_texts: "lexable ts \<Longrightarrow> lex (concat (map token_text ts)) = Some ts"
proof (induction ts)
  case Nil
  then show ?case by (simp add: lex.simps)
next
  case (Cons t ts)
  let ?rest = "concat (map token_text ts)"
  have good: "good_token t" and ts: "lexable ts" using Cons.prems by simp_all
  have "case t of TNumber n \<Rightarrow> number_ends ?rest | _ \<Rightarrow> True"
    using Cons.prems ts by (cases t; cases ts) (auto simp: number_ends_def dec_digit_def split: token.splits)
  then have lexed: "next_token (token_text t @ ?rest) = Some (t, ?rest)" using next_token_text [OF good] by blast
  have "dropWhile json_space (token_text t @ ?rest) = token_text t @ ?rest"
    using token_text_start [OF good] by (cases "token_text t") auto
  moreover have "token_text t @ ?rest \<noteq> []" using token_text_start [OF good] by simp
  ultimately show ?case using lexed Cons.IH [OF ts] by (subst lex.simps) simp
qed

section \<open>Parsing\<close>

fun separated :: "token list list \<Rightarrow> token list" where
  "separated [] = []"
| "separated [ts] = ts"
| "separated (ts # tss) = ts @ TPunct CHR '','' # separated tss"

fun tokens :: "json \<Rightarrow> token list" where
  "tokens (JStr s) = [TString s]"
| "tokens (JNum n) = [TNumber n]"
| "tokens (JArr vs) = TPunct CHR ''['' # separated (map tokens vs) @ [TPunct CHR '']'']"
| "tokens (JObj kvs) =
     TPunct CHR ''{'' # separated (map (\<lambda>(k, v). TString k # TPunct CHR '':'' # tokens v) kvs) @ [TPunct CHR ''}'']"
| "tokens v = [TLiteral v]"

fun depth :: "json \<Rightarrow> nat" where
  "depth (JArr vs) = Suc (foldr max (map depth vs) 0)"
| "depth (JObj kvs) = Suc (foldr max (map (\<lambda>(k, v). depth v) kvs) 0)"
| "depth v = 0"

fun writable :: "json \<Rightarrow> bool" where
  "writable (JStr s) = valid_utf8 s"
| "writable (JNum n) = integer_text n"
| "writable (JArr vs) = list_all writable vs"
| "writable (JObj kvs) = list_all (\<lambda>(k, v). valid_utf8 k \<and> writable v) kvs"
| "writable v = True"

definition json_text :: "json \<Rightarrow> string" where
  "json_text v = concat (map token_text (tokens v))"

lemma token_starts_value: "\<exists>t us. tokens v = t # us \<and> t \<noteq> TPunct CHR '']''"
  by (cases v) auto

lemma run_elements:
  assumes "\<And>v fs ts. v \<in> set vs \<Longrightarrow> length fs + depth v \<le> maxNestingDepth \<Longrightarrow>
      json_run (tokens v @ ts) WantValue fs = json_run ts (Have v) fs"
    and "vs \<noteq> []" and "length fs + Suc (foldr max (map depth vs) 0) \<le> maxNestingDepth"
  shows "json_run (separated (map tokens vs) @ TPunct CHR '']'' # ts) WantValue (InArr acc # fs) =
    json_run ts (Have (JArr (acc @ vs))) fs"
  using assms
proof (induction vs arbitrary: acc)
  case (Cons v vs)
  have v: "json_run (tokens v @ us) WantValue (InArr acc # fs) = json_run us (Have v) (InArr acc # fs)" for us
    by (rule Cons.prems(1)) (use Cons.prems(3) in simp_all)
  show ?case
  proof (cases vs)
    case Nil
    then show ?thesis by (simp add: v json_step_def)
  next
    case (Cons w ws)
    have "json_run (separated (map tokens vs) @ TPunct CHR '']'' # ts) WantValue (InArr (acc @ [v]) # fs) =
        json_run ts (Have (JArr ((acc @ [v]) @ vs))) fs"
      by (rule Cons.IH) (use Cons.prems Cons in auto)
    then show ?thesis using Cons by (simp add: v json_step_def)
  qed
qed simp

abbreviation member :: "string \<times> json \<Rightarrow> token list" where
  "member kv \<equiv> (case kv of (k, v) \<Rightarrow> TString k # TPunct CHR '':'' # tokens v)"

lemma run_members:
  assumes "\<And>k v fs ts. (k, v) \<in> set kvs \<Longrightarrow> length fs + depth v \<le> maxNestingDepth \<Longrightarrow>
      json_run (tokens v @ ts) WantValue fs = json_run ts (Have v) fs"
    and "kvs \<noteq> []" and "length fs + Suc (foldr max (map (\<lambda>(k, v). depth v) kvs) 0) \<le> maxNestingDepth"
  shows "json_run (separated (map member kvs) @ TPunct CHR ''}'' # ts) (WantKey acc) fs =
    json_run ts (Have (JObj (acc @ kvs))) fs"
  using assms
proof (induction kvs arbitrary: acc)
  case (Cons kv kvs)
  obtain k v where kv: "kv = (k, v)" by (cases kv)
  have v: "json_run (tokens v @ us) WantValue (InObj acc k # fs) = json_run us (Have v) (InObj acc k # fs)" for us
    by (rule Cons.prems(1) [of k]) (use Cons.prems(3) kv in simp_all)
  show ?case
  proof (cases kvs)
    case Nil
    then show ?thesis by (simp add: kv v json_step_def)
  next
    case (Cons w ws)
    have "json_run (separated (map member kvs) @ TPunct CHR ''}'' # ts) (WantKey (acc @ [kv])) fs =
        json_run ts (Have (JObj ((acc @ [kv]) @ kvs))) fs"
      by (rule Cons.IH) (use Cons.prems Cons in auto)
    then show ?thesis using Cons by (simp add: kv v json_step_def)
  qed
qed simp

lemma run_tokens:
  "length fs + depth v \<le> maxNestingDepth \<Longrightarrow> json_run (tokens v @ ts) WantValue fs = json_run ts (Have v) fs"
proof (induction v arbitrary: fs ts rule: tokens.induct)
  case (3 vs)
  have room: "length fs < maxNestingDepth" using "3.prems" by simp
  show ?case
  proof (cases vs)
    case Nil
    then show ?thesis using room by (simp add: json_step_def open_value_def)
  next
    case (Cons w ws)
    obtain t us where t: "tokens w = t # us" "t \<noteq> TPunct CHR '']''" using token_starts_value by blast
    then obtain us' where head: "separated (map tokens vs) @ [TPunct CHR '']''] = t # us'"
      using Cons by (cases ws) auto
    have "json_run ((separated (map tokens vs) @ [TPunct CHR '']'']) @ ts) WantValueOrEnd fs =
        json_run ((separated (map tokens vs) @ [TPunct CHR '']'']) @ ts) WantValue (InArr [] # fs)"
      using t(2) unfolding head by (simp add: json_step_def)
    also have "\<dots> = json_run ts (Have (JArr vs)) fs"
      using run_elements [of vs fs ts "[]"] "3.IH" "3.prems" Cons by simp
    finally show ?thesis using room by (simp add: json_step_def open_value_def)
  qed
next
  case (4 kvs)
  have room: "length fs < maxNestingDepth" using "4.prems" by simp
  show ?case
  proof (cases kvs)
    case Nil
    then show ?thesis using room by (simp add: json_step_def open_value_def)
  next
    case (Cons w ws)
    then obtain us where head: "separated (map member kvs) @ [TPunct CHR ''}''] = TString (fst w) # us"
      by (cases w; cases ws) auto
    have "json_run ((separated (map member kvs) @ [TPunct CHR ''}'']) @ ts) WantKeyOrEnd fs =
        json_run ((separated (map member kvs) @ [TPunct CHR ''}'']) @ ts) (WantKey []) fs"
      unfolding head by (simp add: json_step_def)
    also have "\<dots> = json_run ts (Have (JObj kvs)) fs"
      using run_members [of kvs fs ts "[]"] "4.IH" "4.prems" Cons by simp
    finally show ?thesis using room by (simp add: json_step_def open_value_def)
  qed
qed (simp_all add: json_step_def open_value_def)

section \<open>The reader inverts the writer\<close>

lemma lexable_append: "lexable xs \<Longrightarrow> lexable (TPunct c # ys) \<Longrightarrow> lexable (xs @ TPunct c # ys)"
  by (induction xs) (auto split: token.splits list.splits)

lemma lexable_separated:
  "list_all lexable tss \<Longrightarrow> good_token (TPunct c) \<Longrightarrow> lexable (separated tss @ [TPunct c])"
proof (induction tss rule: separated.induct)
  case (3 ts us tss)
  then show ?case using lexable_append [of ts "CHR '',''" "separated (us # tss) @ [TPunct c]"] by simp
qed (use lexable_append in auto)

lemma lexable_tokens: "writable v \<Longrightarrow> lexable (tokens v)"
proof (induction v rule: tokens.induct)
  case (3 vs)
  then have "list_all lexable (map tokens vs)" by (auto simp: list_all_iff)
  then show ?case using lexable_separated [of "map tokens vs" "CHR '']''"] by simp
next
  case (4 kvs)
  then have "list_all lexable (map member kvs)" by (fastforce simp: list_all_iff)
  then show ?case using lexable_separated [of "map member kvs" "CHR ''}''"] by simp
qed auto

lemma json_parse_text: "writable v \<Longrightarrow> depth v \<le> maxNestingDepth \<Longrightarrow> json_parse (json_text v) = Some v"
  using lex_texts [OF lexable_tokens] run_tokens [of "[]" v "[]"]
  by (simp add: json_parse_def json_text_def)

section \<open>A configuration as a file\<close>

definition duration_text :: "duration \<Rightarrow> string" where
  "duration_text d = radix_text 10 (nat (sint d)) @ ''ns''"

definition config_json :: "Config \<Rightarrow> json" where
  "config_json c =
     JObj [(''backoff-min'', JStr (duration_text (BackoffMin c))),
           (''backoff-max'', JStr (duration_text (BackoffMax c))),
           (''keepalive-interval'', JStr (duration_text (KeepAliveInterval c))),
           (''stream-open-timeout'', JStr (duration_text (StreamOpenTimeout c))),
           (''read-header-timeout'', JStr (duration_text (ReadHeaderTimeout c))),
           (''idle-timeout'', JStr (duration_text (IdleTimeout c))),
           (''tunnel-path'', JStr (TunnelPath c)),
           (''max-concurrent-streams'', JNum (dec_text (MaxConcurrentStreams c))),
           (''max-request-bytes'', JNum (dec_text (MaxRequestBytes c))),
           (''max-header-bytes'', JNum (dec_text (MaxHeaderBytes c))),
           (''tunnel-cn'', JStr (TunnelCN c)),
           (''allowed-path-prefixes'', JArr (map JStr (AllowedPathPrefixes c))),
           (''max-stream-duration'', JStr (duration_text (MaxStreamDuration c))),
           (''max-streams-per-cert'', JNum (dec_text (MaxStreamsPerCert c)))]"

text \<open>Texts in UTF-8, of any characters, and integers a Go \<open>int\<close> holds.\<close>

definition storable :: "Config \<Rightarrow> bool" where
  "storable c \<longleftrightarrow>
     valid_utf8 (TunnelPath c) \<and> valid_utf8 (TunnelCN c) \<and> list_all valid_utf8 (AllowedPathPrefixes c) \<and>
     list_all in_int64 [MaxConcurrentStreams c, MaxRequestBytes c, MaxHeaderBytes c, MaxStreamsPerCert c]"

lemma duration_text_valid: "valid_utf8 (duration_text d)"
  using radix_text_digits [of "nat (sint d)"]
  by (intro ascii_valid) (auto simp: duration_text_def list_all_iff dec_digit_def)

lemma duration_text_parses: "0 \<le> sint d \<Longrightarrow> ParseDuration frac (duration_text d) = Inr d"
proof -
  assume d: "0 \<le> sint d"
  have "nat (sint d) < 2 ^ 63" using in_int64_sint [of d] by (simp add: in_int64_def nat_less_iff d)
  moreover have "(''ns'', 1) \<in> set unitMap" by (simp add: unitMap_def)
  ultimately show ?thesis
    using whole_durations_exact [of "''ns''" 1 frac "nat (sint d)"] d
    by (simp add: duration_text_def duration_of_def)
qed

lemma depth_strings: "foldr max (map depth (map JStr ss)) 0 = 0"
  by (induction ss) simp_all

lemma config_json_writable:
  assumes "storable c" shows "writable (config_json c)"
proof -
  have "list_all (list_all (\<lambda>c. (of_char c :: nat) < 128)) config_keys" by code_simp
  then have keys: "list_all valid_utf8 config_keys" using ascii_valid by (auto simp: list_all_iff)
  have "list_all writable (map JStr (AllowedPathPrefixes c))"
    using assms by (simp add: storable_def list_all_iff)
  then show ?thesis
    using keys assms duration_text_valid
    by (simp add: config_json_def config_keys_def storable_def integer_text_def) blast
qed

lemma str_elems_strings: "str_elems name old (map JStr ss) = Inr ss"
  by (induction ss arbitrary: old) simp_all

definition full_raw :: "Config \<Rightarrow> configJSON" where
  "full_raw c =
     \<lparr>raw_BackoffMin = Some (duration_text (BackoffMin c)), raw_BackoffMax = Some (duration_text (BackoffMax c)),
      raw_KeepAliveInterval = Some (duration_text (KeepAliveInterval c)),
      raw_StreamOpenTimeout = Some (duration_text (StreamOpenTimeout c)),
      raw_ReadHeaderTimeout = Some (duration_text (ReadHeaderTimeout c)),
      raw_IdleTimeout = Some (duration_text (IdleTimeout c)), raw_TunnelPath = Some (TunnelPath c),
      raw_MaxConcurrentStreams = Some (MaxConcurrentStreams c), raw_MaxRequestBytes = Some (MaxRequestBytes c),
      raw_MaxHeaderBytes = Some (MaxHeaderBytes c), raw_TunnelCN = Some (TunnelCN c),
      raw_AllowedPathPrefixes = Some (AllowedPathPrefixes c),
      raw_MaxStreamDuration = Some (duration_text (MaxStreamDuration c)),
      raw_MaxStreamsPerCert = Some (MaxStreamsPerCert c)\<rparr>"

lemma Decode_config_json: "storable c \<Longrightarrow> Decode (config_json c) = Inr (full_raw c)"
  by (simp add: Decode_def config_json_def field_for_def config_keys_def set_field_def str_ptr_def int_ptr_def
      strs_ptr_def ParseInt_decimal str_elems_strings storable_def full_raw_def empty_raw_def)

lemma layer_full_raw:
  assumes "config_ok c" shows "layer frac (full_raw c) c0 = Inr c"
proof -
  have "\<forall>d\<in>{BackoffMin c, BackoffMax c, KeepAliveInterval c, StreamOpenTimeout c, ReadHeaderTimeout c,
      IdleTimeout c, MaxStreamDuration c}. ParseDuration frac (duration_text d) = Inr d"
    using assms by (auto intro!: duration_text_parses simp: config_ok_def)
  then show ?thesis
    by (simp add: layer_def full_raw_def durationFields_def set_stream_duration_def or_keep_def)
qed

text \<open>
  C32. Round trip of the configuration: every valid configuration whose texts are UTF-8 and whose
  numbers a Go \<open>int\<close> holds, written as a JSON file with each duration in nanoseconds, each number in
  decimal and each text quoted, its quotes, backslashes and control characters escaped, is read back by
  \<open>LoadConfig\<close> as exactly that configuration: no field is lost, lands elsewhere, is rounded,
  falls back to its default, or is rejected.
\<close>

theorem written_config_is_read_back:
  assumes "config_ok c" and "storable c" and "path \<noteq> []"
    and "rd path = Inr (json_text (config_json c))"
  shows "LoadConfig frac rd path = Inr c"
proof -
  have "depth (config_json c) \<le> maxNestingDepth"
    by (simp only: config_json_def depth.simps map_prod_simp list.map prod.case foldr.simps o_apply id_apply
        depth_strings) (simp add: maxNestingDepth_def)
  then have "UnmarshalJSON frac (json_text (config_json c)) DefaultConfig = Inr c"
    using json_parse_text [OF config_json_writable [OF assms(2)]]
    by (simp add: UnmarshalJSON_def Decode_config_json [OF assms(2)] layer_full_raw [OF assms(1)])
  moreover have "validate c = None" using assms(1) validate_None by blast
  ultimately show ?thesis using assms(3,4) by (simp add: LoadConfig_def)
qed

definition odd_config :: Config where
  "odd_config = DefaultConfig\<lparr>BackoffMin := 7, TunnelCN := ''a '' @ [CHR 0x22] @ ''h'' @ [CHR 0xC3, CHR 0xB6] @ ''me'' @ [CHR 0x0A, CHR 0x5C],
     AllowedPathPrefixes := [''/api'', ''/event''], MaxStreamsPerCert := 9223372036854775807\<rparr>"

theorem written_config_is_read_back_witness:
  "LoadConfig (\<lambda>f k u. 0) (\<lambda>p. Inr (json_text (config_json odd_config))) ''config.json'' = Inr odd_config"
proof (rule written_config_is_read_back)
  show "config_ok odd_config"
    by (simp add: odd_config_def config_ok_def DefaultConfig_def Second_def duration_of_def sint_of_int_range
        in_int64_def HasPrefix_def)
  show "storable odd_config"
    by (simp add: odd_config_def storable_def DefaultConfig_def in_int64_def) code_simp
qed simp_all

end
