(* ===== verification/Local_System.thy ===== *)
theory Local_System
  imports Local_Client
begin

text \<open>
  The local half as it runs: the reconnect loop of \<^verbatim>\<open>Run\<close> (\<^verbatim>\<open>local.go\<close>), the goroutine that
  \<^verbatim>\<open>runTunnelSession\<close> (\<^verbatim>\<open>tunnel.go\<close>) starts for every session, the context and the peers, as
  interleaved steps. The wait on a session takes the steps \<open>wait_step\<close> of \<open>closeOnCancel\<close>. The
  section after the invariant shows that the function \<open>Run\<close> of \<open>Local_Client\<close> describes exactly
  the clients these steps can lead to.
\<close>

section \<open>State\<close>

text \<open>Where the loop stands.\<close>

datatype loop_pc =
    Head                     \<comment> \<open>at the test of \<open>ctx.Err()\<close>\<close>
  | Dialing                  \<comment> \<open>in \<open>DialTunnel\<close>\<close>
  | Watching sid wait_pc     \<comment> \<open>in \<open>runTunnelSession\<close>, inside \<open>closeOnCancel\<close> or back from it\<close>
  | Backing                  \<comment> \<open>at \<open>waitToRetry\<close>\<close>
  | Sleeping duration        \<comment> \<open>in \<open>sleepCtx\<close>\<close>
  | Finished                 \<comment> \<open>\<open>Run\<close> has returned nil\<close>

text \<open>The goroutine \<open>errCh \<^bold>\<leftarrow> run(); close(done)\<close>, by the statement it has finished.\<close>

datatype runner =
    RunServing                         \<comment> \<open>in \<open>server.Serve(sess)\<close>\<close>
  | RunServed "serve_error option"     \<comment> \<open>before the send\<close>
  | RunSent "serve_error option"       \<comment> \<open>before \<open>close(done)\<close>\<close>
  | RunGone "serve_error option"

record local_system =
  loop_pc :: loop_pc
  client :: LocalClient
  lctx :: bool                         \<comment> \<open>the context is cancelled\<close>
  dead :: "sid set"                    \<comment> \<open>the sessions that are closed\<close>
  crew :: "sid \<Rightarrow> runner option"        \<comment> \<open>the goroutines started\<close>

definition local_start :: "LocalClient \<Rightarrow> local_system" where
  "local_start c = \<lparr>loop_pc = Head, client = c, lctx = False, dead = {}, crew = (\<lambda>sess. None)\<rparr>"

text \<open>What \<open>errCh\<close> holds, whether \<open>done\<close> is closed, and the state \<open>closeOnCancel\<close> waits in.\<close>

fun errCh :: "runner \<Rightarrow> serve_error option option" where
  "errCh (RunSent e) = Some e"
| "errCh (RunGone e) = Some e"
| "errCh _ = None"

fun gone :: "runner option \<Rightarrow> bool" where
  "gone (Some (RunGone e)) = True"
| "gone _ = False"

definition wait_view :: "local_system \<Rightarrow> sid \<Rightarrow> wait_pc \<Rightarrow> wait_state" where
  "wait_view s sess w =
     \<lparr>wpc = w, ctx_done = lctx s, done_fired = gone (crew s sess), sess_closed = (sess \<in> dead s)\<rparr>"

section \<open>Steps\<close>

definition connected :: "sid \<Rightarrow> LocalClient \<Rightarrow> LocalClient" where
  "connected sess c = clog (''tunnel connected to '' @ lc_remoteURL c) (c\<lparr>lc_dialed := lc_dialed c @ [sess]\<rparr>)"

definition closed_by_loop :: "sid \<Rightarrow> LocalClient \<Rightarrow> LocalClient" where
  "closed_by_loop sess c = c\<lparr>lc_closed := lc_closed c @ [sess]\<rparr>"

text \<open>Between the end of a session that was not cancelled and the wait.\<close>

definition session_ended :: "duration \<Rightarrow> serve_error option \<Rightarrow> LocalClient \<Rightarrow> LocalClient" where
  "session_ended up serveErr c =
     (let c3 = c\<lparr>lc_backoff := ResetIfStable (lc_backoff c) up\<rparr>
      in if serveErr = Some ErrServerClosed then c3
         else clog (''tunnel session ended: '' @ serve_error_text serveErr) c3)"

definition take_delay :: "(int64 \<Rightarrow> int64) \<Rightarrow> LocalClient \<Rightarrow> duration \<times> LocalClient" where
  "take_delay rnd c =
     (let (d, b) = Next rnd (lc_backoff c) in (d, c\<lparr>lc_backoff := b, lc_waits := lc_waits c @ [d]\<rparr>))"

text \<open>
  The steps of the two goroutines. A dial asks the packages afresh, so each has its own \<open>lib\<close>; a
  session it gives is a new one. \<open>Serve\<close> returns once its listener, the session, is closed.
\<close>

inductive own_step ::
  "('d, 'c) TunnelFactory \<Rightarrow> 'cl \<Rightarrow> local_system \<Rightarrow> local_system \<Rightarrow> bool" for f dialer
where
  head_stop: "loop_pc s = Head \<Longrightarrow> lctx s \<Longrightarrow> own_step f dialer s (s\<lparr>loop_pc := Finished\<rparr>)"
| head_go: "loop_pc s = Head \<Longrightarrow> \<not> lctx s \<Longrightarrow> own_step f dialer s (s\<lparr>loop_pc := Dialing\<rparr>)"
| dial_fails: "loop_pc s = Dialing \<Longrightarrow>
    DialTunnel (lib :: (request, 'cl, 'd, 'c) tunnel_lib) f (lc_remoteURL (client s)) dialer = (Inl err, shut_conns) \<Longrightarrow>
    own_step f dialer s (s\<lparr>loop_pc := Backing, client := clog (''tunnel dial failed: '' @ err) (client s)\<rparr>)"
| dial_ok: "loop_pc s = Dialing \<Longrightarrow>
    DialTunnel (lib :: (request, 'cl, 'd, 'c) tunnel_lib) f (lc_remoteURL (client s)) dialer = (Inr sess, shut_conns) \<Longrightarrow>
    sess \<notin> set (lc_dialed (client s)) \<Longrightarrow>
    own_step f dialer s (s\<lparr>loop_pc := Watching sess Selecting, client := connected sess (client s),
      crew := (crew s)(sess \<mapsto> RunServing)\<rparr>)"
| watch: "loop_pc s = Watching sess w \<Longrightarrow> wait_step (wait_view s sess w) v \<Longrightarrow> wpc v \<noteq> w \<Longrightarrow>
    own_step f dialer s (s\<lparr>loop_pc := Watching sess (wpc v),
      dead := (if sess_closed v then insert sess (dead s) else dead s)\<rparr>)"
| run_ends: "crew s sess = Some RunServing \<Longrightarrow> sess \<in> dead s \<Longrightarrow>
    own_step f dialer s (s\<lparr>crew := (crew s)(sess \<mapsto> RunServed e)\<rparr>)"
| run_sends: "crew s sess = Some (RunServed e) \<Longrightarrow>
    own_step f dialer s (s\<lparr>crew := (crew s)(sess \<mapsto> RunSent e)\<rparr>)"
| run_closes_done: "crew s sess = Some (RunSent e) \<Longrightarrow>
    own_step f dialer s (s\<lparr>crew := (crew s)(sess \<mapsto> RunGone e)\<rparr>)"
| back_cancelled: "loop_pc s = Watching sess (Returned True) \<Longrightarrow>
    own_step f dialer s (s\<lparr>loop_pc := Finished, client := closed_by_loop sess (client s)\<rparr>)"
| back_ended: "loop_pc s = Watching sess (Returned False) \<Longrightarrow> crew s sess = Some g \<Longrightarrow> errCh g = Some e \<Longrightarrow>
    own_step f dialer s (s\<lparr>loop_pc := Backing, client := session_ended up e (closed_by_loop sess (client s))\<rparr>)"
| back_off: "loop_pc s = Backing \<Longrightarrow> int63n_spec rnd \<Longrightarrow> take_delay rnd (client s) = (d, c) \<Longrightarrow>
    own_step f dialer s (s\<lparr>loop_pc := Sleeping d, client := c\<rparr>)"
| slept: "loop_pc s = Sleeping d \<Longrightarrow> own_step f dialer s (s\<lparr>loop_pc := Head\<rparr>)"
| sleep_cancelled: "loop_pc s = Sleeping d \<Longrightarrow> lctx s \<Longrightarrow> own_step f dialer s (s\<lparr>loop_pc := Finished\<rparr>)"

text \<open>
  What may happen around them: the signal, the end of a session from the other side or by its
  keep-alive, and \<open>Serve\<close> failing by itself, in which case it closes its listener.
\<close>

inductive world_step :: "local_system \<Rightarrow> local_system \<Rightarrow> bool" where
  signal: "world_step s (s\<lparr>lctx := True\<rparr>)"
| session_dies: "sess \<in> set (lc_dialed (client s)) \<Longrightarrow> world_step s (s\<lparr>dead := insert sess (dead s)\<rparr>)"
| serve_fails: "crew s sess = Some RunServing \<Longrightarrow>
    world_step s (s\<lparr>crew := (crew s)(sess \<mapsto> RunServed e), dead := insert sess (dead s)\<rparr>)"

definition local_step ::
  "('d, 'c) TunnelFactory \<Rightarrow> 'cl \<Rightarrow> local_system \<Rightarrow> local_system \<Rightarrow> bool"
where
  "local_step f dialer s t \<longleftrightarrow> own_step f dialer s t \<or> world_step s t"

inductive_cases own_stepE [consumes 1]: "own_step f dialer s t"
inductive_cases world_stepE [consumes 1]: "world_step s t"

section \<open>Invariant\<close>

text \<open>
  Every session dialed has a goroutine, and it is either the one the loop watches or closed with
  its goroutine gone. \<open>Serve\<close> does not return before its session is closed.
\<close>

fun crew_ok :: "runner option \<Rightarrow> bool \<Rightarrow> bool \<Rightarrow> bool \<Rightarrow> bool" where
  "crew_ok None is_dialed is_dead watched = (\<not> is_dialed)"
| "crew_ok (Some RunServing) is_dialed is_dead watched = (is_dialed \<and> watched)"
| "crew_ok (Some (RunGone e)) is_dialed is_dead watched = (is_dialed \<and> is_dead)"
| "crew_ok (Some g) is_dialed is_dead watched = (is_dialed \<and> is_dead \<and> watched)"

definition crew_inv :: "local_system \<Rightarrow> bool" where
  "crew_inv s \<longleftrightarrow>
     (\<forall>x. crew_ok (crew s x) (x \<in> set (lc_dialed (client s))) (x \<in> dead s) (\<exists>w. loop_pc s = Watching x w))"

definition loop_inv :: "local_system \<Rightarrow> bool" where
  "loop_inv s \<longleftrightarrow>
     (case loop_pc s of
        Watching sess w \<Rightarrow> sess \<in> set (lc_dialed (client s)) \<and> wait_inv (wait_view s sess w) \<and>
          lc_dialed (client s) = lc_closed (client s) @ [sess]
      | Finished \<Rightarrow> lctx s \<and> lc_dialed (client s) = lc_closed (client s)
      | _ \<Rightarrow> lc_dialed (client s) = lc_closed (client s))"

lemma client_lists [simp]:
  "lc_dialed (clog l c) = lc_dialed c" "lc_closed (clog l c) = lc_closed c"
  "lc_waits (clog l c) = lc_waits c" "lc_backoff (clog l c) = lc_backoff c"
  "lc_remoteURL (clog l c) = lc_remoteURL c"
  "lc_dialed (connected x c) = lc_dialed c @ [x]" "lc_closed (connected x c) = lc_closed c"
  "lc_waits (connected x c) = lc_waits c" "lc_backoff (connected x c) = lc_backoff c"
  "lc_remoteURL (connected x c) = lc_remoteURL c"
  "lc_dialed (closed_by_loop x c) = lc_dialed c" "lc_closed (closed_by_loop x c) = lc_closed c @ [x]"
  "lc_waits (closed_by_loop x c) = lc_waits c" "lc_backoff (closed_by_loop x c) = lc_backoff c"
  "lc_remoteURL (closed_by_loop x c) = lc_remoteURL c"
  "lc_dialed (session_ended up e c) = lc_dialed c" "lc_closed (session_ended up e c) = lc_closed c"
  "lc_waits (session_ended up e c) = lc_waits c" "lc_backoff (session_ended up e c) = ResetIfStable (lc_backoff c) up"
  "lc_remoteURL (session_ended up e c) = lc_remoteURL c"
  by (simp_all add: clog_def connected_def closed_by_loop_def session_ended_def Let_def)

lemma take_delay_lists:
  assumes "take_delay rnd c = (d, c')"
  shows "lc_dialed c' = lc_dialed c" "lc_closed c' = lc_closed c" "lc_remoteURL c' = lc_remoteURL c"
    "lc_waits c' = lc_waits c @ [d]" "d = fst (Next rnd (lc_backoff c))" "lc_backoff c' = snd (Next rnd (lc_backoff c))"
  using assms by (auto simp: take_delay_def split_beta Let_def)

lemma errCh_served: "errCh g = Some e \<Longrightarrow> g = RunSent e \<or> g = RunGone e"
  by (cases g) auto

lemma gone_iff: "gone g \<longleftrightarrow> (\<exists>e. g = Some (RunGone e))"
  by (cases g; cases "the g") auto

lemma loop_inv_start: "crew_inv (local_start (NewLocalClient u b))" "loop_inv (local_start (NewLocalClient u b))"
  by (simp_all add: crew_inv_def loop_inv_def local_start_def NewLocalClient_def)

lemma wait_view_moves:
  assumes "wait_step (wait_view s x w) v" and "wpc v \<noteq> w"
  shows "v = wait_view (s\<lparr>loop_pc := p, dead := (if sess_closed v then insert x (dead s) else dead s)\<rparr>) x (wpc v)"
  using assms by (auto elim!: wait_stepE simp: wait_view_def)

lemma crew_ok_dead: "crew_ok g d x w \<Longrightarrow> (x \<longrightarrow> x') \<Longrightarrow> crew_ok g d x' w"
  by (cases "(g, d, x, w)" rule: crew_ok.cases) auto

lemma crew_ok_gone: "gone g \<Longrightarrow> crew_ok g d x w \<longleftrightarrow> d \<and> x"
  by (auto simp: gone_iff)

lemma crew_invD: "crew_inv s \<Longrightarrow>
    crew_ok (crew s x) (x \<in> set (lc_dialed (client s))) (x \<in> dead s) (\<exists>w. loop_pc s = Watching x w)"
  by (simp add: crew_inv_def)

text \<open>Leaving the watch is sound when the goroutine is gone, which is what \<open>closeOnCancel\<close> waits for.\<close>

lemma crew_inv_unwatch:
  assumes "crew_inv s" and "loop_pc s = Watching x (Returned r)" and "loop_inv s"
    and "\<forall>y w. p \<noteq> Watching y w" and "lc_dialed c = lc_dialed (client s)"
  shows "crew_inv (s\<lparr>loop_pc := p, client := c\<rparr>)"
  unfolding crew_inv_def
proof
  fix y
  have "gone (crew s x)" using assms(2,3) by (simp add: loop_inv_def wait_inv_def wait_view_def)
  then show "crew_ok (crew (s\<lparr>loop_pc := p, client := c\<rparr>) y)
      (y \<in> set (lc_dialed (client (s\<lparr>loop_pc := p, client := c\<rparr>)))) (y \<in> dead (s\<lparr>loop_pc := p, client := c\<rparr>))
      (\<exists>w. loop_pc (s\<lparr>loop_pc := p, client := c\<rparr>) = Watching y w)"
    using crew_invD [OF assms(1), of y] assms(2,4,5) by (cases "y = x") (simp_all add: crew_ok_gone)
qed

lemma crew_inv_own: "own_step f dialer s t \<Longrightarrow> crew_inv s \<Longrightarrow> loop_inv s \<Longrightarrow> crew_inv t"
proof (induction rule: own_step.induct)
  case (dial_ok s lib sess shut_conns)
  then show ?case by (auto simp: crew_inv_def dest: spec)
next
  case (watch s x w v)
  then show ?case by (simp add: crew_inv_def) (blast intro: crew_ok_dead)
next
  case (run_ends s sess e)
  from crew_invD [OF run_ends(3), of sess] run_ends(1,2) show ?case
    using run_ends(3) by (auto simp: crew_inv_def)
next
  case (run_sends s sess e)
  from crew_invD [OF run_sends(2), of sess] run_sends(1) show ?case
    using run_sends(2) by (auto simp: crew_inv_def)
next
  case (run_closes_done s sess e)
  from crew_invD [OF run_closes_done(2), of sess] run_closes_done(1) show ?case
    using run_closes_done(2) by (auto simp: crew_inv_def)
next
  case (back_cancelled s x)
  then show ?case by (intro crew_inv_unwatch) simp_all
next
  case (back_ended s x g e up)
  then show ?case by (intro crew_inv_unwatch [where x = x and r = False]) simp_all
next
  case (back_off s rnd d c)
  then show ?case by (simp add: crew_inv_def take_delay_lists)
qed (simp_all add: crew_inv_def)

lemma loop_inv_own: "own_step f dialer s t \<Longrightarrow> loop_inv s \<Longrightarrow> loop_inv t"
proof (induction rule: own_step.induct)
  case (watch s x w v)
  let ?t = "s\<lparr>loop_pc := Watching x (wpc v), dead := (if sess_closed v then insert x (dead s) else dead s)\<rparr>"
  have "wait_inv v" using wait_inv_step watch by (auto simp: loop_inv_def)
  then have "wait_inv (wait_view ?t x (wpc v))" using wait_view_moves [OF watch(2,3)] by simp
  then show ?case using watch by (simp add: loop_inv_def)
next
  case (back_off s rnd d c)
  then show ?case by (simp add: loop_inv_def take_delay_lists)
qed (auto simp: loop_inv_def wait_inv_def wait_view_def split: loop_pc.splits wait_pc.splits if_splits)

lemma crew_inv_world: "world_step s t \<Longrightarrow> crew_inv s \<Longrightarrow> crew_inv t"
proof (induction rule: world_step.induct)
  case (session_dies sess s)
  then show ?case using crew_ok_dead crew_invD by (simp add: crew_inv_def) blast
next
  case (serve_fails s sess e)
  from crew_invD [OF serve_fails(2), of sess] serve_fails(1) show ?case
    using serve_fails(2) by (auto simp: crew_inv_def elim!: allE intro: crew_ok_dead)
qed (simp add: crew_inv_def)

lemma loop_inv_world: "world_step s t \<Longrightarrow> loop_inv s \<Longrightarrow> loop_inv t"
  by (erule world_stepE) (auto simp: loop_inv_def wait_inv_def wait_view_def split: loop_pc.splits wait_pc.splits)

lemma local_inv_run:
  assumes "(local_step f dialer)\<^sup>*\<^sup>* (local_start (NewLocalClient u b)) s"
  shows "crew_inv s \<and> loop_inv s"
  using assms
proof (induction rule: rtranclp_induct)
  case base
  show ?case using loop_inv_start by simp
next
  case (step s t)
  then show ?case
    using crew_inv_own loop_inv_own crew_inv_world loop_inv_world unfolding local_step_def by metis
qed

section \<open>Stopping\<close>

text \<open>The steps the program has left once the context is cancelled.\<close>

fun runner_steps :: "runner option \<Rightarrow> nat" where
  "runner_steps (Some RunServing) = 3"
| "runner_steps (Some (RunServed e)) = 2"
| "runner_steps (Some (RunSent e)) = 1"
| "runner_steps _ = 0"

fun loop_steps :: "loop_pc \<Rightarrow> nat" where
  "loop_steps Dialing = 11"
| "loop_steps (Watching x Selecting) = 7"
| "loop_steps (Watching x Draining) = 6"
| "loop_steps (Watching x (Closing b)) = 5"
| "loop_steps (Watching x (Returned b)) = 4"
| "loop_steps Backing = 3"
| "loop_steps (Sleeping d) = 2"
| "loop_steps Head = 1"
| "loop_steps Finished = 0"

definition steps_left :: "local_system \<Rightarrow> nat" where
  "steps_left s = loop_steps (loop_pc s) +
     (case loop_pc s of Watching x w \<Rightarrow> runner_steps (crew s x) | _ \<Rightarrow> 0)"

lemma gone_steps [simp]: "gone g \<Longrightarrow> runner_steps g = 0"
  by (auto simp: gone_iff)

lemma steps_left_bound: "steps_left s \<le> 11"
proof (cases "loop_pc s")
  case (Watching x w)
  have "runner_steps (crew s x) \<le> 3" by (cases "crew s x" rule: runner_steps.cases) auto
  then show ?thesis using Watching by (cases w) (auto simp: steps_left_def)
qed (simp_all add: steps_left_def)

text \<open>An unfinished goroutine belongs to the session the loop watches.\<close>

lemma crew_watched: "crew_inv s \<Longrightarrow> crew s x = Some g \<Longrightarrow> \<not> gone (Some g) \<Longrightarrow> \<exists>w. loop_pc s = Watching x w"
  using crew_invD [of s x] by (cases g) auto

lemma watch_steps:
  assumes "wait_step (wait_view s x w) v" and "wpc v \<noteq> w"
  shows "loop_steps (Watching x (wpc v)) < loop_steps (Watching x w)"
  using assms by (auto elim!: wait_stepE simp: wait_view_def)

lemma own_step_nearer:
  "own_step f dialer s t \<Longrightarrow> crew_inv s \<Longrightarrow> loop_pc s \<noteq> Dialing \<or> lctx s \<Longrightarrow> loop_pc t \<noteq> Dialing \<Longrightarrow>
   steps_left t < steps_left s"
proof (induction rule: own_step.induct)
  case (watch s x w v)
  then show ?case using watch_steps [OF watch(2,3)] by (simp add: steps_left_def)
next
  case (run_ends s x e)
  then show ?case using crew_watched [OF run_ends(3,1)] by (auto simp: steps_left_def)
next
  case (run_sends s x e)
  then show ?case using crew_watched [OF run_sends(2,1)] by (auto simp: steps_left_def)
next
  case (run_closes_done s x e)
  then show ?case using crew_watched [OF run_closes_done(2,1)] by (auto simp: steps_left_def)
qed (auto simp: steps_left_def)

lemma stopped_does_not_dial: "own_step f dialer s t \<Longrightarrow> crew_inv s \<Longrightarrow> lctx s \<Longrightarrow> loop_pc t = Dialing \<Longrightarrow> False"
  by (erule own_stepE) (auto dest: crew_watched)

lemma own_step_uses: "own_step f dialer s t \<Longrightarrow> crew_inv s \<Longrightarrow> lctx s \<Longrightarrow> steps_left t < steps_left s"
  using own_step_nearer [of f dialer s t] stopped_does_not_dial [of f dialer s t] by blast

lemma world_step_uses: "world_step s t \<Longrightarrow> crew_inv s \<Longrightarrow> steps_left t \<le> steps_left s"
proof (induction rule: world_step.induct)
  case (serve_fails s x e)
  then show ?case using crew_watched [OF serve_fails(2,1)] by (auto simp: steps_left_def)
qed (simp_all add: steps_left_def split: loop_pc.split)

lemma lctx_stays: "local_step f dialer s t \<Longrightarrow> lctx s \<Longrightarrow> lctx t"
  unfolding local_step_def by (auto elim!: own_stepE world_stepE)

text \<open>Once cancelled or cut off, the program is never stuck before it has returned or dials.\<close>

lemma runner_moves:
  assumes "crew s x = Some g" and "x \<in> dead s" and "\<not> gone (Some g)"
  shows "\<exists>t. own_step f dialer s t"
  using assms run_ends [of s x f dialer] run_sends [of s x _ f dialer] run_closes_done [of s x _ f dialer]
  by (cases g) auto

lemma watch_moves:
  assumes "loop_inv s" and "crew_inv s" and "loop_pc s = Watching x w" and "lctx s \<or> x \<in> dead s"
  shows "\<exists>t. own_step f dialer s t"
proof -
  from crew_invD [OF assms(2), of x] assms(1,3) obtain g where g: "crew s x = Some g"
    by (cases "crew s x") (auto simp: loop_inv_def)
  have inv: "wait_inv (wait_view s x w)" using assms(1,3) by (simp add: loop_inv_def)
  have goes: "\<exists>t. own_step f dialer s t" if "wait_step (wait_view s x w) v" "wpc v \<noteq> w" for v
    using watch [OF assms(3) that, of f dialer] by blast
  show ?thesis
  proof (cases w)
    case Selecting
    show ?thesis
    proof (cases "lctx s")
      case True
      then have "wait_step (wait_view s x w) ((wait_view s x w)\<lparr>wpc := Draining, sess_closed := True\<rparr>)"
        using Selecting by (intro select_ctx) (simp_all add: wait_view_def)
      then show ?thesis by (rule goes) (simp add: Selecting)
    next
      case False
      then have "x \<in> dead s" using assms(4) by simp
      moreover have "\<exists>t. own_step f dialer s t" if "gone (Some g)"
      proof -
        have "wait_step (wait_view s x w) ((wait_view s x w)\<lparr>wpc := Closing False\<rparr>)"
          using that g Selecting by (intro select_done) (simp_all add: wait_view_def)
        then show ?thesis by (rule goes) (simp add: Selecting)
      qed
      ultimately show ?thesis using runner_moves [OF g, of f dialer] by blast
    qed
  next
    case Draining
    then have "x \<in> dead s" using inv by (simp add: wait_inv_def wait_view_def)
    moreover have "\<exists>t. own_step f dialer s t" if "gone (Some g)"
    proof -
      have "wait_step (wait_view s x w) ((wait_view s x w)\<lparr>wpc := Closing True\<rparr>)"
        using that g Draining by (intro drained) (simp_all add: wait_view_def)
      then show ?thesis by (rule goes) (simp add: Draining)
    qed
    ultimately show ?thesis using runner_moves [OF g, of f dialer] by blast
  next
    case (Closing r)
    then have "wait_step (wait_view s x w) ((wait_view s x w)\<lparr>wpc := Returned r, sess_closed := True\<rparr>)"
      by (intro close_sess) (simp add: wait_view_def)
    then show ?thesis by (rule goes) (simp add: Closing)
  next
    case (Returned r)
    then have "\<exists>e. errCh g = Some e" using inv g by (auto simp: wait_inv_def wait_view_def gone_iff)
    then show ?thesis
      using back_cancelled [of s x f dialer] back_ended [of s x g _ f dialer] assms(3) Returned g by (cases r) auto
  qed
qed

lemma dialing_moves: "loop_pc s = Dialing \<Longrightarrow> \<exists>t. own_step f dialer s t"
proof -
  assume "loop_pc s = Dialing"
  moreover have "DialTunnel \<lparr>ws_Dial = \<lambda>c u. Inl [], ws_Accept = \<lambda>r. Inl [], ws_NetConn = \<lambda>c k. k,
      yamux_Client = \<lambda>k c. Inl [], yamux_Server = \<lambda>k c. Inl []\<rparr> f (lc_remoteURL (client s)) dialer =
      (Inl (''dial tunnel: '' @ []), [])"
    by (simp add: DialTunnel_def)
  ultimately show ?thesis by (blast intro: dial_fails)
qed

lemma loop_moves:
  assumes "crew_inv s" and "loop_inv s" and "loop_pc s \<noteq> Finished"
    and "lctx s \<or> (\<forall>x w. loop_pc s = Watching x w \<longrightarrow> x \<in> dead s)"
  shows "\<exists>t. own_step f dialer s t"
proof (cases "loop_pc s")
  case Head
  then show ?thesis using head_stop [of s f dialer] head_go [of s f dialer] by blast
next
  case (Watching x w)
  from watch_moves [OF assms(2,1) this, of f dialer] assms(4) Watching show ?thesis by blast
next
  case Backing
  obtain d c where "take_delay (\<lambda>n. 0) (client s) = (d, c)" by (cases "take_delay (\<lambda>n. 0) (client s)")
  from back_off [OF Backing int63n_zero this, of f dialer] show ?thesis by (rule exI)
next
  case (Sleeping d)
  then show ?thesis using slept [of s d f dialer] by blast
qed (use dialing_moves [of s f dialer] assms in auto)

text \<open>Steps of the program counted, with anything the world does between them.\<close>

definition paced_step ::
  "('d, 'c) TunnelFactory \<Rightarrow> 'cl \<Rightarrow> local_system \<Rightarrow> local_system \<Rightarrow> bool"
where
  "paced_step f dialer s t \<longleftrightarrow> (\<exists>u. world_step\<^sup>*\<^sup>* s u \<and> own_step f dialer u t)"

definition stopping_inv :: "local_system \<Rightarrow> bool" where
  "stopping_inv s \<longleftrightarrow> crew_inv s \<and> loop_inv s \<and> lctx s"

lemma stopping_own: "own_step f dialer s t \<Longrightarrow> stopping_inv s \<Longrightarrow> stopping_inv t"
  using crew_inv_own [of f dialer s t] loop_inv_own [of f dialer s t] lctx_stays [of f dialer s t]
  by (simp add: stopping_inv_def local_step_def)

lemma stopping_world: "world_step s t \<Longrightarrow> stopping_inv s \<Longrightarrow> stopping_inv t"
  using crew_inv_world [of s t] loop_inv_world [of s t] by (auto simp: stopping_inv_def elim!: world_stepE)

lemma world_run_uses:
  "world_step\<^sup>*\<^sup>* s t \<Longrightarrow> stopping_inv s \<Longrightarrow> stopping_inv t \<and> steps_left t \<le> steps_left s"
proof (induction rule: rtranclp_induct)
  case (step t u)
  then have t: "stopping_inv t" "steps_left t \<le> steps_left s" by simp_all
  moreover have "stopping_inv u" using stopping_world [OF step(2) t(1)] .
  ultimately show ?case using world_step_uses [OF step(2)] by (fastforce simp: stopping_inv_def)
qed simp

lemma paced_steps_use:
  "(paced_step f dialer ^^ n) s t \<Longrightarrow> stopping_inv s \<Longrightarrow> stopping_inv t \<and> n + steps_left t \<le> steps_left s"
proof (induction n arbitrary: t)
  case (Suc n)
  then obtain m where m: "(paced_step f dialer ^^ n) s m" "paced_step f dialer m t" by auto
  then obtain u where u: "world_step\<^sup>*\<^sup>* m u" "own_step f dialer u t" by (auto simp: paced_step_def)
  from Suc m(1) have "stopping_inv m" "n + steps_left m \<le> steps_left s" by auto
  with world_run_uses [OF u(1)] have "stopping_inv u" "n + steps_left u \<le> steps_left s" by auto
  moreover from this have "stopping_inv t" using stopping_own [OF u(2)] by simp
  ultimately show ?case using own_step_uses [OF u(2)] by (fastforce simp: stopping_inv_def)
qed simp

section \<open>Reconnecting\<close>

text \<open>The same, as long as the loop is neither stopped nor back at its next dial.\<close>

definition redial_step ::
  "('d, 'c) TunnelFactory \<Rightarrow> 'cl \<Rightarrow> local_system \<Rightarrow> local_system \<Rightarrow> bool"
where
  "redial_step f dialer s t \<longleftrightarrow> paced_step f dialer s t \<and> loop_pc s \<noteq> Dialing \<and> \<not> lctx t"

text \<open>A loop whose session is closed, if it has one, and that still owes a wait before it dials.\<close>

definition cut_off :: "local_system \<Rightarrow> bool" where
  "cut_off s \<longleftrightarrow> crew_inv s \<and> loop_inv s \<and> (\<forall>x w. loop_pc s = Watching x w \<longrightarrow> x \<in> dead s)"

fun owes :: "loop_pc \<Rightarrow> nat" where
  "owes (Watching x w) = 1"
| "owes Backing = 1"
| "owes _ = 0"

lemma cut_off_world: "world_step s t \<Longrightarrow> cut_off s \<Longrightarrow> cut_off t \<and> loop_pc t = loop_pc s \<and> client t = client s"
  using crew_inv_world [of s t] loop_inv_world [of s t] by (auto simp: cut_off_def elim!: world_stepE)

lemma cut_off_worlds:
  "world_step\<^sup>*\<^sup>* s t \<Longrightarrow> cut_off s \<Longrightarrow>
   cut_off t \<and> loop_pc t = loop_pc s \<and> client t = client s \<and> steps_left t \<le> steps_left s"
proof (induction rule: rtranclp_induct)
  case (step t u)
  then show ?case using cut_off_world [OF step(2)] world_step_uses [OF step(2)] by (fastforce simp: cut_off_def)
qed simp

lemma cut_off_own:
  assumes "own_step f dialer s t" and "cut_off s" and "loop_pc s \<noteq> Dialing"
  shows "cut_off t"
proof -
  have "crew_inv t" "loop_inv t"
    using crew_inv_own [OF assms(1)] loop_inv_own [OF assms(1)] assms(2) by (simp_all add: cut_off_def)
  moreover have "\<forall>x w. loop_pc t = Watching x w \<longrightarrow> x \<in> dead t"
    using assms by (auto simp: cut_off_def elim!: own_stepE)
  ultimately show ?thesis by (simp add: cut_off_def)
qed

lemma owed_waits:
  assumes "own_step f dialer s t" and "cut_off s" and "loop_pc s \<noteq> Dialing" and "\<not> lctx t"
  shows "\<exists>ds. lc_waits (client t) = lc_waits (client s) @ ds \<and> length ds + owes (loop_pc t) = owes (loop_pc s)"
  using assms
proof (induction rule: own_step.induct)
  case (back_cancelled s x)
  then show ?case by (auto simp: cut_off_def loop_inv_def wait_inv_def wait_view_def)
next
  case (back_off s rnd d c)
  then show ?case by (simp add: take_delay_lists)
qed auto

lemma watching_bound: "loop_pc s = Watching x w \<Longrightarrow> steps_left s \<le> 10"
proof -
  have "runner_steps (crew s x) \<le> 3" by (cases "crew s x" rule: runner_steps.cases) auto
  then show "loop_pc s = Watching x w \<Longrightarrow> steps_left s \<le> 10" by (cases w) (auto simp: steps_left_def)
qed

lemma redial_runs: "(redial_step f dialer ^^ n) s t \<Longrightarrow> t = s \<or> \<not> lctx t"
  by (cases n) (auto simp: redial_step_def)

lemma dials_from_head: "own_step f dialer s t \<Longrightarrow> loop_pc t = Dialing \<Longrightarrow> loop_pc s \<noteq> Dialing \<Longrightarrow> steps_left s = 1"
  by (erule own_stepE) (auto simp: steps_left_def)

lemma redial_steps:
  "(redial_step f dialer ^^ n) s t \<Longrightarrow> cut_off s \<Longrightarrow>
   cut_off t \<and> (if loop_pc t = Dialing then n = 0 \<or> n \<le> steps_left s else n + steps_left t \<le> steps_left s) \<and>
   (\<exists>ds. lc_waits (client t) = lc_waits (client s) @ ds \<and> length ds + owes (loop_pc t) = owes (loop_pc s))"
proof (induction n arbitrary: t)
  case (Suc n)
  then obtain m where m: "(redial_step f dialer ^^ n) s m" "redial_step f dialer m t" by auto
  then obtain u where u: "world_step\<^sup>*\<^sup>* m u" "own_step f dialer u t" "loop_pc m \<noteq> Dialing" "\<not> lctx t"
    by (auto simp: redial_step_def paced_step_def)
  from Suc.IH [OF m(1) Suc.prems(2)] u(3) obtain ds
    where IH: "cut_off m" "n + steps_left m \<le> steps_left s" "lc_waits (client m) = lc_waits (client s) @ ds"
      "length ds + owes (loop_pc m) = owes (loop_pc s)" by auto
  from cut_off_worlds [OF u(1) IH(1)] have w: "cut_off u" "loop_pc u = loop_pc m" "client u = client m"
    "steps_left u \<le> steps_left m" by simp_all
  from owed_waits [OF u(2) w(1) _ u(4)] u(3) w(2) obtain es
    where es: "lc_waits (client t) = lc_waits (client u) @ es" "length es + owes (loop_pc t) = owes (loop_pc u)" by auto
  have "\<exists>ds. lc_waits (client t) = lc_waits (client s) @ ds \<and> length ds + owes (loop_pc t) = owes (loop_pc s)"
    using es w(2,3) IH(3,4) by (intro exI [of _ "ds @ es"]) simp
  moreover have "cut_off t" using cut_off_own [OF u(2) w(1)] u(3) w(2) by simp
  moreover have "Suc n \<le> steps_left s" if "loop_pc t = Dialing"
    using dials_from_head [OF u(2) that] u(3) w(2,4) IH(2) by simp
  moreover have "Suc n + steps_left t \<le> steps_left s" if "loop_pc t \<noteq> Dialing"
    using own_step_nearer [OF u(2) _ _ that] w IH(2) u(3) by (auto simp: cut_off_def)
  ultimately show ?case by simp
qed simp

section \<open>The loop as a function\<close>

text \<open>A round the world can bring about: a draw of \<open>rand.Int63n\<close> and an outcome of \<open>DialTunnel\<close>.\<close>

definition may_happen :: "('d, 'c) TunnelFactory \<Rightarrow> 'cl \<Rightarrow> string \<Rightarrow> round \<Rightarrow> bool" where
  "may_happen f dialer u rd \<longleftrightarrow> int63n_spec (draw rd) \<and>
     (\<exists>lib :: (request, 'cl, 'd, 'c) tunnel_lib. dialed rd = fst (DialTunnel lib f u dialer))"

lemma waitToRetry_delay: "waitToRetry rd c = (\<not> ctx_first rd, snd (take_delay (draw rd) c))"
  by (simp add: waitToRetry_def take_delay_def sleepCtx_def split_beta Let_def)

lemma run_round_parts:
  "run_round rd c =
     (if ctx_err rd then (False, c)
      else
        case dialed rd of
          Inl err \<Rightarrow> (\<not> ctx_first rd, snd (take_delay (draw rd) (clog (''tunnel dial failed: '' @ err) c)))
        | Inr x \<Rightarrow>
            if was_cancelled rd then (False, closed_by_loop x (connected x c))
            else (\<not> ctx_first rd, snd (take_delay (draw rd)
                   (session_ended (up_for rd) (serve_result rd) (closed_by_loop x (connected x c))))))"
  unfolding run_round_def waitToRetry_delay runTunnelSession_def
  by (auto simp: connected_def closed_by_loop_def session_ended_def Let_def split: sum.split)

lemma Run_snoc:
  "Run rds c = (False, c') \<Longrightarrow> Run (rds @ [rd]) c = (case run_round rd c' of (again, c'') \<Rightarrow> (\<not> again, c''))"
proof (induction rds arbitrary: c)
  case (Cons x xs)
  then show ?case by (auto simp: split_beta split: if_splits)
qed (auto simp: split_beta)

text \<open>What the rest of the current round can still make of the client \<open>c0\<close> it began with.\<close>

definition tracks :: "('d, 'c) TunnelFactory \<Rightarrow> 'cl \<Rightarrow> LocalClient \<Rightarrow> local_system \<Rightarrow> bool" where
  "tracks f dialer c0 s \<longleftrightarrow>
     (let ok = may_happen f dialer (lc_remoteURL c0) in
      case loop_pc s of
        Watching x w \<Rightarrow> client s = connected x c0 \<and>
          (\<exists>lib :: (request, 'cl, 'd, 'c) tunnel_lib. fst (DialTunnel lib f (lc_remoteURL c0) dialer) = Inr x)
      | Backing \<Rightarrow> \<forall>rnd stop. int63n_spec rnd \<longrightarrow>
          (\<exists>rd. ok rd \<and> run_round rd c0 = (\<not> stop, snd (take_delay rnd (client s))))
      | Sleeping d \<Rightarrow> \<forall>stop. \<exists>rd. ok rd \<and> run_round rd c0 = (\<not> stop, client s)
      | Finished \<Rightarrow> \<exists>rd. ok rd \<and> run_round rd c0 = (False, client s)
      | _ \<Rightarrow> client s = c0)"

definition a_round :: "(string, sid) result \<Rightarrow> (int64 \<Rightarrow> int64) \<Rightarrow> round" where
  "a_round res rnd = \<lparr>ctx_err = False, dialed = res, was_cancelled = False, serve_result = None,
     up_for = 0, draw = rnd, ctx_first = False\<rparr>"

lemma some_round: "\<exists>res. may_happen f dialer u (a_round res (\<lambda>n. 0))"
  unfolding may_happen_def a_round_def using int63n_zero by auto

lemma tracks_cong:
  "loop_pc s = loop_pc t \<Longrightarrow> client s = client t \<Longrightarrow> tracks f dialer c0 s \<longleftrightarrow> tracks f dialer c0 t"
  by (simp only: tracks_def)

lemma tracks_step:
  assumes "own_step f dialer s t" and "tracks f dialer c0 s" and "\<forall>d. loop_pc s = Sleeping d \<longrightarrow> loop_pc t \<noteq> Head"
  shows "tracks f dialer c0 t"
  using assms
proof (induction rule: own_step.induct)
  case (head_stop s)
  obtain res where r: "may_happen f dialer (lc_remoteURL c0) (a_round res (\<lambda>n. 0))" using some_round [of f dialer] by blast
  let ?rd = "(a_round res (\<lambda>n. 0))\<lparr>ctx_err := True\<rparr>"
  have "may_happen f dialer (lc_remoteURL c0) ?rd" using r by (simp add: may_happen_def a_round_def)
  moreover have "run_round ?rd c0 = (False, c0)" by (simp add: run_round_parts)
  ultimately show ?case using head_stop by (auto simp: tracks_def)
next
  case (dial_fails s lib err shut_conns)
  have "\<exists>rd. may_happen f dialer (lc_remoteURL c0) rd \<and>
      run_round rd c0 = (\<not> stop, snd (take_delay rnd (clog (''tunnel dial failed: '' @ err) c0)))"
    if "int63n_spec rnd" for rnd stop
  proof -
    let ?rd = "(a_round (Inl err) rnd)\<lparr>ctx_first := stop\<rparr>"
    have "dialed ?rd = fst (DialTunnel lib f (lc_remoteURL c0) dialer)"
      using dial_fails by (simp add: tracks_def a_round_def)
    then have "may_happen f dialer (lc_remoteURL c0) ?rd"
      using that by (auto simp: may_happen_def a_round_def)
    then show ?thesis by (intro exI [of _ ?rd]) (simp add: run_round_parts a_round_def)
  qed
  then show ?case using dial_fails by (simp add: tracks_def)
next
  case (dial_ok s lib sess shut_conns)
  then have "\<exists>lib :: (request, 'c, 'a, 'b) tunnel_lib. fst (DialTunnel lib f (lc_remoteURL c0) dialer) = Inr sess"
    by (intro exI [of _ lib]) (simp add: tracks_def)
  then show ?case using dial_ok by (simp add: tracks_def)
next
  case (back_cancelled s x)
  then obtain lib :: "(request, 'c, 'a, 'b) tunnel_lib"
    where lib: "fst (DialTunnel lib f (lc_remoteURL c0) dialer) = Inr x" by (auto simp: tracks_def)
  let ?rd = "(a_round (Inr x) (\<lambda>n. 0))\<lparr>was_cancelled := True\<rparr>"
  have "dialed ?rd = fst (DialTunnel lib f (lc_remoteURL c0) dialer)" by (simp add: lib a_round_def)
  then have "may_happen f dialer (lc_remoteURL c0) ?rd" by (auto simp: may_happen_def a_round_def int63n_zero)
  moreover have "run_round ?rd c0 = (False, closed_by_loop x (connected x c0))"
    by (simp add: run_round_parts a_round_def)
  ultimately show ?case using back_cancelled by (auto simp: tracks_def)
next
  case (back_ended s x g e up)
  then obtain lib :: "(request, 'c, 'a, 'b) tunnel_lib"
    where lib: "fst (DialTunnel lib f (lc_remoteURL c0) dialer) = Inr x" by (auto simp: tracks_def)
  have "\<exists>rd. may_happen f dialer (lc_remoteURL c0) rd \<and> run_round rd c0 =
      (\<not> stop, snd (take_delay rnd (session_ended up e (closed_by_loop x (connected x c0)))))"
    if "int63n_spec rnd" for rnd stop
  proof -
    let ?rd = "(a_round (Inr x) rnd)\<lparr>serve_result := e, up_for := up, ctx_first := stop\<rparr>"
    have "dialed ?rd = fst (DialTunnel lib f (lc_remoteURL c0) dialer)" by (simp add: lib a_round_def)
    then have "may_happen f dialer (lc_remoteURL c0) ?rd"
      using that by (auto simp: may_happen_def a_round_def)
    then show ?thesis by (intro exI [of _ ?rd]) (simp add: run_round_parts a_round_def)
  qed
  then show ?case using back_ended by (simp add: tracks_def)
next
  case (back_off s rnd d c)
  from back_off(1,2,4) have "\<forall>stop. \<exists>rd. may_happen f dialer (lc_remoteURL c0) rd \<and>
      run_round rd c0 = (\<not> stop, snd (take_delay rnd (client s)))" by (simp add: tracks_def)
  then show ?case using back_off(3) by (simp add: tracks_def)
next
  case (sleep_cancelled s d)
  then have "\<forall>stop. \<exists>rd. may_happen f dialer (lc_remoteURL c0) rd \<and> run_round rd c0 = (\<not> stop, client s)"
    by (simp add: tracks_def)
  then obtain rd where "may_happen f dialer (lc_remoteURL c0) rd" "run_round rd c0 = (\<not> True, client s)" by blast
  then show ?case by (auto simp: tracks_def)
next
  case (run_ends s x e)
  show ?case using run_ends(3) by (rule tracks_cong [THEN iffD1, rotated 2]) simp_all
next
  case (run_sends s x e)
  show ?case using run_sends(2) by (rule tracks_cong [THEN iffD1, rotated 2]) simp_all
next
  case (run_closes_done s x e)
  show ?case using run_closes_done(2) by (rule tracks_cong [THEN iffD1, rotated 2]) simp_all
qed (simp_all add: tracks_def)

lemma world_tracks: "world_step s t \<Longrightarrow> tracks f dialer c0 s \<Longrightarrow> tracks f dialer c0 t"
  by (rule tracks_cong [THEN iffD1]) (auto elim!: world_stepE)

lemma run_round_url: "lc_remoteURL (snd (run_round rd c)) = lc_remoteURL c"
  using run_round_effect [of rd c] by (simp add: split_beta Let_def)

lemma own_step_awake: "own_step f dialer s t \<Longrightarrow> loop_pc s = Sleeping d \<Longrightarrow> loop_pc t = Head \<Longrightarrow> client t = client s"
  by (erule own_stepE) auto

text \<open>Every client the steps can lead to is one the function describes.\<close>

lemma steps_follow_rounds:
  assumes "(local_step f dialer)\<^sup>*\<^sup>* (local_start (NewLocalClient u b)) s"
  shows "\<exists>rds c0. list_all (may_happen f dialer u) rds \<and> Run rds (NewLocalClient u b) = (False, c0) \<and>
    lc_remoteURL c0 = u \<and> tracks f dialer c0 s"
  using assms
proof (induction rule: rtranclp_induct)
  case base
  show ?case
    by (intro exI [of _ "[]"] exI [of _ "NewLocalClient u b"]) (simp add: tracks_def local_start_def NewLocalClient_def)
next
  case (step s t)
  then obtain rds c0 where ih: "list_all (may_happen f dialer u) rds" "Run rds (NewLocalClient u b) = (False, c0)"
    "lc_remoteURL c0 = u" "tracks f dialer c0 s" by blast
  show ?case
  proof (cases "\<exists>d. own_step f dialer s t \<and> loop_pc s = Sleeping d \<and> loop_pc t = Head")
    case True
    then obtain d where d: "own_step f dialer s t" "loop_pc s = Sleeping d" "loop_pc t = Head" by blast
    have c: "client t = client s" using own_step_awake [OF d] .
    from ih(3,4) d(2) obtain rd where rd: "may_happen f dialer u rd" "run_round rd c0 = (True, client s)"
      by (auto simp: tracks_def dest: spec [of _ False])
    have "Run (rds @ [rd]) (NewLocalClient u b) = (False, client s)" using Run_snoc [OF ih(2), of rd] rd(2) by simp
    moreover have "lc_remoteURL (client s) = u" using run_round_url [of rd c0] rd(2) ih(3) by simp
    ultimately show ?thesis
      using ih(1) rd(1) c d(3) by (intro exI [of _ "rds @ [rd]"] exI [of _ "client s"]) (simp add: tracks_def)
  next
    case False
    have "tracks f dialer c0 t"
    proof (cases "own_step f dialer s t")
      case True
      then show ?thesis using tracks_step [OF True ih(4)] False by blast
    next
      case False
      then show ?thesis using step(2) world_tracks [OF _ ih(4)] by (simp add: local_step_def)
    qed
    then show ?thesis using ih by blast
  qed
qed

lemma dialed_sessions:
  assumes "(local_step f dialer)\<^sup>*\<^sup>* (local_start (NewLocalClient u b)) s" and "x \<in> set (lc_dialed (client s))"
  shows "(\<exists>w. loop_pc s = Watching x w) \<or> x \<in> dead s \<and> gone (crew s x)"
proof -
  have "crew_inv s" using local_inv_run [OF assms(1)] by simp
  from crew_invD [OF this, of x] assms(2) show ?thesis by (cases "crew s x" rule: gone.cases) auto
qed

lemma dialed_distinct:
  assumes "(local_step f dialer)\<^sup>*\<^sup>* (local_start (NewLocalClient u b)) s"
  shows "distinct (lc_dialed (client s))"
  using assms
proof (induction rule: rtranclp_induct)
  case (step s t)
  then show ?case by (auto simp: local_step_def take_delay_lists elim!: own_stepE world_stepE)
qed (simp add: local_start_def NewLocalClient_def)

text \<open>And the steps can bring about every run of the function, one round at a time.\<close>

lemma local_stepI:
  "own_step f dialer s t \<Longrightarrow> local_step f dialer s t" "world_step s t \<Longrightarrow> local_step f dialer s t"
  by (simp_all add: local_step_def)

abbreviation steps :: "('d, 'c) TunnelFactory \<Rightarrow> 'cl \<Rightarrow> local_system \<Rightarrow> local_system \<Rightarrow> bool" where
  "steps f dialer \<equiv> (local_step f dialer)\<^sup>*\<^sup>*"

lemma runner_finishes:
  assumes "crew s x = Some RunServing" and "x \<in> dead s"
  shows "steps f dialer s (s\<lparr>crew := (crew s)(x \<mapsto> RunGone e)\<rparr>)"
proof -
  let ?s1 = "s\<lparr>crew := (crew s)(x \<mapsto> RunServed e)\<rparr>" and ?s2 = "s\<lparr>crew := (crew s)(x \<mapsto> RunSent e)\<rparr>"
  have "local_step f dialer s ?s1" using assms by (intro local_stepI run_ends)
  moreover have "local_step f dialer ?s1 ?s2" using run_sends [of ?s1 x e f dialer] by (auto intro: local_stepI)
  moreover have "local_step f dialer ?s2 (s\<lparr>crew := (crew s)(x \<mapsto> RunGone e)\<rparr>)"
    using run_closes_done [of ?s2 x e f dialer] by (auto intro: local_stepI)
  ultimately show ?thesis by (meson rtranclp.rtrancl_refl converse_rtranclp_into_rtranclp)
qed

lemma watch_closed:
  assumes "loop_pc s = Watching x w" and "x \<in> dead s" and "w' \<noteq> w"
    and "wait_step (wait_view s x w) ((wait_view s x w)\<lparr>wpc := w', sess_closed := True\<rparr>)"
  shows "own_step f dialer s (s\<lparr>loop_pc := Watching x w'\<rparr>)"
proof -
  have "s\<lparr>loop_pc := Watching x w', dead := dead s\<rparr> = s\<lparr>loop_pc := Watching x w'\<rparr>" by simp
  then show ?thesis using watch [OF assms(1,4), of f dialer] assms(2,3) by (simp add: insert_absorb)
qed

lemma wait_finishes:
  assumes "loop_pc s = Watching x Selecting" and "crew s x = Some RunServing" and "x \<in> set (lc_dialed (client s))"
  shows "\<exists>t. steps f dialer s t \<and> loop_pc t = Watching x (Returned stop) \<and> client t = client s \<and>
    crew t x = Some (RunGone e) \<and> (lctx t \<longleftrightarrow> lctx s \<or> stop)"
proof (cases stop)
  case True
  let ?s1 = "s\<lparr>lctx := True\<rparr>"
  let ?s2 = "?s1\<lparr>loop_pc := Watching x Draining, dead := insert x (dead s)\<rparr>"
  let ?s3 = "?s2\<lparr>crew := (crew s)(x \<mapsto> RunGone e)\<rparr>"
  let ?s4 = "?s3\<lparr>loop_pc := Watching x (Closing True)\<rparr>"
  let ?s5 = "?s4\<lparr>loop_pc := Watching x (Returned True)\<rparr>"
  have "local_step f dialer s ?s1" by (intro local_stepI signal)
  moreover have "local_step f dialer ?s1 ?s2"
    using watch [of ?s1 x Selecting "(wait_view ?s1 x Selecting)\<lparr>wpc := Draining, sess_closed := True\<rparr>" f dialer]
      select_ctx [of "wait_view ?s1 x Selecting"] assms(1) by (auto intro: local_stepI simp: wait_view_def)
  moreover have "steps f dialer ?s2 ?s3" using runner_finishes [of ?s2 x f dialer e] assms(2) by simp
  moreover have "local_step f dialer ?s3 ?s4"
    using drained [of "wait_view ?s3 x Draining"] by (intro local_stepI watch_closed) (simp_all add: wait_view_def)
  moreover have "local_step f dialer ?s4 ?s5"
    using close_sess [of "wait_view ?s4 x (Closing True)" True] watch_closed [of ?s4 x "Closing True" "Returned True" f dialer]
    by (intro local_stepI) (simp add: wait_view_def)
  ultimately have "steps f dialer s ?s5"
    by (meson rtranclp.rtrancl_into_rtrancl rtranclp_trans rtranclp.rtrancl_refl)
  then show ?thesis using True by (intro exI [of _ ?s5]) simp
next
  case False
  let ?s1 = "s\<lparr>dead := insert x (dead s)\<rparr>"
  let ?s2 = "?s1\<lparr>crew := (crew s)(x \<mapsto> RunGone e)\<rparr>"
  let ?s3 = "?s2\<lparr>loop_pc := Watching x (Closing False)\<rparr>"
  let ?s4 = "?s3\<lparr>loop_pc := Watching x (Returned False)\<rparr>"
  have "local_step f dialer s ?s1" using assms(3) by (intro local_stepI session_dies)
  moreover have "steps f dialer ?s1 ?s2" using runner_finishes [of ?s1 x f dialer e] assms(2) by simp
  moreover have "local_step f dialer ?s2 ?s3"
    using select_done [of "wait_view ?s2 x Selecting"] assms(1)
    by (intro local_stepI watch_closed) (simp_all add: wait_view_def)
  moreover have "local_step f dialer ?s3 ?s4"
    using close_sess [of "wait_view ?s3 x (Closing False)" False] watch_closed [of ?s3 x "Closing False" "Returned False" f dialer]
    by (intro local_stepI) (simp add: wait_view_def)
  ultimately have "steps f dialer s ?s4"
    by (meson rtranclp.rtrancl_into_rtrancl rtranclp_trans rtranclp.rtrancl_refl)
  then show ?thesis using False by (intro exI [of _ ?s4]) simp
qed

lemma retry_happens:
  assumes "loop_pc s = Backing" and "int63n_spec rnd" and "\<not> lctx s"
  shows "\<exists>t. steps f dialer s t \<and> client t = snd (take_delay rnd (client s)) \<and>
    loop_pc t = (if stop then Finished else Head) \<and> (\<not> stop \<longrightarrow> \<not> lctx t)"
proof -
  obtain d c where dc: "take_delay rnd (client s) = (d, c)" by (cases "take_delay rnd (client s)")
  let ?s1 = "s\<lparr>loop_pc := Sleeping d, client := c\<rparr>"
  have s1: "local_step f dialer s ?s1" by (intro local_stepI back_off [OF assms(1,2) dc])
  show ?thesis
  proof (cases stop)
    case True
    let ?s2 = "?s1\<lparr>lctx := True\<rparr>"
    have "local_step f dialer ?s1 ?s2" by (intro local_stepI signal)
    moreover have "local_step f dialer ?s2 (?s2\<lparr>loop_pc := Finished\<rparr>)"
      by (intro local_stepI sleep_cancelled) simp_all
    ultimately have "steps f dialer s (?s2\<lparr>loop_pc := Finished\<rparr>)" using s1 by simp
    then show ?thesis using dc True by (intro exI [of _ "?s2\<lparr>loop_pc := Finished\<rparr>"]) simp
  next
    case False
    have "local_step f dialer ?s1 (?s1\<lparr>loop_pc := Head\<rparr>)" by (intro local_stepI slept) simp
    then have "steps f dialer s (?s1\<lparr>loop_pc := Head\<rparr>)" using s1 by simp
    then show ?thesis using dc False assms(3) by (intro exI [of _ "?s1\<lparr>loop_pc := Head\<rparr>"]) simp
  qed
qed

lemma session_happens:
  assumes "loop_pc s = Dialing" and "\<not> lctx s" and "x \<notin> set (lc_dialed (client s))"
    and "fst (DialTunnel (lib :: (request, 'cl, 'd, 'c) tunnel_lib) f (lc_remoteURL (client s)) dialer) = Inr x"
  shows "\<exists>t. steps f dialer s t \<and> loop_pc t = Watching x (Returned stop) \<and> client t = connected x (client s) \<and>
    crew t x = Some (RunGone e) \<and> (lctx t \<longleftrightarrow> stop)"
proof -
  let ?s1 = "s\<lparr>loop_pc := Watching x Selecting, client := connected x (client s), crew := (crew s)(x \<mapsto> RunServing)\<rparr>"
  obtain cs where "DialTunnel lib f (lc_remoteURL (client s)) dialer = (Inr x, cs)"
    using assms(4) by (metis prod.collapse)
  then have "local_step f dialer s ?s1" by (intro local_stepI dial_ok [OF assms(1) _ assms(3)])
  moreover obtain t where t: "steps f dialer ?s1 t" "loop_pc t = Watching x (Returned stop)"
    "client t = client ?s1" "crew t x = Some (RunGone e)" "lctx t \<longleftrightarrow> lctx ?s1 \<or> stop"
    using wait_finishes [of ?s1 x f dialer stop e] by auto
  ultimately have "steps f dialer s t" by (meson converse_rtranclp_into_rtranclp)
  then show ?thesis using t assms(2) by (intro exI [of _ t]) simp
qed

lemma round_happens:
  fixes f :: "('d, 'c) TunnelFactory" and dialer :: 'cl
  assumes "loop_pc s = Head" and "\<not> lctx s" and "may_happen f dialer (lc_remoteURL (client s)) rd"
    and "distinct (lc_dialed (snd (run_round rd (client s))))" and "run_round rd (client s) = (again, c)"
  shows "\<exists>t. steps f dialer s t \<and> client t = c \<and> loop_pc t = (if again then Head else Finished) \<and> (again \<longrightarrow> \<not> lctx t)"
proof (cases "ctx_err rd")
  case True
  let ?s1 = "s\<lparr>lctx := True\<rparr>"
  have "local_step f dialer s ?s1" by (intro local_stepI signal)
  moreover have "local_step f dialer ?s1 (?s1\<lparr>loop_pc := Finished\<rparr>)"
    using assms(1) by (intro local_stepI head_stop) simp_all
  ultimately have "steps f dialer s (?s1\<lparr>loop_pc := Finished\<rparr>)" by simp
  then show ?thesis using assms(5) True by (intro exI [of _ "?s1\<lparr>loop_pc := Finished\<rparr>"]) (auto simp: run_round_parts)
next
  case go: False
  let ?s1 = "s\<lparr>loop_pc := Dialing\<rparr>"
  have s1: "local_step f dialer s ?s1" using assms(1,2) by (intro local_stepI head_go)
  obtain lib :: "(request, 'cl, 'd, 'c) tunnel_lib"
    where lib: "fst (DialTunnel lib f (lc_remoteURL (client s)) dialer) = dialed rd" and rnd: "int63n_spec (draw rd)"
    using assms(3) by (auto simp: may_happen_def)
  show ?thesis
  proof (cases "dialed rd")
    case (Inl err)
    let ?s2 = "?s1\<lparr>loop_pc := Backing, client := clog (''tunnel dial failed: '' @ err) (client s)\<rparr>"
    obtain cs where "DialTunnel lib f (lc_remoteURL (client ?s1)) dialer = (Inl err, cs)"
      using lib Inl by (simp, metis prod.collapse)
    from local_stepI(1) [OF dial_fails [OF _ this]] have s2: "local_step f dialer ?s1 ?s2" by simp
    obtain t where "steps f dialer ?s2 t" "client t = snd (take_delay (draw rd) (client ?s2))"
      "loop_pc t = (if ctx_first rd then Finished else Head)" "\<not> ctx_first rd \<longrightarrow> \<not> lctx t"
      using retry_happens [of ?s2 "draw rd" f dialer "ctx_first rd"] rnd assms(2) by auto
    moreover from this s1 s2 have "steps f dialer s t" by (meson converse_rtranclp_into_rtranclp)
    ultimately show ?thesis using assms(5) go Inl by (intro exI [of _ t]) (auto simp: run_round_parts)
  next
    case (Inr x)
    have "lc_dialed (snd (run_round rd (client s))) = lc_dialed (client s) @ [x]"
      using go Inr by (simp add: run_round_parts take_delay_def split_beta Let_def)
    then have "x \<notin> set (lc_dialed (client s))" using assms(4) by simp
    then obtain t where t: "steps f dialer ?s1 t" "loop_pc t = Watching x (Returned (was_cancelled rd))"
      "client t = connected x (client s)" "crew t x = Some (RunGone (serve_result rd))" "lctx t \<longleftrightarrow> was_cancelled rd"
      using session_happens [of ?s1 x lib f dialer "was_cancelled rd" "serve_result rd"] lib Inr assms(2) by auto
    then have st: "steps f dialer s t" using s1 by (meson converse_rtranclp_into_rtranclp)
    show ?thesis
    proof (cases "was_cancelled rd")
      case True
      let ?v = "t\<lparr>loop_pc := Finished, client := closed_by_loop x (client t)\<rparr>"
      have "local_step f dialer t ?v" using t(2) True by (intro local_stepI back_cancelled) simp
      then have "steps f dialer s ?v" using st by simp
      then show ?thesis using assms(5) go Inr True t(3) by (intro exI [of _ ?v]) (auto simp: run_round_parts)
    next
      case False
      let ?v = "t\<lparr>loop_pc := Backing, client := session_ended (up_for rd) (serve_result rd) (closed_by_loop x (client t))\<rparr>"
      have "local_step f dialer t ?v" using t(2) False by (intro local_stepI back_ended [OF _ t(4)]) simp_all
      moreover obtain v where "steps f dialer ?v v" "client v = snd (take_delay (draw rd) (client ?v))"
        "loop_pc v = (if ctx_first rd then Finished else Head)" "\<not> ctx_first rd \<longrightarrow> \<not> lctx v"
        using retry_happens [of ?v "draw rd" f dialer "ctx_first rd"] rnd t(5) False by auto
      moreover from this calculation(1) st have "steps f dialer s v"
        by (meson rtranclp.rtrancl_into_rtrancl rtranclp_trans)
      ultimately show ?thesis using assms(5) go Inr False t(3) by (intro exI [of _ v]) (auto simp: run_round_parts)
    qed
  qed
qed

lemma Run_dialed: "\<exists>xs. lc_dialed (snd (Run rds c)) = lc_dialed c @ xs"
proof (induction rds arbitrary: c)
  case (Cons rd rds)
  have "\<exists>xs. lc_dialed (snd (run_round rd c)) = lc_dialed c @ xs"
    by (auto simp: run_round_parts take_delay_def split_beta Let_def split: sum.split)
  moreover obtain ys where "lc_dialed (snd (Run rds (snd (run_round rd c)))) = lc_dialed (snd (run_round rd c)) @ ys"
    using Cons.IH by blast
  ultimately show ?case by (auto simp: split_beta)
qed simp

lemma rounds_happen:
  assumes "list_all (may_happen f dialer (lc_remoteURL (client s))) rds" and "Run rds (client s) = (over, c)"
    and "loop_pc s = Head" and "\<not> lctx s" and "distinct (lc_dialed c)"
  shows "\<exists>t. steps f dialer s t \<and> client t = c \<and> loop_pc t = (if over then Finished else Head)"
  using assms
proof (induction rds arbitrary: s)
  case Nil
  then show ?case by (intro exI [of _ s]) simp
next
  case (Cons rd rds)
  obtain again c1 where r: "run_round rd (client s) = (again, c1)" by (cases "run_round rd (client s)")
  have "\<exists>xs. lc_dialed c = lc_dialed c1 @ xs"
    using Cons.prems(2) r Run_dialed [of rds c1] by (cases again) auto
  then have "distinct (lc_dialed c1)" using Cons.prems(5) by auto
  then obtain t where t: "steps f dialer s t" "client t = c1"
    "loop_pc t = (if again then Head else Finished)" "again \<longrightarrow> \<not> lctx t"
    using round_happens [OF Cons.prems(3,4) _ _ r] Cons.prems(1) r by fastforce
  show ?case
  proof (cases again)
    case True
    have "lc_remoteURL c1 = lc_remoteURL (client s)" using run_round_url [of rd "client s"] r by simp
    then obtain v where "steps f dialer t v" "client v = c" "loop_pc v = (if over then Finished else Head)"
      using Cons.IH [of t] Cons.prems t True r by fastforce
    moreover from t(1) this(1) have "steps f dialer s v" by (rule rtranclp_trans)
    ultimately show ?thesis by blast
  next
    case False
    then show ?thesis using t Cons.prems(2) r by (intro exI [of _ t]) auto
  qed
qed

section \<open>Delays\<close>

abbreviation within :: "duration \<Rightarrow> duration \<Rightarrow> duration \<Rightarrow> bool" where
  "within mn mx d \<equiv> sint mn \<le> sint d \<and> sint d \<le> sint mx"

definition delay_inv :: "duration \<Rightarrow> duration \<Rightarrow> local_system \<Rightarrow> bool" where
  "delay_inv mn mx s \<longleftrightarrow>
     (let b = lc_backoff (client s) in backoff_inv b \<and> bo_min b = mn \<and> bo_max b = mx) \<and>
     list_all (within mn mx) (lc_waits (client s)) \<and>
     (\<forall>d. loop_pc s = Sleeping d \<longrightarrow> within mn mx d)"

lemma delay_inv_step: "local_step f dialer s t \<Longrightarrow> delay_inv mn mx s \<Longrightarrow> delay_inv mn mx t"
proof -
  have "delay_inv mn mx t" if "own_step f dialer s t" "delay_inv mn mx s"
    using that
  proof (induction rule: own_step.induct)
    case (back_off s rnd d c)
    then have "within mn mx d" "backoff_inv (lc_backoff c)" "bo_min (lc_backoff c) = mn" "bo_max (lc_backoff c) = mx"
      using backoff.nxt_delay [of "lc_backoff (client s)" rnd] take_delay_lists [OF back_off(3)]
      by (auto simp: delay_inv_def Let_def nextBase_inv)
    then show ?case using back_off by (simp add: delay_inv_def take_delay_lists)
  qed (simp_all add: delay_inv_def Let_def ResetIfStable_inv)
  moreover have "delay_inv mn mx t" if "world_step s t" "delay_inv mn mx s"
    using that by (auto elim!: world_stepE simp: delay_inv_def)
  ultimately show "local_step f dialer s t \<Longrightarrow> delay_inv mn mx s \<Longrightarrow> delay_inv mn mx t"
    by (auto simp: local_step_def)
qed

lemma delay_inv_run:
  assumes "0 < sint mn" and "sint mn \<le> sint mx" and "steps f dialer (local_start (NewLocalClient u (NewBackoff mn mx))) s"
  shows "delay_inv mn mx s"
  using assms(3)
proof (induction rule: rtranclp_induct)
  case base
  show ?case
    using NewBackoff_inv [OF assms(1,2)] by (simp add: delay_inv_def local_start_def NewLocalClient_def NewBackoff_def)
qed (rule delay_inv_step)

lemma redial_delays: "(redial_step f dialer ^^ n) s t \<Longrightarrow> delay_inv mn mx s \<Longrightarrow> delay_inv mn mx t"
proof (induction n arbitrary: t)
  case (Suc n)
  then obtain m' where "(redial_step f dialer ^^ n) s m'" "redial_step f dialer m' t" by auto
  then obtain m u where m: "(redial_step f dialer ^^ n) s m" "world_step\<^sup>*\<^sup>* m u" "own_step f dialer u t"
    unfolding redial_step_def [of f dialer m'] paced_step_def by blast
  have "delay_inv mn mx m" using Suc m(1) by simp
  with m(2) have "delay_inv mn mx u"
    by (induction rule: rtranclp_induct) (auto intro: delay_inv_step [of f dialer] local_stepI)
  then show ?case using delay_inv_step [OF local_stepI(1) [OF m(3)]] by simp
qed simp

lemma waits_in_range:
  assumes "0 < sint mn" and "sint mn \<le> sint mx" and "steps f dialer (local_start (NewLocalClient u (NewBackoff mn mx))) s"
  shows "list_all (within mn mx) (lc_waits (client s))"
    and "case loop_pc s of Sleeping d \<Rightarrow> within mn mx d | _ \<Rightarrow> True"
    and "attempt (lc_backoff (client s)) \<le> 63"
  using delay_inv_run [OF assms] attempt_below_64 by (auto simp: delay_inv_def Let_def split: loop_pc.split)

lemma url_stays: "local_step f dialer s t \<Longrightarrow> lc_remoteURL (client t) = lc_remoteURL (client s)"
  by (auto simp: local_step_def take_delay_lists elim!: own_stepE world_stepE)

lemma url_kept: "steps f dialer s t \<Longrightarrow> lc_remoteURL (client t) = lc_remoteURL (client s)"
  by (induction rule: rtranclp_induct) (auto dest: url_stays)

text \<open>A home that cannot reach the remote half.\<close>

lemma home_waits:
  "\<exists>s d. steps f dialer (local_start c) s \<and> loop_pc s = Sleeping d \<and> lc_waits (client s) = lc_waits c @ [d]"
proof -
  let ?s0 = "local_start c"
  let ?s1 = "?s0\<lparr>loop_pc := Dialing\<rparr>"
  have s1: "local_step f dialer ?s0 ?s1" by (intro local_stepI head_go) (simp_all add: local_start_def)
  have "DialTunnel \<lparr>ws_Dial = \<lambda>c u. Inl ''refused'', ws_Accept = \<lambda>r. Inl [], ws_NetConn = \<lambda>c k. k,
      yamux_Client = \<lambda>k c. Inl [], yamux_Server = \<lambda>k c. Inl []\<rparr> f (lc_remoteURL (client ?s1)) dialer =
      (Inl (''dial tunnel: '' @ ''refused''), [])"
    by (simp add: DialTunnel_def)
  from dial_fails [OF _ this] obtain s2
    where s2: "local_step f dialer ?s1 s2" "loop_pc s2 = Backing" "lc_waits (client s2) = lc_waits c"
    by (fastforce simp: local_step_def local_start_def)
  obtain d c' where dc: "take_delay (\<lambda>n. 0) (client s2) = (d, c')" by (cases "take_delay (\<lambda>n. 0) (client s2)")
  have "local_step f dialer s2 (s2\<lparr>loop_pc := Sleeping d, client := c'\<rparr>)"
    by (intro local_stepI back_off [OF s2(2) int63n_zero dc])
  with s1 s2(1) have "steps f dialer ?s0 (s2\<lparr>loop_pc := Sleeping d, client := c'\<rparr>)"
    by (meson rtranclp.rtrancl_refl converse_rtranclp_into_rtranclp)
  then show ?thesis
    using s2(3) take_delay_lists(4) [OF dc]
    by (intro exI [of _ "s2\<lparr>loop_pc := Sleeping d, client := c'\<rparr>"] exI [of _ d]) simp
qed

section \<open>The end of the loop\<close>

text \<open>
  Once the context is cancelled, \<open>Run\<close> returns: it and its goroutine take at most eleven more steps
  of their own, whatever the peers do between them, and they stop only when it has returned.
\<close>

lemma cancelled_loop_returns:
  assumes "steps f dialer (local_start (NewLocalClient u b)) s" and "lctx s" and "(paced_step f dialer ^^ n) s t"
  shows "n \<le> 11" and "(\<exists>v. own_step f dialer t v) \<longleftrightarrow> loop_pc t \<noteq> Finished"
proof -
  have "stopping_inv s" using local_inv_run [OF assms(1)] assms(2) by (simp add: stopping_inv_def)
  from paced_steps_use [OF assms(3) this] have t: "stopping_inv t" "n + steps_left t \<le> steps_left s" by auto
  have "\<not> own_step f dialer t v" if "loop_pc t = Finished" for v
    using own_step_uses [of f dialer t v] t(1) that by (auto simp: stopping_inv_def steps_left_def)
  then show "(\<exists>v. own_step f dialer t v) \<longleftrightarrow> loop_pc t \<noteq> Finished"
    using loop_moves [of t f dialer] t(1) by (auto simp: stopping_inv_def)
  show "n \<le> 11" using steps_left_bound [of s] t(2) by simp
qed

lemma paced_run: "(paced_step f dialer ^^ n) s t \<Longrightarrow> steps f dialer s t"
proof (induction n arbitrary: t)
  case (Suc n)
  then obtain m where m: "(paced_step f dialer ^^ n) s m" "paced_step f dialer m t" by auto
  then obtain u where u: "world_step\<^sup>*\<^sup>* m u" "own_step f dialer u t" by (auto simp: paced_step_def)
  have "steps f dialer m u" using u(1)
    by (induction rule: rtranclp_induct) (auto intro: rtranclp.rtrancl_into_rtrancl local_stepI)
  with Suc.IH [OF m(1)] have "steps f dialer s u" by (rule rtranclp_trans)
  then show ?case using local_stepI(1) [OF u(2)] by (rule rtranclp.rtrancl_into_rtrancl)
qed simp

lemma finished_run:
  assumes "steps f dialer (local_start (NewLocalClient u b)) s" and "loop_pc s = Finished"
  shows "\<exists>rds. list_all (may_happen f dialer u) rds \<and> Run rds (NewLocalClient u b) = (True, client s)"
proof -
  from steps_follow_rounds [OF assms(1)] obtain rds c0
    where r: "list_all (may_happen f dialer u) rds" "Run rds (NewLocalClient u b) = (False, c0)"
      "lc_remoteURL c0 = u" "tracks f dialer c0 s" by blast
  then obtain rd where "may_happen f dialer u rd" "run_round rd c0 = (False, client s)"
    using assms(2) by (auto simp: tracks_def)
  then show ?thesis using r(1) Run_snoc [OF r(2), of rd] by (intro exI [of _ "rds @ [rd]"]) simp
qed

section \<open>A run\<close>

text \<open>A home that serves session 7, and is told to stop.\<close>

definition one_lib :: "(request, unit, unit, unit) tunnel_lib" where
  "one_lib = \<lparr>ws_Dial = \<lambda>c u. Inr 1, ws_Accept = \<lambda>r. Inr 1, ws_NetConn = \<lambda>c k. k,
     yamux_Client = \<lambda>k c. Inr 7, yamux_Server = \<lambda>k c. Inr 7\<rparr>"

definition one_factory :: "(unit, unit) TunnelFactory" where
  "one_factory = NewTunnelFactory \<lparr>EnableKeepAlive = True, KeepAliveInterval = 30, StreamOpenTimeout = 75, yamux_rest = ()\<rparr> ()"

definition serving_home :: "bool \<Rightarrow> local_system" where
  "serving_home told =
     \<lparr>loop_pc = Watching 7 Selecting, client = connected 7 (NewLocalClient ''wss://code'' (NewBackoff 1 30)),
      lctx = told, dead = {}, crew = [7 \<mapsto> RunServing]\<rparr>"

definition draining_home :: local_system where
  "draining_home = (serving_home True)\<lparr>loop_pc := Watching 7 Draining, dead := {7}\<rparr>"

lemma home_serves: "steps one_factory () (local_start (NewLocalClient ''wss://code'' (NewBackoff 1 30))) (serving_home True)"
proof -
  let ?s0 = "local_start (NewLocalClient ''wss://code'' (NewBackoff 1 30))"
  let ?s1 = "?s0\<lparr>loop_pc := Dialing\<rparr>"
  have "local_step one_factory () ?s0 ?s1" by (intro local_stepI head_go) (simp_all add: local_start_def)
  moreover have "DialTunnel one_lib one_factory (lc_remoteURL (client ?s1)) () = (Inr 7, [])"
    by (simp add: DialTunnel_def wrapSession_def NewYamuxSession_def one_lib_def)
  from local_stepI(1) [OF dial_ok [OF _ this]] have "local_step one_factory () ?s1 (serving_home False)"
    by (simp add: serving_home_def local_start_def NewLocalClient_def)
  moreover have "local_step one_factory () (serving_home False) (serving_home True)"
    using local_stepI(2) [OF signal [of "serving_home False"]] by (simp add: serving_home_def)
  ultimately show ?thesis by (meson rtranclp.rtrancl_refl converse_rtranclp_into_rtranclp)
qed

lemma home_drains: "own_step one_factory () (serving_home True) draining_home"
proof -
  let ?s = "serving_home True"
  have "own_step one_factory () ?s (?s\<lparr>loop_pc := Watching 7 Draining, dead := insert 7 (dead ?s)\<rparr>)"
    using watch [of ?s 7 Selecting "(wait_view ?s 7 Selecting)\<lparr>wpc := Draining, sess_closed := True\<rparr>" one_factory "()"]
      select_ctx [of "wait_view ?s 7 Selecting"] by (simp add: wait_view_def serving_home_def)
  then show ?thesis by (simp add: draining_home_def serving_home_def)
qed

section \<open>Properties\<close>

text \<open>
  C24. Under every interleaving of the reconnect loop, its goroutines, cancellation and peers, the
  local half leaves nothing behind: each session it ever dialed is the one it is watching, or it
  is closed and the goroutine that served it has ended; so at most one session is open between
  two dials, and none when \<open>Run\<close> has returned. It returns only if the context was cancelled.
\<close>

theorem loop_owns_its_sessions:
  assumes "(local_step f dialer)\<^sup>*\<^sup>* (local_start (NewLocalClient u b)) s"
  shows "list_all (\<lambda>x. (\<exists>w. loop_pc s = Watching x w) \<or> x \<in> dead s \<and> gone (crew s x)) (lc_dialed (client s)) \<and>
    distinct (lc_dialed (client s)) \<and> {x. crew s x \<noteq> None} = set (lc_dialed (client s)) \<and>
    (loop_pc s = Finished \<longrightarrow> lctx s)"
proof -
  have inv: "crew_inv s" "loop_inv s" using local_inv_run [OF assms] by simp_all
  have "crew s x \<noteq> None \<longleftrightarrow> x \<in> set (lc_dialed (client s))" for x
    using crew_invD [OF inv(1), of x] by (cases "crew s x" rule: gone.cases) auto
  then show ?thesis
    using inv(2) dialed_distinct [OF assms] dialed_sessions [OF assms] by (auto simp: list_all_iff loop_inv_def)
qed

theorem loop_owns_its_sessions_witness:
  "list_all (\<lambda>x. (\<exists>w. loop_pc draining_home = Watching x w) \<or> x \<in> dead draining_home \<and> gone (crew draining_home x))
     (lc_dialed (client draining_home)) \<and>
   distinct (lc_dialed (client draining_home)) \<and>
   {x. crew draining_home x \<noteq> None} = set (lc_dialed (client draining_home)) \<and>
   loop_pc draining_home \<noteq> Finished"
  using loop_owns_its_sessions [OF rtranclp.rtrancl_into_rtrancl [OF home_serves local_stepI(1) [OF home_drains]]]
  by (simp add: draining_home_def)

text \<open>
  C26. A home whose tunnel has ended dials again: unless it is told to stop, the loop is back at
  \<open>DialTunnel\<close> after at most ten steps of its own and its goroutine's, whatever happens between them,
  never stuck on the way, having waited exactly once, for a time between the configured minimum
  and maximum.
\<close>

theorem dropped_home_dials_again:
  assumes "0 < sint mn" and "sint mn \<le> sint mx"
    and "(local_step f dialer)\<^sup>*\<^sup>* (local_start (NewLocalClient u (NewBackoff mn mx))) s"
    and "loop_pc s = Watching x w" and "x \<in> dead s" and "(redial_step f dialer ^^ n) s t"
  shows "n \<le> 10 \<and>
    (if loop_pc t = Dialing
     then \<exists>d. lc_waits (client t) = lc_waits (client s) @ [d] \<and> sint mn \<le> sint d \<and> sint d \<le> sint mx
     else \<exists>v. own_step f dialer t v)"
proof -
  have cut: "cut_off s" using local_inv_run [OF assms(3)] assms(4,5) by (simp add: cut_off_def)
  from redial_steps [OF assms(6) cut] have t: "crew_inv t" "loop_inv t" "\<forall>x w. loop_pc t = Watching x w \<longrightarrow> x \<in> dead t"
    and n: "if loop_pc t = Dialing then n = 0 \<or> n \<le> steps_left s else n + steps_left t \<le> steps_left s"
    unfolding cut_off_def by blast+
  from redial_steps [OF assms(6) cut] obtain ds
    where ds: "lc_waits (client t) = lc_waits (client s) @ ds" "length ds + owes (loop_pc t) = 1"
    using assms(4) by auto
  have "n \<le> 10" using n watching_bound [OF assms(4)] by (auto split: if_splits)
  moreover have "list_all (within mn mx) (lc_waits (client t))"
    using redial_delays [OF assms(6) delay_inv_run [OF assms(1-3)]] by (simp add: delay_inv_def)
  moreover have "\<exists>d. ds = [d]" if "loop_pc t = Dialing" using ds(2) that by (simp add: length_Suc_conv)
  moreover have "loop_pc t \<noteq> Finished"
    using redial_runs [OF assms(6)] t(2) assms(4) by (auto simp: loop_inv_def)
  then have "loop_pc t \<noteq> Dialing \<Longrightarrow> \<exists>v. own_step f dialer t v" using loop_moves [OF t(1,2), of f dialer] t(3) by blast
  ultimately show ?thesis using ds(1) by auto
qed

theorem dropped_home_dials_again_witness:
  "\<exists>s t n d. loop_pc s = Watching 7 (Returned False) \<and> loop_pc t = Dialing \<and> n \<le> (10 :: nat) \<and>
     lc_waits (client (t :: local_system)) = lc_waits (client (s :: local_system)) @ [d] \<and>
     sint (1 :: duration) \<le> sint d \<and> sint d \<le> sint (30 :: duration)"
proof -
  let ?s0 = "local_start (NewLocalClient ''wss://code'' (NewBackoff 1 30))" and ?R = "redial_step one_factory ()"
  let ?s1 = "?s0\<lparr>loop_pc := Dialing\<rparr>"
  have "local_step one_factory () ?s0 ?s1" by (intro local_stepI head_go) (simp_all add: local_start_def)
  moreover have "fst (DialTunnel one_lib one_factory (lc_remoteURL (client ?s1)) ()) = Inr 7"
    by (simp add: DialTunnel_def wrapSession_def NewYamuxSession_def one_lib_def)
  then obtain s where s: "steps one_factory () ?s1 s" "loop_pc s = Watching 7 (Returned False)" "\<not> lctx s"
    "crew s 7 = Some (RunGone None)"
    using session_happens [of ?s1 7 one_lib one_factory "()" False None] by (auto simp: local_start_def NewLocalClient_def)
  ultimately have run: "steps one_factory () ?s0 s" by (meson converse_rtranclp_into_rtranclp)
  then have dead: "7 \<in> dead s" using local_inv_run [OF run] crew_invD [of s 7] s(4) by simp
  let ?a = "s\<lparr>loop_pc := Backing, client := session_ended 0 None (closed_by_loop 7 (client s))\<rparr>"
  obtain d c where dc: "take_delay (\<lambda>n. 0) (client ?a) = (d, c)" by (cases "take_delay (\<lambda>n. 0) (client ?a)")
  let ?b = "?a\<lparr>loop_pc := Sleeping d, client := c\<rparr>"
  have "own_step one_factory () s ?a" by (rule back_ended [OF s(2,4)]) simp
  moreover have "own_step one_factory () ?a ?b" by (rule back_off [OF _ int63n_zero dc]) simp
  moreover have "own_step one_factory () ?b (?b\<lparr>loop_pc := Head\<rparr>)" by (rule slept) simp
  moreover have "own_step one_factory () (?b\<lparr>loop_pc := Head\<rparr>) (?b\<lparr>loop_pc := Dialing\<rparr>)"
    using head_go [of "?b\<lparr>loop_pc := Head\<rparr>" one_factory "()"] s(3) by simp
  ultimately have "?R s ?a" "?R ?a ?b" "?R ?b (?b\<lparr>loop_pc := Head\<rparr>)" "?R (?b\<lparr>loop_pc := Head\<rparr>) (?b\<lparr>loop_pc := Dialing\<rparr>)"
    using s(2,3) by (auto simp: redial_step_def paced_step_def)
  then have "(?R ^^ Suc (Suc (Suc (Suc 0)))) s (?b\<lparr>loop_pc := Dialing\<rparr>)"
    by (meson relpowp_0_I relpowp_Suc_I2)
  from dropped_home_dials_again [OF _ _ run s(2) dead this] obtain d'
    where "lc_waits c = lc_waits (client s) @ [d']" "sint (1 :: duration) \<le> sint d'" "sint d' \<le> sint (30 :: duration)"
    by auto
  then show ?thesis
    by (intro exI [of _ s] exI [of _ "?b\<lparr>loop_pc := Dialing\<rparr>"] exI [of _ 4] exI [of _ d']) (simp add: s(2))
qed

text \<open>
  C27. The loop as a function over rounds and the loop as interleaved goroutines agree: a client
  stands at the head of the loop, or is the one \<open>Run\<close> leaves behind, in some interleaving exactly
  when some list of rounds makes the function \<open>Run\<close> give it, each with a draw of \<open>rand.Int63n\<close>
  and an outcome of \<open>DialTunnel\<close>, no session twice.
\<close>

theorem interleaved_loop_is_Run:
  "(\<exists>s. (local_step f dialer)\<^sup>*\<^sup>* (local_start (NewLocalClient u b)) s \<and> client s = c \<and>
      loop_pc s = (if over then Finished else Head)) \<longleftrightarrow>
   (\<exists>rds. list_all (may_happen f dialer u) rds \<and> Run rds (NewLocalClient u b) = (over, c) \<and> distinct (lc_dialed c))"
proof
  assume "\<exists>s. steps f dialer (local_start (NewLocalClient u b)) s \<and> client s = c \<and> loop_pc s = (if over then Finished else Head)"
  then obtain s where s: "steps f dialer (local_start (NewLocalClient u b)) s" "client s = c"
    "loop_pc s = (if over then Finished else Head)" by blast
  from steps_follow_rounds [OF s(1)] obtain rds c0
    where r: "list_all (may_happen f dialer u) rds" "Run rds (NewLocalClient u b) = (False, c0)"
      "lc_remoteURL c0 = u" "tracks f dialer c0 s" by blast
  have dist: "distinct (lc_dialed c)" using dialed_distinct [OF s(1)] s(2) by simp
  show "\<exists>rds. list_all (may_happen f dialer u) rds \<and> Run rds (NewLocalClient u b) = (over, c) \<and> distinct (lc_dialed c)"
    using finished_run [OF s(1)] r s(2,3) dist by (cases over) (auto simp: tracks_def)
next
  assume "\<exists>rds. list_all (may_happen f dialer u) rds \<and> Run rds (NewLocalClient u b) = (over, c) \<and> distinct (lc_dialed c)"
  then show "\<exists>s. steps f dialer (local_start (NewLocalClient u b)) s \<and> client s = c \<and> loop_pc s = (if over then Finished else Head)"
    using rounds_happen [of f dialer "local_start (NewLocalClient u b)" _ over c] by (auto simp: local_start_def NewLocalClient_def)
qed

end
