(* ===== verification/Spec2Isabelle.thy ===== *)
theory Spec2Isabelle
  imports Shutdown Wire_Path Availability Gateway Config_File Local_System
begin

text \<open>
  A verification development for opencode-proxy, a reverse tunnel in Go that exposes the opencode
  server of a home computer to its owner's devices.

  The program. A \<^emph>\<open>remote half\<close> on a public host listens with mutual TLS. The \<^emph>\<open>local half\<close> at
  home dials it, and the connection becomes a yamux session, the tunnel. A device's request
  reaches the remote half, passes its guards and two stream budgets, goes through the tunnel to
  the local half, passes the guards there, and is answered by opencode. Certificates carry the
  role (tunnel or device) in the Organizational Unit; a denylist file, reread when it changes,
  cuts off single certificates.

  The theories, from the bottom:
  \<^item> \<open>Prelude\<close>: results of fallible functions, lists updated by index.
  \<^item> \<open>Go_Int\<close>, \<open>Go_Strings\<close>, \<open>Go_Numbers\<close>, \<open>Go_Quote\<close>, \<open>Go_Duration\<close>, \<open>Go_JSON\<close>: what the source
    uses of the Go library: 64-bit integers, \<^verbatim>\<open>strings\<close>, \<^verbatim>\<open>big.Int\<close> in base 16,
    \<^verbatim>\<open>strconv.Quote\<close>, \<^verbatim>\<open>time.ParseDuration\<close> and the JSON reader, over byte strings.
  \<^item> \<open>Http\<close>: the part of requests and replies the handlers touch, and the joining of paths.
  \<^item> \<open>Peer_Identity\<close> (\<^verbatim>\<open>tlsconf.go\<close>): roles, pinned names, their errors and log renderings.
  \<^item> \<open>Revocation\<close> (\<^verbatim>\<open>tlsconf.go\<close>): the denylist file, \<^verbatim>\<open>RevocationList\<close>, the handshake callback.
  \<^item> \<open>TLS_Config\<close> (\<^verbatim>\<open>tlsconf.go\<close>): the server and client configurations and whom they admit.
  \<^item> \<open>Path_Guard\<close> (\<^verbatim>\<open>remote.go\<close>): \<^verbatim>\<open>pathIsNormalized\<close> over the byte loop of \<^verbatim>\<open>path.Clean\<close>, and
    \<^verbatim>\<open>pathAllowed\<close>, against the segments of a path and their resolution.
  \<^item> \<open>Stream_Limits\<close> (\<^verbatim>\<open>remote.go\<close>): \<^verbatim>\<open>perCertLimiter\<close> and the semaphore, two pools of permits.
  \<^item> \<open>Session_Registry\<close> (\<^verbatim>\<open>remote.go\<close>): \<^verbatim>\<open>SessionRegistry\<close>, a last-writer-wins slot.
  \<^item> \<open>Tunnel\<close> (\<^verbatim>\<open>tunnel.go\<close>): session set-up; \<^verbatim>\<open>closeOnCancel\<close> and \<^verbatim>\<open>raceCtx\<close> as step relations over
    all interleavings.
  \<^item> \<open>Remote_Proxy\<close> (\<^verbatim>\<open>remote.go\<close>): \<^verbatim>\<open>deviceRequest\<close>, \<^verbatim>\<open>tunnelUpgrade\<close> and \<^verbatim>\<open>acceptTunnel\<close> as functions on
    the shared state \<open>remote\<close>, one definition per guard, budget and deferred call.
  \<^item> \<open>Remote_System\<close>: the remote half as net/http runs it. A goroutine is the point it has reached
    (\<open>proc\<close>), \<open>act\<close> is its next atomic step, made of the definitions of \<open>Remote_Proxy\<close>, and \<open>sys_step\<close>
    interleaves any number of them with dying sessions and the stop signal.
  \<^item> \<open>Remote_Sequential\<close>: the sequential \<open>deviceRequest\<close> is a run of the goroutine of a device request.
  \<^item> \<open>Gateway\<close>: the abstract gateway the concurrent remote half refines.
  \<^item> \<open>Backoff\<close>, \<open>Local_Client\<close> (\<^verbatim>\<open>local.go\<close>): retry delays on 64-bit words, the reconnect loop, the
    home's own request limits and its reverse proxy.
  \<^item> \<open>Wire_Path\<close> (both halves' \<^verbatim>\<open>SetURL\<close>): the text of a path on the wire, and how it is read again.
  \<^item> \<open>Headers\<close> (\<^verbatim>\<open>main.go\<close>, both \<^verbatim>\<open>Rewrite\<close> hooks): the version headers and what the reverse proxy does to
    the headers of a request and a response, behind a \<^verbatim>\<open>Rewrite\<close> or a \<^verbatim>\<open>Director\<close>.
  \<^item> \<open>Tunnel_Life\<close>, \<open>Availability\<close>: reconnecting, revoked and serving tunnels in \<open>Remote_System\<close>.
  \<^item> \<open>Local_System\<close>: the local half as it runs, the reconnect loop, the goroutine that serves each
    session, cancellation and peers as interleaved steps; the function \<open>Run\<close> describes the same clients.
  \<^item> \<open>Config\<close> (\<^verbatim>\<open>config.go\<close>): defaults, decoding, layering and validation.
  \<^item> \<open>Config_File\<close>: a writer of configuration files, inverted by the reader for texts in UTF-8.
  \<^item> \<open>Startup\<close> (\<^verbatim>\<open>main.go\<close>): flags, wiring, the default-deny check, the exit status.
  \<^item> This theory: the two halves put together.

  Interfaces are locales: \<open>denylist\<close> (a check answers membership and asking changes nothing),
  \<open>permit_pool\<close> (what both budgets promise), \<open>tunnel_slot\<close> (the registry), \<open>path_gate\<close> (what a gate
  in front of a backend must refuse), \<open>retry_policy\<close> (what the reconnect loop needs of a backoff) and
  \<open>simulation\<close>; each is interpreted on the model's own definitions.

  What the lemmas show. Safety: complete mediation of device requests and tunnel upgrades, in one
  goroutine and under every interleaving; confinement of paths to the allowlist in both halves,
  segment by segment and for every way to write a prefix;
  budgets that count exactly their holders; no lost session, no leaked stream or slot; default
  deny at start-up. Liveness: only a live tunnel, or a network that leaves a handshake or a
  request without a deadline unanswered, holds up a goroutine of the remote half; once all have ended
  nothing is left behind; a cancelled reconnect loop returns within eleven steps of its own and one
  whose tunnel has ended dials again after one wait; a home that dials again gets its slot and an
  admissible request its response, if the network delivers them.
  Functional: the registry, the denylist and its file formats, the configuration layers, the
  delays. Where the code falls short of its comments, a lemma exhibits it: a file written between
  the load and the stat of \<^verbatim>\<open>NewRevocationList\<close> goes unnoticed, the error handlers of the reverse
  proxies print the path unescaped, an encoded slash is judged as a slash by both allowlists but
  forwarded encoded, an informational response costs the final one its version header, and the
  process may exit before \<open>Shutdown\<close> has returned.

  Bounds and fuel. There is no fuel: every loop is recursive with a measure or structural, and a
  wait that need not end is a step relation or an option. Durations and limits that the code
  shifts, adds or compares are \<open>64 word\<close>; \<open>int\<close> holds values that are only compared or are checked
  to fit when they are read.

  Parameters, for code outside the repository: websocket and yamux (\<open>tunnel_lib\<close>, \<open>open_stream\<close>), the
  transport and opencode (\<open>idle_stream\<close>, \<open>handshake\<close>, \<open>round_trip\<close> and \<open>body_copy\<close> of the remote half, of
  which the last three are \<open>None\<close> where nothing comes until a deadline, if there is one, ends the wait;
  \<open>opencode\<close> and \<open>home_copy\<close> of the home half, for requests it finishes), which values have a
  \<^verbatim>\<open>Close\<close> (\<open>closer\<close>), X.509 and PEM (\<open>tls_lib\<close>, \<open>hello_chains\<close>), the file system (\<open>fs\<close>, one observation per system call), \<^verbatim>\<open>url.Parse\<close>, the random
  draw (specified as \<open>rand.Int63n\<close> documents it), the table of printable runes, the fractional part
  of a duration (computed by the library in floating point) and the \<^verbatim>\<open>Version\<close> string.

  Not modelled: the listener and the other internals of net/http (\<open>Shutdown\<close> is as documented);
  the headers and replies net/http makes by itself, query strings (carried along without being
  looked at), an opencode URL whose own path needs an unusual encoding, and the times at which parts
  of a response are flushed (a response is copied whole or cut short by the panic that aborts its
  handler); the texts of most errors (the errors are values); the data races a Go memory model would
  add (every shared variable is under a lock, and a step is what runs under it). The shell scripts, the PKI, CloudFormation, systemd and VM files and
  the tests are not Go code of the program.
\<close>

section \<open>From the device to opencode\<close>

lemma default_deny_confines:
  assumes "default_deny pol" and "path_guards (pol_AllowedPathPrefixes pol) path"
  shows "HasPrefix path ''/'' \<and> (\<exists>p\<in>set (pol_AllowedPathPrefixes pol). prefix (segments p) (resolve True path))"
  using assms guards.gate_rooted [OF assms(2)] guards.gate_confined [OF assms(2)]
  by (simp add: default_deny_def list_all_iff)

section \<open>Properties across components\<close>

text \<open>
  C1. The remote half end to end: if the program starts as a remote from any command line,
  configuration file and certificates, then in every state its concurrent goroutines can reach,
  each request inside the tunnel, from its dial to the last byte of its response, comes from a device
  certificate and has a path that stays under an allowed prefix however it is resolved, at most the configured number of them is in flight,
  and a registered tunnel authenticated with the pinned, non-empty Common Name.
\<close>

theorem serving_remote_confines_every_request:
  assumes "start sur = Inr (ServeRemote h)"
    and "reachable env (rs_policy h) (rs_denylist h) s"
    and "p \<in> set (procs s)" and "forwarded p = Some (r, leaf)"
  shows "leafCertOf (req_TLS r) = Some leaf \<and> OUDevice \<in> set (OrganizationalUnit leaf) \<and>
    (\<exists>p\<in>set (pol_AllowedPathPrefixes (rs_policy h)). prefix (segments p) (resolve True (URL_Path r))) \<and>
    forwards (procs s) \<le> nat (pol_MaxConcurrentStreams (rs_policy h)) \<and>
    (case reg_cert (reg (rem (sh s))) of
       None \<Rightarrow> reg_sess (reg (rem (sh s))) = None
     | Some cert \<Rightarrow> reg_sess (reg (rem (sh s))) \<noteq> None \<longrightarrow>
         CommonName cert = pol_TunnelCN (rs_policy h) \<and> CommonName cert \<noteq> [])"
proof -
  have deny: "default_deny (rs_policy h)" by (rule started_remote(1) [OF assms(1)])
  have inv: "sessions_inv (rs_policy h) (sh s) (procs s)" and "passed (rs_policy h) p"
    using reachable_sessions [OF assms(2)] assms(3) by (auto simp: list_all_iff)
  then have leaf: "device_leaf r leaf" "path_guards (pol_AllowedPathPrefixes (rs_policy h)) (URL_Path r)"
    using passed_forwarded(1) [OF _ assms(4)] by auto
  have "forwards (procs s) \<le> nat (pol_MaxConcurrentStreams (rs_policy h))"
    using reachable_budgets [OF assms(2)] by (simp add: budgets_inv_def sem_inv_def)
  moreover have "case reg_cert (reg (rem (sh s))) of
       None \<Rightarrow> reg_sess (reg (rem (sh s))) = None
     | Some cert \<Rightarrow> reg_sess (reg (rem (sh s))) \<noteq> None \<longrightarrow>
         CommonName cert = pol_TunnelCN (rs_policy h) \<and> CommonName cert \<noteq> []"
    using sessions_invD(3) [OF inv] deny
    by (cases "reg_sess (reg (rem (sh s)))") (auto simp: pinned_def default_deny_def split: option.split)
  ultimately show ?thesis
    using leaf default_deny_confines [OF deny leaf(2)] by (simp add: device_leaf_def)
qed

theorem serving_remote_confines_every_request_witness:
  "\<exists>h. start (sample_surroundings with_config) = Inr (ServeRemote h) \<and>
    (\<exists>p\<in>set (pol_AllowedPathPrefixes (rs_policy h)).
       prefix (segments p) (resolve True (URL_Path (phone_request ''/api''))))"
proof -
  obtain h where h: "start (sample_surroundings with_config) = Inr (ServeRemote h)"
    "rs_policy h = api_policy" "rs_denylist h = None" using sample_starts by blast
  have "DForwarding (phone_request ''/api'') phone_cert \<in> set (procs one_forward)"
    by (simp add: one_forward_def)
  then show ?thesis
    using serving_remote_confines_every_request [OF h(1), of quiet_env one_forward
        "DForwarding (phone_request ''/api'') phone_cert" "phone_request ''/api''" phone_cert]
      one_forward_reachable h by auto
qed

text \<open>
  C2. Both gates judge the path that opencode is sent: for a request the remote half admits, the
  home half receives the very same path, applies its own allowlist to it, and the request opencode
  answers, be the answer cut short or not, carries that path below the path of the configured URL, with the home's body cap; so no
  rewriting between the halves can move a request out of the remote's allowlist.
\<close>

theorem opencode_sees_the_judged_path:
  assumes "default_deny pol" and "admissible pol obs r leaf w"
    and "NewLocalReverseProxy env u = Inr proxy"
    and "WithLocalRequestLimits env m ps proxy (at_home (remote_Rewrite (bounded_request pol r))) = (rep, ls)"
    and "rep = Backend resp \<or> rep = Aborted resp"
  shows "\<exists>target out. url_Parse env u = Inr target \<and> opencode env out = Inr resp \<and>
    out_Path out = singleJoiningSlash (url_Path target) (URL_Path r) \<and> out_body_cap out = Some m \<and>
    pathAllowed ps (URL_Path r) \<and>
    (\<exists>p\<in>set (pol_AllowedPathPrefixes pol). prefix (segments p) (resolve True (URL_Path r)))"
proof -
  have guards: "path_guards (pol_AllowedPathPrefixes pol) (URL_Path r)"
    using assms(2) by (simp add: admissible_def)
  have rooted: "HasPrefix (URL_Path r) ''/''"
    and under: "\<exists>p\<in>set (pol_AllowedPathPrefixes pol). prefix (segments p) (resolve True (URL_Path r))"
    using default_deny_confines [OF assms(1) guards] by simp_all
  let ?home = "at_home (remote_Rewrite (bounded_request pol r))"
  have path: "URL_Path ?home = URL_Path r" by (rule at_home_path [OF rooted])
  have passed: "pathAllowed ps (URL_Path r) \<and> proxy (?home\<lparr>body_cap := Some m\<rparr>) = (rep, ls)"
    using assms(4,5) path by (auto simp: WithLocalRequestLimits_def split: if_splits)
  from assms(3) obtain target where t: "url_Parse env u = Inr target"
    and proxy: "proxy = (\<lambda>r. case opencode env (local_Rewrite target r) of
        Inl err \<Rightarrow> local_ErrorHandler (local_Rewrite target r) err
      | Inr resp \<Rightarrow> copy_response (home_copy env (local_Rewrite target r)) resp)"
    by (auto simp: NewLocalReverseProxy_def split: sum.splits)
  let ?out = "local_Rewrite target (?home\<lparr>body_cap := Some m\<rparr>)"
  have "opencode env ?out = Inr resp"
    using passed proxy assms(5) by (auto simp: local_ErrorHandler_def dest: copy_response_result split: sum.splits)
  moreover have "out_Path ?out = singleJoiningSlash (url_Path target) (URL_Path r)" "out_body_cap ?out = Some m"
    using path by (simp_all add: local_Rewrite_def)
  ultimately show ?thesis using t passed under by blast
qed

theorem opencode_sees_the_judged_path_witness:
  "\<exists>target out. url_Parse echo_env ''127.0.0.1:4096'' = Inr target \<and> opencode echo_env out = Inr ''/api'' \<and>
    out_Path out = singleJoiningSlash (url_Path target) ''/api'' \<and> out_body_cap out = Some 5"
proof -
  let ?target = "\<lparr>url_Scheme = ''http'', url_Host = ''127.0.0.1:4096'', url_Path = []\<rparr>"
  let ?proxy = "\<lambda>r. case opencode echo_env (local_Rewrite ?target r) of
        Inl err \<Rightarrow> local_ErrorHandler (local_Rewrite ?target r) err
      | Inr resp \<Rightarrow> copy_response (home_copy echo_env (local_Rewrite ?target r)) resp"
  have deny: "default_deny api_policy" by (simp add: default_deny_def api_policy_def HasPrefix_def)
  have adm: "admissible api_policy obs (phone_request ''/api'') phone_cert idle_remote" for obs
    using api_admitted phone_leaf
    by (cases obs) (simp add: admissible_def not_revoked_def idle_remote_def phone_cert_def, simp add: phone_request_def)
  have proxy: "NewLocalReverseProxy echo_env ''127.0.0.1:4096'' = Inr ?proxy"
    by (simp add: NewLocalReverseProxy_def) (simp add: echo_env_def)
  have path: "URL_Path (phone_request ''/api'') = ''/api''" by (simp add: phone_request_def)
  then have home: "URL_Path (at_home (remote_Rewrite (bounded_request api_policy (phone_request ''/api'')))) = ''/api''"
    using at_home_path [of "phone_request ''/api''" api_policy] by (simp add: HasPrefix_def)
  have "opencode echo_env (local_Rewrite ?target q) = Inr (singleJoiningSlash [] (URL_Path q))"
    "home_copy echo_env (local_Rewrite ?target q) = Copied" for q
    by (simp_all add: echo_env_def local_Rewrite_def)
  then have "WithLocalRequestLimits echo_env 5 [] ?proxy
      (at_home (remote_Rewrite (bounded_request api_policy (phone_request ''/api'')))) = (Backend ''/api'', [])"
    using home clean_examples(1) joined_rooted [of "''/api''"]
    by (simp add: WithLocalRequestLimits_def pathAllowed_def HasPrefix_def)
  from opencode_sees_the_judged_path [OF deny adm proxy this disjI1 [OF refl]] show ?thesis by (auto simp: path)
qed

text \<open>
  C28. The local half end to end: if the program starts as a home from any command line,
  configuration file and certificates, then under every interleaving it dials the URL of the
  command line, every delay it waits for or has waited for lies between the minimum and the
  maximum of the loaded configuration, which are positive and ordered, and the shift count of its
  backoff stays below the width of the word it shifts.
\<close>

theorem started_home_waits_in_range:
  assumes "start sur = Inr (ServeLocal h)"
    and "(local_step (ls_factory h) (ls_dialer h))\<^sup>*\<^sup>* (local_start (ls_client h)) s"
  shows "\<exists>f cfg. parseFlags (args sur) = Inr f \<and>
    LoadConfig (float_part sur) (ReadFile (crypto sur)) (configPath f) = Inr cfg \<and>
    lc_remoteURL (client s) = remoteURL f \<and> 0 < sint (BackoffMin cfg) \<and> sint (BackoffMin cfg) \<le> sint (BackoffMax cfg) \<and>
    list_all (\<lambda>d. sint (BackoffMin cfg) \<le> sint d \<and> sint d \<le> sint (BackoffMax cfg)) (lc_waits (client s)) \<and>
    (case loop_pc s of Sleeping d \<Rightarrow> sint (BackoffMin cfg) \<le> sint d \<and> sint d \<le> sint (BackoffMax cfg) | _ \<Rightarrow> True) \<and>
    attempt (lc_backoff (client s)) \<le> 63"
proof -
  obtain f cfg where f: "parseFlags (args sur) = Inr f" and ok: "config_ok cfg"
    and cfg: "LoadConfig (float_part sur) (ReadFile (crypto sur)) (configPath f) = Inr cfg"
    and home: "run_local sur f cfg = Inr (ServeLocal h)"
    by (rule start_cases [OF assms(1)]) (auto simp: run_remote_Inr split: if_splits)
  from home have client: "ls_client h = NewLocalClient (remoteURL f) (NewBackoff (BackoffMin cfg) (BackoffMax cfg))"
    by (auto simp: run_local_Inr)
  have range: "0 < sint (BackoffMin cfg)" "sint (BackoffMin cfg) \<le> sint (BackoffMax cfg)"
    using ok by (simp_all add: config_ok_def)
  have "lc_remoteURL (client s) = remoteURL f"
    using url_kept [OF assms(2)] client by (simp add: local_start_def NewLocalClient_def)
  then show ?thesis using waits_in_range [OF range assms(2) [unfolded client]] f cfg range by blast
qed

text \<open>A home started with a URL and the built-in defaults, whose first dial fails.\<close>

definition home_args :: "string list" where
  "home_args = [''--local'', ''--remote-url'', ''wss://code'', ''--ca'', ''a'', ''-cert=b'', ''--key'', ''k'']"

definition home_surroundings :: "(nat, nat, unit) surroundings" where
  "home_surroundings = (sample_surroundings home_args)\<lparr>home_env := echo_env\<rparr>"

lemma home_starts: "\<exists>h. start home_surroundings = Inr (ServeLocal h)"
proof -
  have "parseFlags home_args = Inr ((sample_flags [])\<lparr>isLocal := True, remoteURL := ''wss://code'', tunnelCN := []\<rparr>)"
    by (simp add: parseFlags_def sample_flags_def home_args_def split_flag_def HasPrefix_def flag_table_def set_bool_def ParseBool_def
        flag_defaults_def Let_def)
  then obtain f where f: "parseFlags (args home_surroundings) = Inr f" "isLocal f" "configPath f = []"
    by (simp add: home_surroundings_def sample_surroundings_def sample_flags_def)
  have "\<exists>h. run_local home_surroundings f DefaultConfig = Inr (ServeLocal h)"
    by (simp add: run_local_Inr NewLocalReverseProxy_def NewClientTLSConfig_def loadPoolAndCert_def LoadCAPool_def)
      (simp add: home_surroundings_def sample_surroundings_def echo_env_def)
  then show ?thesis using f by (simp add: start_def LoadConfig_def)
qed

theorem started_home_waits_in_range_witness:
  "\<exists>h s d. start home_surroundings = Inr (ServeLocal h) \<and> loop_pc (s :: local_system) = Sleeping d \<and>
     lc_waits (client s) = [d] \<and> 0 < sint d \<and> attempt (lc_backoff (client s)) \<le> 63"
proof -
  obtain h where h: "start home_surroundings = Inr (ServeLocal h)" using home_starts by blast
  obtain s d where s: "steps (ls_factory h) (ls_dialer h) (local_start (ls_client h)) s" "loop_pc s = Sleeping d"
    "lc_waits (client s) = lc_waits (ls_client h) @ [d]"
    using home_waits [of "ls_factory h" "ls_dialer h" "ls_client h"] by blast
  have "lc_waits (ls_client h) = []" by (rule started_local [OF h]) (simp add: NewLocalClient_def)
  then show ?thesis
    using started_home_waits_in_range [OF h s(1)] h s(2,3) by (intro exI [of _ h] exI [of _ s] exI [of _ d]) auto
qed

text \<open>
  C25. A home that is told to stop exits with status 0: from any state its goroutines can reach
  once the context is cancelled, they take at most eleven more steps of their own, whatever the
  peers do between them, and are not stuck before the reconnect loop has returned; then every
  session is closed, every goroutine that served one has ended, and \<open>main\<close> exits with status 0.
\<close>

theorem stopped_home_exits_zero:
  assumes "start sur = Inr (ServeLocal h)"
    and "(local_step (ls_factory h) (ls_dialer h))\<^sup>*\<^sup>* (local_start (ls_client h)) s" and "lctx s"
    and "(paced_step (ls_factory h) (ls_dialer h) ^^ n) s t"
  shows "n \<le> 11 \<and>
    (if loop_pc t = Finished
     then list_all (\<lambda>x. x \<in> dead t \<and> gone (crew t x)) (lc_dialed (client t)) \<and>
       (\<exists>rds. Run rds (ls_client h) = (True, client t) \<and> main_exit sur rds res = Some 0)
     else \<exists>v. own_step (ls_factory h) (ls_dialer h) t v)"
proof -
  obtain mn mx u where c: "ls_client h = NewLocalClient u (NewBackoff mn mx)" by (rule started_local [OF assms(1)])
  note run = assms(2) [unfolded c] and stops = cancelled_loop_returns [OF assms(2) [unfolded c] assms(3,4)]
  have reach: "steps (ls_factory h) (ls_dialer h) (local_start (NewLocalClient u (NewBackoff mn mx))) t"
    using run paced_run [OF assms(4)] by (rule rtranclp_trans)
  have "list_all (\<lambda>x. x \<in> dead t \<and> gone (crew t x)) (lc_dialed (client t)) \<and>
      (\<exists>rds. Run rds (ls_client h) = (True, client t) \<and> main_exit sur rds res = Some 0)" if "loop_pc t = Finished"
  proof -
    have "\<exists>rds. Run rds (ls_client h) = (True, client t)" using finished_run [OF reach that] c by auto
    then have "\<exists>rds. Run rds (ls_client h) = (True, client t) \<and> main_exit sur rds res = Some 0"
      using assms(1) by (auto simp: main_exit_def run_def)
    then show ?thesis using dialed_sessions [OF reach] that by (auto simp: list_all_iff)
  qed
  then show ?thesis using stops by auto
qed

theorem stopped_home_exits_zero_witness:
  "\<exists>h t rds. start home_surroundings = Inr (ServeLocal h) \<and> loop_pc (t :: local_system) = Finished \<and>
     Run rds (ls_client h) = (True, client t) \<and> main_exit home_surroundings rds None = Some 0"
proof -
  obtain h where h: "start home_surroundings = Inr (ServeLocal h)" using home_starts by blast
  let ?s = "(local_start (ls_client h))\<lparr>lctx := True\<rparr>"
  have told: "(local_step (ls_factory h) (ls_dialer h))\<^sup>*\<^sup>* (local_start (ls_client h)) ?s"
    by (intro r_into_rtranclp local_stepI signal)
  have "own_step (ls_factory h) (ls_dialer h) ?s (?s\<lparr>loop_pc := Finished\<rparr>)"
    by (rule head_stop) (simp_all add: local_start_def)
  then have "(paced_step (ls_factory h) (ls_dialer h) ^^ 1) ?s (?s\<lparr>loop_pc := Finished\<rparr>)"
    unfolding relpowp_1 paced_step_def by blast
  from stopped_home_exits_zero [OF h told _ this, of None] obtain rds
    where "Run rds (ls_client h) = (True, client (?s\<lparr>loop_pc := Finished\<rparr>))" "main_exit home_surroundings rds None = Some 0"
    by auto
  then show ?thesis using h by (intro exI [of _ h] exI [of _ "?s\<lparr>loop_pc := Finished\<rparr>"] exI [of _ rds]) simp
qed

end
